(* ===== verification/Go_Prelude.thy ===== *)
theory Go_Prelude
  imports Main "HOL-Library.Multiset" "HOL-Library.List_Lexorder" "HOL-Library.Char_ord"
begin

text \<open>
  Shared ground of the development: Go strings (lists of bytes), decimal integers, the parts of
  the packages \<open>strings\<close>, \<open>slices\<close> and \<open>fmt\<close> that the events processor uses, association lists
  standing for Go maps, and the interleaving of goroutine logs.
  Lemmas of general use about them are collected at the end, the ones that close goals of the
  component theories in the collections \<open>go_strings\<close> and \<open>interleave\<close>.
\<close>

named_theorems go_strings \<open>facts about joined and rendered strings\<close>
named_theorems interleave \<open>facts about interleaved goroutine logs\<close>

section \<open>Strings and integers\<close>

text \<open>\<open>strings.Join\<close>.\<close>

fun join :: "string \<Rightarrow> string list \<Rightarrow> string" where
  "join sep [] = []"
| "join sep [x] = x"
| "join sep (x # y # ys) = x @ sep @ join sep (y # ys)"

text \<open>\<open>strings.Split\<close> with a separator of one byte; splitting the empty string gives \<open>[[]]\<close>.\<close>

fun split_on :: "char \<Rightarrow> string \<Rightarrow> string list" where
  "split_on c [] = [[]]"
| "split_on c (x # xs) =
     (if x = c then [] # split_on c xs
      else (case split_on c xs of [] \<Rightarrow> [[x]] | w # ws \<Rightarrow> (x # w) # ws))"

text \<open>\<open>strings.Trim\<close> with a cut set of single bytes.\<close>

definition trim :: "(char \<Rightarrow> bool) \<Rightarrow> string \<Rightarrow> string" where
  "trim P s = rev (dropWhile P (rev (dropWhile P s)))"

definition digit_char :: "int \<Rightarrow> char" where
  "digit_char d =
     (if d = 0 then CHR ''0'' else if d = 1 then CHR ''1'' else if d = 2 then CHR ''2''
      else if d = 3 then CHR ''3'' else if d = 4 then CHR ''4'' else if d = 5 then CHR ''5''
      else if d = 6 then CHR ''6'' else if d = 7 then CHR ''7'' else if d = 8 then CHR ''8''
      else CHR ''9'')"

definition digit_value :: "char \<Rightarrow> int option" where
  "digit_value c = map_of (zip ''0123456789'' [0, 1, 2, 3, 4, 5, 6, 7, 8, 9]) c"

abbreviation is_digit :: "char \<Rightarrow> bool" where
  "is_digit c \<equiv> digit_value c \<noteq> None"

text \<open>The decimal digits of a non-negative number, without leading zeros.\<close>

function show_nat :: "int \<Rightarrow> string" where
  "show_nat n = (if n < 10 then [digit_char n] else show_nat (n div 10) @ [digit_char (n mod 10)])"
  by pat_completeness auto
termination
  by (relation "measure (\<lambda>n. nat n)") auto

declare show_nat.simps [simp del]

text \<open>\<open>%d\<close> on a signed integer.\<close>

definition show_int :: "int \<Rightarrow> string" where
  "show_int n = (if n < 0 then CHR ''-'' # show_nat (- n) else show_nat n)"

text \<open>\<open>%0wd\<close>: padded with zeros on the left to at least \<open>w\<close> characters.\<close>

definition pad_left :: "nat \<Rightarrow> string \<Rightarrow> string" where
  "pad_left w s = replicate (w - length s) CHR ''0'' @ s"

text \<open>The number read from a string of digits; \<open>None\<close> when a character is no digit.\<close>

fun read_digits :: "int \<Rightarrow> string \<Rightarrow> int option" where
  "read_digits acc [] = Some acc"
| "read_digits acc (c # cs) =
     (case digit_value c of None \<Rightarrow> None | Some d \<Rightarrow> read_digits (10 * acc + d) cs)"

text \<open>The conversion to a two's complement integer of 64 bits.\<close>

definition wrap64 :: "int \<Rightarrow> int" where
  "wrap64 n = (n + 2 ^ 63) mod 2 ^ 64 - 2 ^ 63"

text \<open>Integer division and remainder of Go, which truncate towards zero.\<close>

definition go_div :: "int \<Rightarrow> int \<Rightarrow> int" where
  "go_div a b = sgn a * sgn b * (\<bar>a\<bar> div \<bar>b\<bar>)"

definition go_mod :: "int \<Rightarrow> int \<Rightarrow> int" where
  "go_mod a b = a - b * go_div a b"

section \<open>Maps as association lists\<close>

text \<open>
  A Go map is a list of its entries with distinct keys, in the order in which one iteration over
  it meets them. Assignment replaces the value in place or adds an entry; the order of a range
  loop is unspecified in Go, so a result that is the same for every permutation of the list is
  one that does not depend on it.
\<close>

fun upsert :: "'k \<Rightarrow> 'v \<Rightarrow> ('k \<times> 'v) list \<Rightarrow> ('k \<times> 'v) list" where
  "upsert k v [] = [(k, v)]"
| "upsert k v ((k', v') # m) = (if k = k' then (k, v) # m else (k', v') # upsert k v m)"

text \<open>The results of a list of fallible steps, or the first error.\<close>

fun sequence_sum :: "('e + 'a) list \<Rightarrow> 'e + 'a list" where
  "sequence_sum [] = Inr []"
| "sequence_sum (Inl e # rs) = Inl e"
| "sequence_sum (Inr x # rs) =
     (case sequence_sum rs of Inl e \<Rightarrow> Inl e | Inr xs \<Rightarrow> Inr (x # xs))"

definition keys :: "('k \<times> 'v) list \<Rightarrow> 'k list" where
  "keys m = map fst m"

section \<open>Interleavings of goroutines\<close>

text \<open>
  Each goroutine leaves a list of the effects it has, in its program order. A schedule is a list
  of goroutine numbers: the goroutine named next performs its next effect (a number of a finished
  goroutine is skipped). When the schedule ends, the waiting parent lets the others finish in
  turn, so every goroutine always runs to its end, as \<open>errgroup.Group.Wait\<close> demands.
\<close>

fun merge_logs :: "nat list \<Rightarrow> 'e list list \<Rightarrow> 'e list" where
  "merge_logs [] ts = concat ts"
| "merge_logs (i # is) ts =
     (if i < length ts \<and> ts ! i \<noteq> []
      then hd (ts ! i) # merge_logs is (ts[i := tl (ts ! i)])
      else merge_logs is ts)"

section \<open>Lemmas\<close>

lemma join_append_last: "xs \<noteq> [] \<Longrightarrow> join sep (xs @ [y]) = join sep xs @ sep @ y"
  by (induction sep xs rule: join.induct) auto

lemma split_on_no_sep [go_strings]: "c \<notin> set x \<Longrightarrow> split_on c x = [x]"
  by (induction x) auto

lemma split_on_append [go_strings]:
  "c \<notin> set x \<Longrightarrow> split_on c (x @ c # ys) = x # split_on c ys"
  by (induction x) auto

text \<open>Splitting undoes joining, for parts that do not hold the separator.\<close>

lemma split_join [go_strings]:
  "xs \<noteq> [] \<Longrightarrow> (\<And>x. x \<in> set xs \<Longrightarrow> c \<notin> set x) \<Longrightarrow> split_on c (join [c] xs) = xs"
  by (induction "[c]" xs rule: join.induct) (auto simp: go_strings)

lemma split_on_ne [simp]: "split_on c s \<noteq> []"
  by (induction s) (auto split: list.splits)

lemma join_split: "join [c] (split_on c s) = s"
proof (induction s)
  case Nil
  then show ?case by simp
next
  case (Cons x xs)
  obtain w ws where "split_on c xs = w # ws" by (metis split_on_ne neq_Nil_conv)
  with Cons show ?case by (cases ws) auto
qed

lemma digit_char_is_digit: "is_digit (digit_char d)"
  by (simp add: digit_char_def digit_value_def)

lemma digit_value_char [simp]: "0 \<le> d \<Longrightarrow> d \<le> 9 \<Longrightarrow> digit_value (digit_char d) = Some d"
proof -
  assume "0 \<le> d" and "d \<le> 9"
  then have "d = 0 \<or> d = 1 \<or> d = 2 \<or> d = 3 \<or> d = 4 \<or> d = 5 \<or> d = 6 \<or> d = 7 \<or> d = 8 \<or> d = 9"
    by presburger
  then show ?thesis by (elim disjE) (simp_all add: digit_char_def digit_value_def)
qed

lemma digit_value_range: "digit_value c = Some d \<Longrightarrow> 0 \<le> d \<and> d \<le> 9"
  by (auto simp: digit_value_def split: if_splits)

lemma show_nat_digits: "\<forall>c \<in> set (show_nat n). is_digit c"
proof (induction n rule: show_nat.induct)
  case (1 n)
  then show ?case
    by (cases "n < 10") (auto simp: show_nat.simps [of n] digit_char_is_digit)
qed

lemma show_nat_ne [simp]: "show_nat n \<noteq> []"
  by (subst show_nat.simps) simp

lemma read_digits_append:
  "read_digits a (xs @ ys) = (case read_digits a xs of None \<Rightarrow> None | Some b \<Rightarrow> read_digits b ys)"
  by (induction xs arbitrary: a) (auto split: option.splits)

lemma read_digits_ge: "read_digits a s = Some n \<Longrightarrow> 0 \<le> a \<Longrightarrow> a \<le> n"
proof (induction s arbitrary: a)
  case (Cons c s)
  then obtain d where d: "digit_value c = Some d" "read_digits (10 * a + d) s = Some n" by (auto split: option.splits)
  then have "0 \<le> d" using digit_value_range by blast
  then show ?case using Cons.IH [OF d(2)] Cons.prems(2) by simp
qed simp

lemma read_show_nat: "0 \<le> n \<Longrightarrow> read_digits 0 (show_nat n) = Some n"
proof (induction n rule: show_nat.induct)
  case (1 n)
  show ?case
  proof (cases "n < 10")
    case True
    with 1 show ?thesis by (subst show_nat.simps) simp
  next
    case False
    with 1 have "read_digits 0 (show_nat (n div 10)) = Some (n div 10)" by simp
    with False show ?thesis by (simp add: show_nat.simps [of n] read_digits_append)
  qed
qed

lemma read_digits_replicate_0: "read_digits 0 (replicate k CHR ''0'' @ s) = read_digits 0 s"
  by (induction k) (auto simp: digit_value_def)

lemma read_pad_left: "0 \<le> n \<Longrightarrow> read_digits 0 (pad_left w (show_nat n)) = Some n"
  by (simp add: pad_left_def read_digits_replicate_0 read_show_nat)

lemma minus_not_in_show_nat: "CHR ''-'' \<notin> set (show_nat n)"
  using show_nat_digits [of n] by (force simp: digit_value_def)

lemma show_nat_inj: "0 \<le> m \<Longrightarrow> 0 \<le> n \<Longrightarrow> show_nat m = show_nat n \<Longrightarrow> m = n"
  by (metis read_show_nat option.inject)

lemma show_int_inj: "show_int m = show_int n \<Longrightarrow> m = n"
  using show_nat_inj [of m n] show_nat_inj [of "- m" "- n"]
    minus_not_in_show_nat [of m] minus_not_in_show_nat [of n]
  by (auto simp: show_int_def split: if_splits) (metis list.set_intros(1))+

lemma wrap64_id: "- (2 ^ 63) \<le> n \<Longrightarrow> n < 2 ^ 63 \<Longrightarrow> wrap64 n = n"
  by (simp add: wrap64_def)

lemma wrap64_range: "- (2 ^ 63) \<le> wrap64 n \<and> wrap64 n < 2 ^ 63"
  using pos_mod_bound [of "2 ^ 64" "n + 2 ^ 63"] pos_mod_sign [of "2 ^ 64" "n + 2 ^ 63"]
  by (simp add: wrap64_def)

lemma go_div_pos: "0 \<le> a \<Longrightarrow> 0 < b \<Longrightarrow> go_div a b = a div b"
  by (auto simp: go_div_def sgn_if)

lemma map_of_upsert: "map_of (upsert k v m) = (map_of m)(k \<mapsto> v)"
  by (induction m) auto

lemma sequence_sum_Inl: "Inl e \<in> set rs \<Longrightarrow> \<exists>e'. sequence_sum rs = Inl e'"
  by (induction rs rule: sequence_sum.induct) auto

lemma keys_Nil [simp]: "keys [] = []"
  by (simp add: keys_def)

lemma keys_upsert: "set (keys (upsert k v m)) = insert k (set (keys m))"
proof (induction m)
  case Nil
  then show ?case by (simp add: keys_def)
next
  case (Cons p m)
  obtain a b where "p = (a, b)" by (cases p)
  with Cons show ?case unfolding keys_def by (simp add: insert_commute)
qed

lemma distinct_keys_upsert: "distinct (keys m) \<Longrightarrow> distinct (keys (upsert k v m))"
  using keys_upsert [of k v] by (induction m) (auto simp: keys_def)

lemma upsert_fresh: "k \<notin> set (keys m) \<Longrightarrow> upsert k v m = m @ [(k, v)]"
  by (induction k v m rule: upsert.induct) (auto simp: keys_def)

lemma sum_mset_update:
  "i < length ts \<Longrightarrow> ts ! i = h # t \<Longrightarrow>
   add_mset h (\<Sum>xs \<leftarrow> ts[i := t]. mset xs) = (\<Sum>xs \<leftarrow> ts. mset xs)"
proof (induction ts arbitrary: i)
  case Nil
  then show ?case by simp
next
  case (Cons a ts)
  then show ?case by (cases i) auto
qed

text \<open>No schedule loses, repeats or invents an effect.\<close>

lemma merge_logs_mset [interleave]: "mset (merge_logs is ts) = (\<Sum>xs \<leftarrow> ts. mset xs)"
proof (induction "is" ts rule: merge_logs.induct)
  case (1 ts)
  then show ?case by (induction ts) auto
next
  case (2 i "is" ts)
  show ?case
  proof (cases "i < length ts \<and> ts ! i \<noteq> []")
    case True
    then obtain h t where "ts ! i = h # t" by (cases "ts ! i") auto
    with 2 True show ?thesis using sum_mset_update [of i ts h t] by simp
  next
    case False
    with 2 show ?thesis by auto
  qed
qed

lemma set_mset_sum_mset_list: "set_mset (\<Sum>xs \<leftarrow> ts. mset xs) = \<Union> (set ` set ts)"
  by (induction ts) auto

lemma merge_logs_set [interleave]: "set (merge_logs is ts) = \<Union> (set ` set ts)"
  by (metis merge_logs_mset set_mset_mset set_mset_sum_mset_list)

end
