(* ===== verification/Results.thy ===== *)
theory Results
  imports Go_Prelude
begin

text \<open>
  \<open>utils/result.go\<close>, \<open>utils/error_tracker.go\<close> and the effects of the program on the services around
  it. A Go \<open>error\<close> is its text (nothing in the modelled code looks at more than \<open>Error()\<close>) and
  \<open>nil\<close> is \<open>None\<close>. The zero value of the type parameter, which a failed result carries, is an
  argument of the constructors, since HOL has no zero value of a type.
\<close>

section \<open>Results\<close>

type_synonym goerror = string

record details =
  Code :: string
  Message :: string

record 'a result =
  rvalue :: 'a
  err :: "goerror option"
  details :: "details option"
  Retryable :: bool
  Capture :: bool

definition Success :: "'a result \<Rightarrow> bool" where
  "Success r \<longleftrightarrow> err r = None"

definition Failure :: "'a result \<Rightarrow> bool" where
  "Failure r \<longleftrightarrow> err r \<noteq> None"

definition Value :: "'a result \<Rightarrow> 'a" where
  "Value r = rvalue r"

text \<open>A panic is \<open>Inl\<close> of what is thrown.\<close>

definition ValueOrPanic :: "'a result \<Rightarrow> goerror + 'a" where
  "ValueOrPanic r = (case err r of Some e \<Rightarrow> Inl e | None \<Rightarrow> Inr (rvalue r))"

definition Error :: "'a result \<Rightarrow> goerror option" where
  "Error r = err r"

definition ErrorMsg :: "'a result \<Rightarrow> string" where
  "ErrorMsg r = (case err r of None \<Rightarrow> [] | Some e \<Rightarrow> e)"

definition AddErrorDetails :: "'a result \<Rightarrow> string \<Rightarrow> string \<Rightarrow> 'a result" where
  "AddErrorDetails r code message = r\<lparr>details := Some \<lparr>Code = code, Message = message\<rparr>\<rparr>"

definition NonRetryable :: "'a result \<Rightarrow> 'a result" where
  "NonRetryable r = r\<lparr>Retryable := False\<rparr>"

definition IsRetryable :: "'a result \<Rightarrow> bool" where
  "IsRetryable r = Retryable r"

definition NonCapturable :: "'a result \<Rightarrow> 'a result" where
  "NonCapturable r = r\<lparr>Capture := False\<rparr>"

definition IsCapturable :: "'a result \<Rightarrow> bool" where
  "IsCapturable r = Capture r"

definition ErrorDetails :: "'a result \<Rightarrow> details option" where
  "ErrorDetails r = details r"

definition ErrorCode :: "'a result \<Rightarrow> string" where
  "ErrorCode r = (case details r of None \<Rightarrow> [] | Some d \<Rightarrow> Code d)"

definition ErrorMessage :: "'a result \<Rightarrow> string" where
  "ErrorMessage r = (case details r of None \<Rightarrow> [] | Some d \<Rightarrow> Message d)"

definition SuccessResult :: "'a \<Rightarrow> 'a result" where
  "SuccessResult v = \<lparr>rvalue = v, err = None, details = None, Retryable = False, Capture = False\<rparr>"

definition FailedResult :: "'a \<Rightarrow> goerror \<Rightarrow> 'a result" where
  "FailedResult zero e = \<lparr>rvalue = zero, err = Some e, details = None, Retryable = True, Capture = True\<rparr>"

definition FailedBoolResult :: "goerror \<Rightarrow> bool result" where
  "FailedBoolResult e = \<lparr>rvalue = False, err = Some e, details = None, Retryable = True, Capture = True\<rparr>"

text \<open>
  A value of the interface \<open>AnyResult\<close>: what its methods read of the result behind it. The result
  that \<open>failedResult\<close> and the error tracker are handed comes in at its own type instead, since the
  methods are polymorphic here.
\<close>

section \<open>Effects\<close>

text \<open>
  The calls that change something outside the process, in the form in which they leave it: a record
  given to \<open>ProduceSync\<close> (topic, key, value, where \<open>None\<close> is a \<open>nil\<close> slice), the Redis commands
  SADD and EXPIRE, an exception sent to Sentry (error code, error message, extra key, error text),
  a line logged at level error, and the mark that a record is processed.
\<close>

datatype effect =
    ProduceSync string "string option" "string option"
  | SAdd string string
  | ExpireKeyIn string int
  | CaptureException string string string "goerror option"
  | LogError string
  | MarkProcessed nat

text \<open>
  How the services answer: the error (if any) of a call, given the effects that the same goroutine
  had before. Any behaviour of a service that a goroutine can observe is such a function.
\<close>

type_synonym replies = "effect list \<Rightarrow> effect \<Rightarrow> goerror option"

text \<open>A call of a service: the error it returns and the log after it.\<close>

definition call :: "replies \<Rightarrow> effect \<Rightarrow> effect list \<Rightarrow> goerror option \<times> effect list" where
  "call rp e log = (rp log e, log @ [e])"

section \<open>The error tracker\<close>

definition CaptureErrorResultWithExtra :: "'a result \<Rightarrow> string \<Rightarrow> effect list \<Rightarrow> effect list" where
  "CaptureErrorResultWithExtra r extra log =
     log @ [CaptureException (ErrorCode r) (ErrorMessage r) extra (Error r)]"

definition CaptureErrorResult :: "'a result \<Rightarrow> effect list \<Rightarrow> effect list" where
  "CaptureErrorResult r log = CaptureErrorResultWithExtra r [] log"

definition CaptureError :: "goerror option \<Rightarrow> effect list \<Rightarrow> effect list" where
  "CaptureError e log = log @ [CaptureException [] [] [] e]"

text \<open>\<open>LogAndPanic\<close>: the log it leaves and the text it panics with.\<close>

definition LogAndPanic :: "goerror \<Rightarrow> string \<Rightarrow> effect list \<Rightarrow> string \<times> effect list" where
  "LogAndPanic e message log = (e, CaptureError (Some e) (log @ [LogError message]))"

section \<open>Laws\<close>

named_theorems result_simps \<open>the methods of a result, unfolded\<close>

lemmas result_defs = Success_def Failure_def Value_def ValueOrPanic_def Error_def ErrorMsg_def
  AddErrorDetails_def NonRetryable_def IsRetryable_def NonCapturable_def IsCapturable_def
  ErrorDetails_def ErrorCode_def ErrorMessage_def SuccessResult_def FailedResult_def
  FailedBoolResult_def

declare result_defs [result_simps]

text \<open>
  What the clients of the interface rely on: exactly one of success and failure, an error text only
  on failure, and constructors and modifiers that do what their names say and nothing else.
\<close>

locale any_result =
  fixes failed :: "'r \<Rightarrow> bool" and ok :: "'r \<Rightarrow> bool" and error_of :: "'r \<Rightarrow> goerror option"
    and retryable :: "'r \<Rightarrow> bool" and capturable :: "'r \<Rightarrow> bool"
    and no_retry :: "'r \<Rightarrow> 'r" and no_capture :: "'r \<Rightarrow> 'r" and fail_with :: "goerror \<Rightarrow> 'r"
  assumes ok_iff: "ok r \<longleftrightarrow> \<not> failed r"
    and failed_iff: "failed r \<longleftrightarrow> error_of r \<noteq> None"
    and fail_with_error: "error_of (fail_with e) = Some e"
    and fail_with_flags: "retryable (fail_with e)" "capturable (fail_with e)"
    and no_retry_flags: "\<not> retryable (no_retry r)" "capturable (no_retry r) = capturable r"
    and no_capture_flags: "\<not> capturable (no_capture r)" "retryable (no_capture r) = retryable r"
    and modifiers_error: "error_of (no_retry r) = error_of r" "error_of (no_capture r) = error_of r"
begin

lemma not_found_flags:
  "failed (no_retry (no_capture (fail_with e))) \<and> \<not> retryable (no_retry (no_capture (fail_with e))) \<and>
   \<not> capturable (no_retry (no_capture (fail_with e)))"
  by (simp add: failed_iff modifiers_error fail_with_error no_retry_flags no_capture_flags)

lemma modifiers_failed: "failed (no_retry r) = failed r" "failed (no_capture r) = failed r"
  by (simp_all add: failed_iff modifiers_error)

end

interpretation res: any_result Failure Success Error IsRetryable IsCapturable NonRetryable
  NonCapturable "FailedResult zero" for zero
  by unfold_locales (simp_all add: result_simps)

interpretation bool_res: any_result Failure Success Error IsRetryable IsCapturable NonRetryable
  NonCapturable FailedBoolResult
  by unfold_locales (simp_all add: result_simps)

lemma SuccessResult_simps [simp]:
  "Success (SuccessResult v)" "\<not> Failure (SuccessResult v)" "Value (SuccessResult v) = v"
  "Error (SuccessResult v) = None"
  by (simp_all add: result_simps)

lemma FailedResult_simps [simp]:
  "Failure (FailedResult z e)" "\<not> Success (FailedResult z e)" "Error (FailedResult z e) = Some e"
  "IsRetryable (FailedResult z e)" "IsCapturable (FailedResult z e)" "Value (FailedResult z e) = z"
  by (simp_all add: result_simps)

lemma FailedBoolResult_simps [simp]:
  "Failure (FailedBoolResult e)" "\<not> Success (FailedBoolResult e)" "Error (FailedBoolResult e) = Some e"
  "IsRetryable (FailedBoolResult e)" "IsCapturable (FailedBoolResult e)"
  by (simp_all add: result_simps)

lemma AddErrorDetails_simps [simp]:
  "Failure (AddErrorDetails r c m) = Failure r" "Success (AddErrorDetails r c m) = Success r"
  "Error (AddErrorDetails r c m) = Error r" "IsRetryable (AddErrorDetails r c m) = IsRetryable r"
  "IsCapturable (AddErrorDetails r c m) = IsCapturable r" "Value (AddErrorDetails r c m) = Value r"
  "ErrorCode (AddErrorDetails r c m) = c" "ErrorMessage (AddErrorDetails r c m) = m"
  by (simp_all add: result_simps)

lemma modifiers_simps [simp]:
  "Failure (NonRetryable r) = Failure r" "Failure (NonCapturable r) = Failure r"
  "\<not> IsRetryable (NonRetryable r)" "\<not> IsCapturable (NonCapturable r)"
  "IsCapturable (NonRetryable r) = IsCapturable r" "IsRetryable (NonCapturable r) = IsRetryable r"
  "Error (NonRetryable r) = Error r" "Error (NonCapturable r) = Error r"
  "Value (NonRetryable r) = Value r" "Value (NonCapturable r) = Value r"
  by (simp_all add: result_simps)

end
