(* ===== verification/Go_Time.thy ===== *)
theory Go_Time
  imports Go_Prelude
begin

text \<open>
  The part of the package \<open>time\<close> that the events processor uses. A \<open>time.Time\<close> is an instant, the
  number of nanoseconds since the Unix epoch (its location is only ever UTC where it is printed);
  the calendar is the proleptic Gregorian one, computed as the package does, by cutting off cycles
  of 400, 100, 4 and 1 years. The layout \<open>2006-01-02T15:04:05\<close> is printed and parsed here, and
  the lemma \<open>parse_format\<close> says that parsing undoes printing.
\<close>

type_synonym gotime = int

section \<open>Instants\<close>

definition second :: int where
  "second = 1000000000"

definition millisecond :: int where
  "millisecond = 1000000"

text \<open>Seconds from the zero time, 1 January of year 1, to the Unix epoch.\<close>

definition unix_to_internal :: int where
  "unix_to_internal = 62135596800"

definition zero_time :: gotime where
  "zero_time = - unix_to_internal * second"

text \<open>\<open>time.Unix\<close>; the seconds are an \<open>int64\<close> counted from the zero time and wrap around.\<close>

definition time_unix :: "int \<Rightarrow> int \<Rightarrow> gotime" where
  "time_unix sec nsec =
     (wrap64 (sec + nsec div second + unix_to_internal) - unix_to_internal) * second + nsec mod second"

text \<open>\<open>Truncate(time.Millisecond)\<close>, which rounds towards the past.\<close>

definition truncate_ms :: "gotime \<Rightarrow> gotime" where
  "truncate_ms t = t - t mod millisecond"

text \<open>\<open>t.Sub(u)\<close>, a duration of 64 bits that saturates.\<close>

definition time_sub :: "gotime \<Rightarrow> gotime \<Rightarrow> int" where
  "time_sub t u = max (- (2 ^ 63)) (min (2 ^ 63 - 1) (t - u))"

section \<open>The calendar\<close>

definition is_leap :: "int \<Rightarrow> bool" where
  "is_leap y \<longleftrightarrow> y mod 4 = 0 \<and> (y mod 100 \<noteq> 0 \<or> y mod 400 = 0)"

definition month_lengths :: "bool \<Rightarrow> int list" where
  "month_lengths leap = [31, if leap then 29 else 28, 31, 30, 31, 30, 31, 31, 30, 31, 30, 31]"

fun find_month :: "int list \<Rightarrow> int \<Rightarrow> int \<Rightarrow> int \<times> int" where
  "find_month [] m d = (m, d + 1)"
| "find_month (l # ls) m d = (if d < l then (m, d + 1) else find_month ls (m + 1) (d - l))"

text \<open>Days from 1 January of year 1 to 1 January 1970.\<close>

definition epoch_days :: int where
  "epoch_days = 719162"

definition date_of_days :: "int \<Rightarrow> int \<times> int \<times> int" where
  "date_of_days days =
     (let z = days + epoch_days;
          n400 = z div 146097; r = z mod 146097;
          n100 = min 3 (r div 36524); r1 = r - 36524 * n100;
          n4 = r1 div 1461; r2 = r1 mod 1461;
          n1 = min 3 (r2 div 365); yday = r2 - 365 * n1;
          y = 400 * n400 + 100 * n100 + 4 * n4 + n1 + 1;
          (m, d) = find_month (month_lengths (is_leap y)) 1 yday
      in (y, m, d))"

definition year_start :: "int \<Rightarrow> int" where
  "year_start y = 365 * (y - 1) + (y - 1) div 4 - (y - 1) div 100 + (y - 1) div 400"

definition days_of_date :: "int \<Rightarrow> int \<Rightarrow> int \<Rightarrow> int" where
  "days_of_date y m d =
     year_start y + sum_list (take (nat (m - 1)) (month_lengths (is_leap y))) + d - 1 - epoch_days"

section \<open>Printing and parsing\<close>

definition day_seconds :: int where
  "day_seconds = 86400"

definition show_year :: "int \<Rightarrow> string" where
  "show_year y = (if y < 0 then CHR ''-'' # pad_left 4 (show_nat (- y)) else pad_left 4 (show_nat y))"

definition show2 :: "int \<Rightarrow> string" where
  "show2 n = pad_left 2 (show_nat n)"

text \<open>\<open>t.UTC().Format("2006-01-02T15:04:05")\<close>.\<close>

definition format_time :: "gotime \<Rightarrow> string" where
  "format_time t =
     (let s = t div second; (y, m, d) = date_of_days (s div day_seconds); k = s mod day_seconds
      in show_year y @ ''-'' @ show2 m @ ''-'' @ show2 d @ ''T'' @ show2 (k div 3600) @ '':'' @
         show2 (k mod 3600 div 60) @ '':'' @ show2 (k mod 60))"

text \<open>\<open>t.UTC().Format(time.RFC3339)\<close>.\<close>

definition format_rfc3339 :: "gotime \<Rightarrow> string" where
  "format_rfc3339 t = format_time t @ ''Z''"

text \<open>The fraction of RFC 3339 with nanoseconds, without its trailing zeros.\<close>

definition format_rfc3339_nano :: "gotime \<Rightarrow> string" where
  "format_rfc3339_nano t =
     (let ds = rev (dropWhile (\<lambda>c. c = CHR ''0'') (rev (pad_left 9 (show_nat (t mod second)))))
      in format_time t @ (if ds = [] then [] else ''.'' @ ds) @ ''Z'')"

text \<open>\<open>Time.MarshalJSON\<close> refuses a year outside 0 to 9999.\<close>

definition marshal_time :: "gotime \<Rightarrow> string option" where
  "marshal_time t =
     (let (y, m, d) = date_of_days (t div second div day_seconds)
      in if 0 \<le> y \<and> y \<le> 9999 then Some (format_rfc3339_nano t) else None)"

text \<open>\<open>getnum\<close>: one or two digits, exactly two when \<open>fixed\<close>.\<close>

fun getnum :: "bool \<Rightarrow> string \<Rightarrow> (int \<times> string) option" where
  "getnum fixed [] = None"
| "getnum fixed (a # cs) =
     (case digit_value a of None \<Rightarrow> None
      | Some x \<Rightarrow>
          (case cs of [] \<Rightarrow> (if fixed then None else Some (x, []))
           | b # ds \<Rightarrow>
               (case digit_value b of None \<Rightarrow> (if fixed then None else Some (x, cs))
                | Some y \<Rightarrow> Some (10 * x + y, ds))))"

definition skip :: "char \<Rightarrow> string \<Rightarrow> string option" where
  "skip c s = (case s of [] \<Rightarrow> None | x # xs \<Rightarrow> if x = c then Some xs else None)"

definition get_year :: "string \<Rightarrow> (int \<times> string) option" where
  "get_year s =
     (if length s < 4 then None
      else (case read_digits 0 (take 4 s) of None \<Rightarrow> None | Some y \<Rightarrow> Some (y, drop 4 s)))"

text \<open>
  A fraction after the seconds is taken although the layout has none: a point or a comma and at
  least one digit. Nine digits of it count.
\<close>

definition get_fraction :: "string \<Rightarrow> int \<times> string" where
  "get_fraction s =
     (case s of
        c # d # cs \<Rightarrow>
          (if (c = CHR ''.'' \<or> c = CHR '','') \<and> is_digit d
           then
             (let ds = takeWhile is_digit (d # cs); ns = take 9 ds
              in (case read_digits 0 ns of None \<Rightarrow> 0 | Some n \<Rightarrow> n * 10 ^ (9 - length ns),
                  dropWhile is_digit (d # cs)))
           else (0, s))
      | _ \<Rightarrow> (0, s))"

text \<open>\<open>time.Parse("2006-01-02T15:04:05", s)\<close>.\<close>

definition parse_time :: "string \<Rightarrow> gotime option" where
  "parse_time s =
     Option.bind (get_year s) (\<lambda>(y, s1).
     Option.bind (skip CHR ''-'' s1) (\<lambda>s2. Option.bind (getnum True s2) (\<lambda>(m, s3).
     Option.bind (skip CHR ''-'' s3) (\<lambda>s4. Option.bind (getnum True s4) (\<lambda>(d, s5).
     Option.bind (skip CHR ''T'' s5) (\<lambda>s6. Option.bind (getnum False s6) (\<lambda>(h, s7).
     Option.bind (skip CHR '':'' s7) (\<lambda>s8. Option.bind (getnum True s8) (\<lambda>(mi, s9).
     Option.bind (skip CHR '':'' s9) (\<lambda>s10. Option.bind (getnum True s10) (\<lambda>(sec, s11).
       (let (ns, rest) = get_fraction s11
        in if rest = [] \<and> 1 \<le> m \<and> m \<le> 12 \<and> h < 24 \<and> mi < 60 \<and> sec < 60 \<and> 1 \<le> d \<and>
              d \<le> month_lengths (is_leap y) ! nat (m - 1)
           then Some ((days_of_date y m d * day_seconds + h * 3600 + mi * 60 + sec) * second + ns)
           else None))))))))))))"

text \<open>The times whose year has four digits.\<close>

definition four_digit_year :: "gotime \<Rightarrow> bool" where
  "four_digit_year t =
     (let (y, m, d) = date_of_days (t div second div day_seconds) in 0 \<le> y \<and> y \<le> 9999)"

section \<open>Lemmas\<close>

lemma truncate_ms_le: "truncate_ms t \<le> t"
  by (simp add: truncate_ms_def millisecond_def)

lemma truncate_ms_gt: "t < truncate_ms t + millisecond"
  using pos_mod_bound [of millisecond t] by (simp add: truncate_ms_def millisecond_def)

lemma truncate_ms_dvd: "millisecond dvd truncate_ms t"
  by (simp add: truncate_ms_def dvd_minus_mod)

lemma truncate_ms_mono: "t \<le> u \<Longrightarrow> truncate_ms t \<le> truncate_ms u"
proof -
  assume "t \<le> u"
  then have "t div millisecond \<le> u div millisecond"
    by (simp add: zdiv_mono1 millisecond_def)
  then show ?thesis by (simp add: truncate_ms_def minus_mod_eq_mult_div millisecond_def)
qed

lemma truncate_ms_idem: "millisecond dvd t \<Longrightarrow> truncate_ms t = t"
  by (simp add: truncate_ms_def)

lemma time_unix_id:
  "- (2 ^ 63) \<le> sec + unix_to_internal \<Longrightarrow> sec + unix_to_internal < 2 ^ 63 \<Longrightarrow>
   0 \<le> ns \<Longrightarrow> ns < second \<Longrightarrow> time_unix sec ns = sec * second + ns"
  by (simp add: time_unix_def wrap64_id)

lemma find_month_sum:
  assumes "0 \<le> d" and "d < sum_list ls" and "find_month ls m d = (m', d')"
  shows "m \<le> m' \<and> m' < m + int (length ls) \<and> 1 \<le> d' \<and> d' \<le> ls ! nat (m' - m) \<and>
         sum_list (take (nat (m' - m)) ls) + d' - 1 = d"
  using assms
proof (induction ls arbitrary: m d)
  case Nil
  then show ?case by simp
next
  case (Cons l ls)
  show ?case
  proof (cases "d < l")
    case True
    with Cons.prems show ?thesis by auto
  next
    case False
    with Cons.prems have "0 \<le> d - l" and "d - l < sum_list ls" and "find_month ls (m + 1) (d - l) = (m', d')"
      by auto
    from Cons.IH [OF this] have ih: "m + 1 \<le> m'" "m' < m + 1 + int (length ls)" "1 \<le> d'"
      "d' \<le> ls ! nat (m' - (m + 1))" "sum_list (take (nat (m' - (m + 1))) ls) + d' - 1 = d - l"
      by auto
    then have "nat (m' - m) = Suc (nat (m' - (m + 1)))" by simp
    with ih show ?thesis by simp
  qed
qed

lemma month_lengths_sum: "sum_list (month_lengths leap) = (if leap then 366 else 365)"
  by (simp add: month_lengths_def)

lemma year_start_parts:
  fixes a b c e :: int
  assumes "0 \<le> b" "b \<le> 3" "0 \<le> c" "c \<le> 24" "0 \<le> e" "e \<le> 3"
  shows "year_start (400 * a + 100 * b + 4 * c + e + 1) = 146097 * a + 36524 * b + 1461 * c + 365 * e"
proof -
  let ?y = "400 * a + 100 * b + 4 * c + e"
  have "?y div 4 = 100 * a + 25 * b + c"
    using assms by (intro int_div_pos_eq [where r = e]) auto
  moreover have "?y div 100 = 4 * a + b"
    using assms by (intro int_div_pos_eq [where r = "4 * c + e"]) auto
  moreover have "?y div 400 = a"
    using assms by (intro int_div_pos_eq [where r = "100 * b + 4 * c + e"]) auto
  ultimately show ?thesis by (simp add: year_start_def)
qed

lemma leap_parts:
  fixes a b c e :: int
  assumes "0 \<le> b" "b \<le> 3" "0 \<le> c" "c \<le> 24" "0 \<le> e" "e \<le> 3"
  shows "is_leap (400 * a + 100 * b + 4 * c + e + 1) \<longleftrightarrow> e = 3 \<and> (c < 24 \<or> b = 3)"
proof -
  let ?y = "400 * a + 100 * b + 4 * c + e + 1"
  have 4: "?y mod 4 = (e + 1) mod 4"
    using mod_mult_self2 [of "e + 1" 4 "100 * a + 25 * b + c"] by (simp add: algebra_simps)
  have 100: "?y mod 100 = (4 * c + e + 1) mod 100"
    using mod_mult_self2 [of "4 * c + e + 1" 100 "4 * a + b"] by (simp add: algebra_simps)
  have 400: "?y mod 400 = (100 * b + 4 * c + e + 1) mod 400"
    using mod_mult_self2 [of "100 * b + 4 * c + e + 1" 400 a] by (simp add: algebra_simps)
  consider "e < 3" | "e = 3" "c < 24" | "e = 3" "c = 24" using assms by linarith
  then show ?thesis
  proof cases
    case 1
    with assms have "?y mod 4 = e + 1" by (simp add: 4)
    with assms 1 show ?thesis by (simp add: is_leap_def)
  next
    case 2
    with assms have "?y mod 4 = 0" by (simp add: 4)
    moreover have "?y mod 100 = 4 * c + 4" unfolding 100 using 2 assms by simp
    ultimately show ?thesis using assms 2 by (simp add: is_leap_def)
  next
    case 3
    then have "?y mod 4 = 0" and "?y mod 100 = 0" by (simp_all add: 4 100)
    moreover have "?y mod 400 = (100 * (b + 1)) mod 400" unfolding 400 using 3 by (simp add: algebra_simps)
    moreover from assms have "b = 0 \<or> b = 1 \<or> b = 2 \<or> b = 3" by linarith
    ultimately show ?thesis using 3 by (auto simp: is_leap_def)
  qed
qed

text \<open>The date of a day is a valid date, and the day is the day of its date.\<close>

lemma date_of_days_valid:
  assumes "date_of_days n = (y, m, d)"
  shows "1 \<le> m \<and> m \<le> 12 \<and> 1 \<le> d \<and> d \<le> month_lengths (is_leap y) ! nat (m - 1) \<and>
         days_of_date y m d = n"
proof -
  define z where "z = n + epoch_days"
  define a where "a = z div 146097"
  define r where "r = z mod 146097"
  define b where "b = min 3 (r div 36524)"
  define r1 where "r1 = r - 36524 * b"
  define c where "c = r1 div 1461"
  define r2 where "r2 = r1 mod 1461"
  define e where "e = min 3 (r2 div 365)"
  define yd where "yd = r2 - 365 * e"
  have z: "z = 146097 * a + r" by (simp add: a_def r_def)
  have r: "0 \<le> r" "r < 146097" by (simp_all add: r_def)
  have b: "0 \<le> b" "b \<le> 3" using r by (auto simp: b_def pos_imp_zdiv_nonneg_iff)
  have r1: "0 \<le> r1" "r1 < 36525" "b < 3 \<Longrightarrow> r1 < 36524" using r by (auto simp: r1_def b_def min_def)
  have c: "0 \<le> c" "c \<le> 24" using r1 by (auto simp: c_def pos_imp_zdiv_nonneg_iff)
  have r2: "r1 = 1461 * c + r2" "0 \<le> r2" "r2 < 1461" by (simp_all add: c_def r2_def)
  have e: "0 \<le> e" "e \<le> 3" using r2 by (auto simp: e_def pos_imp_zdiv_nonneg_iff)
  have yd: "0 \<le> yd" "yd \<le> 365" "e < 3 \<Longrightarrow> yd < 365" using r2 by (auto simp: yd_def e_def min_def)
  have y: "y = 400 * a + 100 * b + 4 * c + e + 1"
    and md: "find_month (month_lengths (is_leap y)) 1 yd = (m, d)"
    using assms unfolding date_of_days_def Let_def z_def [symmetric] a_def [symmetric] r_def [symmetric]
      b_def [symmetric] r1_def [symmetric] c_def [symmetric] r2_def [symmetric] e_def [symmetric] yd_def [symmetric]
    by (auto split: prod.splits)
  have leap: "is_leap y \<longleftrightarrow> e = 3 \<and> (c < 24 \<or> b = 3)" unfolding y using b c e by (rule leap_parts)
  have "yd < sum_list (month_lengths (is_leap y))"
  proof (cases "e = 3 \<and> \<not> (c < 24 \<or> b = 3)")
    case True
    with b c r1(3) r2(1) have "r2 < 36524 - 1461 * 24" by auto
    with True leap show ?thesis by (simp add: month_lengths_sum yd_def)
  next
    case False
    with leap yd e show ?thesis by (cases "e < 3") (auto simp: month_lengths_sum)
  qed
  from find_month_sum [OF yd(1) this md]
  have m: "1 \<le> m" "m < 13" "1 \<le> d" "d \<le> month_lengths (is_leap y) ! nat (m - 1)"
    and s: "sum_list (take (nat (m - 1)) (month_lengths (is_leap y))) + d - 1 = yd"
    by (auto simp: month_lengths_def)
  have "year_start y = 146097 * a + 36524 * b + 1461 * c + 365 * e"
    unfolding y using b c e by (rule year_start_parts)
  then have "days_of_date y m d = n"
    using s z r2(1) by (simp add: days_of_date_def z_def yd_def r1_def algebra_simps)
  with m show ?thesis by simp
qed

lemma digit_cons: "0 \<le> x \<Longrightarrow> x < 10 \<Longrightarrow> show_nat x = [digit_char x]"
  by (subst show_nat.simps) simp

lemma show2_eq: "0 \<le> x \<Longrightarrow> x < 100 \<Longrightarrow> show2 x = [digit_char (x div 10), digit_char (x mod 10)]"
  by (cases "x < 10")
    (auto simp: show2_def pad_left_def digit_cons digit_char_def show_nat.simps [of x] pos_imp_zdiv_nonneg_iff)

lemma length_show_nat: "0 \<le> n \<Longrightarrow> n < 10 ^ k \<Longrightarrow> 0 < k \<Longrightarrow> length (show_nat n) \<le> k"
proof (induction k arbitrary: n)
  case 0
  then show ?case by simp
next
  case (Suc k)
  show ?case
  proof (cases "n < 10")
    case True
    with Suc.prems show ?thesis by (simp add: digit_cons)
  next
    case False
    with Suc.prems have "0 < k" by (cases k) auto
    moreover have "n div 10 < 10 ^ k" using Suc.prems by auto
    ultimately have "length (show_nat (n div 10)) \<le> k" using Suc False by simp
    with False show ?thesis by (simp add: show_nat.simps [of n])
  qed
qed

lemma length_pad_left: "length s \<le> w \<Longrightarrow> length (pad_left w s) = w"
  by (simp add: pad_left_def)

lemma show_year_eq: "0 \<le> y \<Longrightarrow> y \<le> 9999 \<Longrightarrow> length (show_year y) = 4 \<and> read_digits 0 (show_year y) = Some y"
  using length_show_nat [of y 4] by (simp add: show_year_def length_pad_left read_pad_left)

lemma getnum_show2: "0 \<le> x \<Longrightarrow> x < 100 \<Longrightarrow> getnum fixed (show2 x @ rest) = Some (x, rest)"
  by (simp add: show2_eq pos_imp_zdiv_nonneg_iff)

lemma month_length_bounds: "1 \<le> m \<Longrightarrow> m \<le> 12 \<Longrightarrow> month_lengths leap ! nat (m - 1) \<le> 31"
proof -
  assume "1 \<le> m" "m \<le> 12"
  then have "nat (m - 1) < 12" by simp
  moreover have "\<forall>l \<in> set (month_lengths leap). l \<le> 31" by (simp add: month_lengths_def)
  moreover have "length (month_lengths leap) = 12" by (simp add: month_lengths_def)
  ultimately show ?thesis by (metis nth_mem)
qed

lemma parse_parts:
  assumes "0 \<le> y" "y \<le> 9999" and "1 \<le> m" "m \<le> 12" and "1 \<le> d" "d \<le> month_lengths (is_leap y) ! nat (m - 1)"
    and "0 \<le> h" "h < 24" and "0 \<le> mi" "mi < 60" and "0 \<le> sec" "sec < 60"
  shows "parse_time (show_year y @ ''-'' @ show2 m @ ''-'' @ show2 d @ ''T'' @ show2 h @ '':'' @
         show2 mi @ '':'' @ show2 sec) =
         Some ((days_of_date y m d * day_seconds + h * 3600 + mi * 60 + sec) * second)"
proof -
  have "d < 100" using month_length_bounds [of m "is_leap y"] assms by simp
  have y4: "get_year (show_year y @ rest) = Some (y, rest)" for rest
    using show_year_eq [OF assms(1,2)] by (simp add: get_year_def)
  have last: "getnum True (show2 sec) = Some (sec, [])"
    using getnum_show2 [of sec True "[]"] assms by simp
  have sk: "skip c (c # xs) = Some xs" for c xs by (simp add: skip_def)
  have gm: "getnum True (show2 m @ rest) = Some (m, rest)" for rest using assms by (intro getnum_show2) auto
  have gd: "getnum True (show2 d @ rest) = Some (d, rest)" for rest
    using assms \<open>d < 100\<close> by (intro getnum_show2) auto
  have gh: "getnum False (show2 h @ rest) = Some (h, rest)" for rest using assms by (intro getnum_show2) auto
  have gi: "getnum True (show2 mi @ rest) = Some (mi, rest)" for rest using assms by (intro getnum_show2) auto
  have gf: "get_fraction [] = (0, [])" by (simp add: get_fraction_def)
  show ?thesis
    unfolding parse_time_def y4 Option.bind.bind_lunit prod.case append_Cons append_Nil sk gm gd gh gi last gf Let_def
    using assms by (simp only: if_True simp_thms add_0_right)
qed

text \<open>Parsing a printed time gives its second back, for the years of four digits.\<close>

lemma parse_format:
  assumes "date_of_days (t div second div day_seconds) = (y, m, d)" and "0 \<le> y" and "y \<le> 9999"
  shows "parse_time (format_time t) = Some (t - t mod second)"
proof -
  define s where "s = t div second"
  define k where "k = s mod day_seconds"
  have date: "date_of_days (s div day_seconds) = (y, m, d)" using assms(1) by (simp add: s_def)
  from date_of_days_valid [OF date] have v: "1 \<le> m" "m \<le> 12" "1 \<le> d"
    "d \<le> month_lengths (is_leap y) ! nat (m - 1)" "days_of_date y m d = s div day_seconds" by auto
  have k: "0 \<le> k" "k < 86400" by (simp_all add: k_def day_seconds_def)
  then have hms: "0 \<le> k div 3600" "k div 3600 < 24" "0 \<le> k mod 3600 div 60" "k mod 3600 div 60 < 60"
      "0 \<le> k mod 60" "k mod 60 < 60"
    by (auto simp: pos_imp_zdiv_nonneg_iff)
  have "k mod 3600 mod 60 = k mod 60" by (rule mod_mod_cancel) simp
  then have "k = k div 3600 * 3600 + k mod 3600 div 60 * 60 + k mod 60"
    using div_mult_mod_eq [of "k mod 3600" 60] div_mult_mod_eq [of k 3600] by linarith
  then have "days_of_date y m d * day_seconds + k div 3600 * 3600 + k mod 3600 div 60 * 60 + k mod 60 = s"
    using div_mult_mod_eq [of s day_seconds] unfolding k_def [symmetric] v(5) by linarith
  moreover have "t - t mod second = s * second" by (simp add: s_def minus_mod_eq_div_mult)
  moreover have "format_time t = show_year y @ ''-'' @ show2 m @ ''-'' @ show2 d @ ''T'' @
      show2 (k div 3600) @ '':'' @ show2 (k mod 3600 div 60) @ '':'' @ show2 (k mod 60)"
    using date by (simp add: format_time_def Let_def s_def k_def)
  ultimately show ?thesis using parse_parts [OF assms(2,3) v(1-4) hms] by simp
qed

lemma parse_format_year: "four_digit_year t \<Longrightarrow> parse_time (format_time t) = Some (t - t mod second)"
  using parse_format [of t] by (auto simp: four_digit_year_def split: prod.splits)

lemma format_time_inj:
  assumes "format_time t = format_time u" and "four_digit_year t" and "four_digit_year u"
  shows "t div second = u div second"
proof -
  have "t - t mod second = u - u mod second"
    using parse_format_year [OF assms(2)] parse_format_year [OF assms(3)] assms(1) by simp
  then show ?thesis by (simp add: minus_mod_eq_div_mult second_def)
qed

text \<open>Printed times are made of digits and three punctuation marks.\<close>

lemma show_nat_no: "\<not> is_digit c \<Longrightarrow> c \<notin> set (show_nat n)"
  using show_nat_digits by blast

lemma pad_left_no: "\<not> is_digit c \<Longrightarrow> c \<notin> set (pad_left w (show_nat n))"
  using show_nat_no [of c n] by (auto simp: pad_left_def digit_value_def)

lemma not_in_format:
  assumes "\<not> is_digit c" and "c \<notin> {CHR ''-'', CHR '':'', CHR ''T''}"
  shows "c \<notin> set (format_time t)"
proof -
  have "c \<notin> set (pad_left w (show_nat n))" for w n by (rule pad_left_no) (rule assms(1))
  then show ?thesis using assms(2)
    by (simp add: format_time_def show_year_def show2_def Let_def split: prod.splits)
qed

lemma slash_not_in_format: "CHR ''/'' \<notin> set (format_time t)"
  by (rule not_in_format) (simp_all add: digit_value_def)

lemma format_time_ne: "format_time t \<noteq> []"
  by (simp add: format_time_def Let_def split: prod.splits)

end
