(* ===== verification/Go_Float.thy ===== *)
theory Go_Float
  imports Go_Prelude
begin

text \<open>
  The \<open>float64\<close> of Go: IEEE 754 binary64 with round to nearest, ties to even. A finite value is
  a sign, a mantissa below \<open>2 ^ 53\<close> and an exponent from -1074 to 971, in the canonical form (the
  mantissa is at least \<open>2 ^ 52\<close> unless the exponent is -1074), so equal values are equal terms,
  the two zeros apart; the payload of a NaN is not modelled. Every operation computes the exact
  rational result and rounds it once. The conversions of \<open>strconv\<close> and \<open>fmt\<close> that the events
  processor calls are here: \<open>ParseFloat\<close>, \<open>%f\<close>, \<open>%v\<close> and the JSON rendering.
\<close>

section \<open>Values and rounding\<close>

datatype float64 = FNaN | FInf bool | FFin bool int int

function bit_length :: "int \<Rightarrow> int" where
  "bit_length n = (if n \<le> 0 then 0 else 1 + bit_length (n div 2))"
  by pat_completeness auto
termination
  by (relation "measure (\<lambda>n. nat n)") auto

declare bit_length.simps [simp del]

definition shl :: "int \<Rightarrow> int \<Rightarrow> int" where
  "shl n k = (if k \<le> 0 then n else n * 2 ^ nat k)"

definition round_div_even :: "int \<Rightarrow> int \<Rightarrow> int" where
  "round_div_even n d =
     (let q = n div d; r = n mod d
      in if d < 2 * r \<or> (2 * r = d \<and> odd q) then q + 1 else q)"

text \<open>The float nearest to \<open>n / d\<close> (\<open>0 \<le> n\<close>, \<open>0 < d\<close>), negated when \<open>s\<close>.\<close>

definition round_float :: "bool \<Rightarrow> int \<Rightarrow> int \<Rightarrow> float64" where
  "round_float s n d =
     (if n = 0 then FFin s 0 (- 1074)
      else
        let e0 = bit_length n - bit_length d - 53;
            e1 = (if shl n (- e0) < shl d e0 * 2 ^ 53 then e0 else e0 + 1);
            e = max e1 (- 1074);
            m = round_div_even (shl n (- e)) (shl d e);
            (m', e') = (if m = 2 ^ 53 then (2 ^ 52, e + 1) else (m, e))
        in if 971 < e' then FInf s else FFin s m' e')"

section \<open>Arithmetic\<close>

fun float_neg :: "float64 \<Rightarrow> float64" where
  "float_neg FNaN = FNaN"
| "float_neg (FInf s) = FInf (\<not> s)"
| "float_neg (FFin s m e) = FFin (\<not> s) m e"

definition signed :: "bool \<Rightarrow> int \<Rightarrow> int" where
  "signed s n = (if s then - n else n)"

fun float_add :: "float64 \<Rightarrow> float64 \<Rightarrow> float64" where
  "float_add FNaN y = FNaN"
| "float_add x FNaN = FNaN"
| "float_add (FInf s) (FInf t) = (if s = t then FInf s else FNaN)"
| "float_add (FInf s) y = FInf s"
| "float_add x (FInf t) = FInf t"
| "float_add (FFin s m e) (FFin t k f) =
     (let g = min e f; c = signed s (shl m (e - g)) + signed t (shl k (f - g))
      in if c = 0 then FFin (s \<and> t) 0 (- 1074) else round_float (c < 0) (shl \<bar>c\<bar> g) (shl 1 (- g)))"

definition float_sub :: "float64 \<Rightarrow> float64 \<Rightarrow> float64" where
  "float_sub x y = float_add x (float_neg y)"

fun float_mul :: "float64 \<Rightarrow> float64 \<Rightarrow> float64" where
  "float_mul FNaN y = FNaN"
| "float_mul x FNaN = FNaN"
| "float_mul (FInf s) (FInf t) = FInf (s \<noteq> t)"
| "float_mul (FInf s) (FFin t k f) = (if k = 0 then FNaN else FInf (s \<noteq> t))"
| "float_mul (FFin s m e) (FInf t) = (if m = 0 then FNaN else FInf (s \<noteq> t))"
| "float_mul (FFin s m e) (FFin t k f) =
     round_float (s \<noteq> t) (shl (m * k) (e + f)) (shl 1 (- (e + f)))"

fun float_div :: "float64 \<Rightarrow> float64 \<Rightarrow> float64" where
  "float_div FNaN y = FNaN"
| "float_div x FNaN = FNaN"
| "float_div (FInf s) (FInf t) = FNaN"
| "float_div (FInf s) (FFin t k f) = FInf (s \<noteq> t)"
| "float_div (FFin s m e) (FInf t) = FFin (s \<noteq> t) 0 (- 1074)"
| "float_div (FFin s m e) (FFin t k f) =
     (if k = 0 then (if m = 0 then FNaN else FInf (s \<noteq> t))
      else round_float (s \<noteq> t) (shl m (e - f)) (shl k (f - e)))"

text \<open>The integral part of a finite value.\<close>

definition trunc_part :: "int \<Rightarrow> int \<Rightarrow> int" where
  "trunc_part m e = shl m e div shl 1 (- e)"

text \<open>\<open>math.Trunc\<close>.\<close>

fun float_trunc :: "float64 \<Rightarrow> float64" where
  "float_trunc (FFin s m e) = round_float s (trunc_part m e) 1"
| "float_trunc x = x"

text \<open>\<open>float64(n)\<close> of an integer.\<close>

definition float_of_int :: "int \<Rightarrow> float64" where
  "float_of_int n = round_float (n < 0) \<bar>n\<bar> 1"

text \<open>
  \<open>int64(x)\<close> truncates towards zero. The Go specification leaves the result to the
  implementation when the truncated value does not fit (amd64 gives \<open>-2 ^ 63\<close>, arm64 saturates
  and sends NaN to 0): the parameter \<open>cvt\<close> stands for it.
\<close>

fun float_to_int :: "float64 \<Rightarrow> int option" where
  "float_to_int (FFin s m e) =
     (let v = signed s (trunc_part m e) in if - (2 ^ 63) \<le> v \<and> v < 2 ^ 63 then Some v else None)"
| "float_to_int x = None"

definition int64_of_float :: "(float64 \<Rightarrow> int) \<Rightarrow> float64 \<Rightarrow> int" where
  "int64_of_float cvt x = (case float_to_int x of Some v \<Rightarrow> v | None \<Rightarrow> wrap64 (cvt x))"

definition float_finite :: "float64 \<Rightarrow> bool" where
  "float_finite x = (case x of FFin s m e \<Rightarrow> True | _ \<Rightarrow> False)"

section \<open>strconv.ParseFloat\<close>

datatype num_error = ErrSyntax | ErrRange

definition lower :: "char \<Rightarrow> char" where
  "lower c = (if CHR ''A'' \<le> c \<and> c \<le> CHR ''Z'' then char_of (of_char c + 32 :: nat) else c)"

definition hex_value :: "char \<Rightarrow> int option" where
  "hex_value c =
     (case digit_value c of Some d \<Rightarrow> Some d
      | None \<Rightarrow>
          (let l = lower c
           in if l = CHR ''a'' then Some 10 else if l = CHR ''b'' then Some 11
              else if l = CHR ''c'' then Some 12 else if l = CHR ''d'' then Some 13
              else if l = CHR ''e'' then Some 14 else if l = CHR ''f'' then Some 15 else None))"

text \<open>
  The mantissa loop of \<open>readFloat\<close>: digits of the base, underscores and one point. The result
  is the mantissa without its point, the number of digits after the point, whether a digit and
  whether an underscore was seen, and the rest of the string.
\<close>

fun scan_mantissa :: "bool \<Rightarrow> string \<Rightarrow> int \<Rightarrow> int \<Rightarrow> bool \<Rightarrow> bool \<Rightarrow> bool \<Rightarrow>
    int \<times> int \<times> bool \<times> bool \<times> string" where
  "scan_mantissa hex [] acc frac dot digs und = (acc, frac, digs, und, [])"
| "scan_mantissa hex (c # cs) acc frac dot digs und =
     (if c = CHR ''_'' then scan_mantissa hex cs acc frac dot digs True
      else if c = CHR ''.'' then
        (if dot then (acc, frac, digs, und, c # cs)
         else scan_mantissa hex cs acc frac True digs und)
      else
        (case (if hex then hex_value c else digit_value c) of
           None \<Rightarrow> (acc, frac, digs, und, c # cs)
         | Some d \<Rightarrow>
             scan_mantissa hex cs ((if hex then 16 else 10) * acc + d)
               (if dot then frac + 1 else frac) dot True und))"

text \<open>The digits of the exponent; it stops growing at 10000.\<close>

fun scan_exponent :: "string \<Rightarrow> int \<Rightarrow> bool \<Rightarrow> int \<times> bool \<times> string" where
  "scan_exponent [] acc und = (acc, und, [])"
| "scan_exponent (c # cs) acc und =
     (if c = CHR ''_'' then scan_exponent cs acc True
      else
        (case digit_value c of
           None \<Rightarrow> (acc, und, c # cs)
         | Some d \<Rightarrow> scan_exponent cs (if acc < 10000 then 10 * acc + d else acc) und))"

text \<open>\<open>underscoreOK\<close> after the sign and the base prefix; \<open>saw\<close> is the class of the last byte.\<close>

fun underscore_scan :: "bool \<Rightarrow> char \<Rightarrow> string \<Rightarrow> bool" where
  "underscore_scan hex saw [] = (saw \<noteq> CHR ''_'')"
| "underscore_scan hex saw (c # cs) =
     (if is_digit c \<or> (hex \<and> hex_value c \<noteq> None) then underscore_scan hex (CHR ''0'') cs
      else if c = CHR ''_'' then saw = CHR ''0'' \<and> underscore_scan hex (CHR ''_'') cs
      else saw \<noteq> CHR ''_'' \<and> underscore_scan hex (CHR ''!'') cs)"

definition strip_sign :: "string \<Rightarrow> bool \<times> string" where
  "strip_sign s =
     (case s of [] \<Rightarrow> (False, [])
      | c # cs \<Rightarrow> if c = CHR ''-'' then (True, cs) else if c = CHR ''+'' then (False, cs) else (False, s))"

definition ten_pow :: "int \<Rightarrow> int" where
  "ten_pow k = 10 ^ nat k"

text \<open>The value of mantissa, base, exponent and fraction digits, with the range check.\<close>

definition float_result :: "bool \<Rightarrow> bool \<Rightarrow> int \<Rightarrow> int \<Rightarrow> num_error + float64" where
  "float_result hex s acc e =
     (let x = (if hex then round_float s (shl acc e) (shl 1 (- e))
               else round_float s (acc * ten_pow e) (ten_pow (- e)))
      in case x of FInf _ \<Rightarrow> Inl ErrRange | _ \<Rightarrow> Inr x)"

text \<open>\<open>readFloat\<close> on the text after the sign.\<close>

definition read_number :: "bool \<Rightarrow> string \<Rightarrow> num_error + float64" where
  "read_number s t =
     (let hex = (2 < length t \<and> take 1 t = ''0'' \<and> lower (t ! 1) = CHR ''x'');
          body = (if hex then drop 2 t else t);
          (acc, frac, digs, und, rest) = scan_mantissa hex body 0 0 False False False;
          e0 = (if hex then - 4 * frac else - frac);
          mark = (if hex then CHR ''p'' else CHR ''e'')
      in if \<not> digs then Inl ErrSyntax
         else
           (case rest of
              [] \<Rightarrow>
                (if hex \<or> (und \<and> \<not> underscore_scan hex (if hex then CHR ''0'' else CHR ''^'') body)
                 then Inl ErrSyntax else float_result hex s acc e0)
            | c # cs \<Rightarrow>
                (if lower c \<noteq> mark then Inl ErrSyntax
                 else
                   (let (es, ds) = strip_sign cs
                    in if ds = [] \<or> \<not> is_digit (hd ds) then Inl ErrSyntax
                       else
                         (let (e, und', rest') = scan_exponent ds 0 und
                          in if rest' \<noteq> [] \<or>
                                (und' \<and> \<not> underscore_scan hex (if hex then CHR ''0'' else CHR ''^'') body)
                             then Inl ErrSyntax
                             else float_result hex s acc (e0 + signed es e))))))"

definition parse_float :: "string \<Rightarrow> num_error + float64" where
  "parse_float s =
     (let (neg, t) = strip_sign s; l = List.map lower t
      in if l = ''inf'' \<or> l = ''infinity'' then Inr (FInf neg)
         else if List.map lower s = ''nan'' then Inr FNaN
         else read_number neg t)"

section \<open>Printing\<close>

text \<open>\<open>%f\<close>: six digits after the point, exactly rounded.\<close>

fun format_f :: "float64 \<Rightarrow> string" where
  "format_f FNaN = ''NaN''"
| "format_f (FInf s) = (if s then ''-Inf'' else ''+Inf'')"
| "format_f (FFin s m e) =
     (let q = round_div_even (shl m e * 1000000) (shl 1 (- e))
      in (if s then ''-'' else []) @ show_nat (q div 1000000) @ ''.'' @ pad_left 6 (show_nat (q mod 1000000)))"

text \<open>The position of the decimal point: \<open>10 ^ (p - 1) \<le> n / d < 10 ^ p\<close>.\<close>

function dec_point :: "int \<Rightarrow> int \<Rightarrow> int" where
  "dec_point n d =
     (if n \<le> 0 \<or> d \<le> 0 then 0
      else if d \<le> n then int (length (show_nat (n div d)))
      else if d \<le> 10 * n then 0
      else dec_point (10 * n) d - 1)"
  by pat_completeness auto
termination
  by (relation "measure (\<lambda>(n, d). nat (d - n))") auto

declare dec_point.simps [simp del]

text \<open>
  The shortest decimal that reads back as the value, the nearest one when several do: the
  candidates with \<open>k\<close> digits are the two around the exact value.
\<close>

definition candidate :: "bool \<Rightarrow> int \<Rightarrow> int \<Rightarrow> int \<Rightarrow> int \<Rightarrow> int option" where
  "candidate s m e p k =
     (let n = shl m e * ten_pow (k - p); d = shl 1 (- e) * ten_pow (p - k);
          lo = n div d; r = n mod d;
          back = (\<lambda>c. round_float s (c * ten_pow (p - k)) (ten_pow (k - p)) = FFin s m e)
      in if back lo \<and> back (lo + 1) then Some (round_div_even n d)
         else if back lo then Some lo
         else if back (lo + 1) then Some (lo + 1) else None)"

fun first_candidate :: "bool \<Rightarrow> int \<Rightarrow> int \<Rightarrow> int \<Rightarrow> int list \<Rightarrow> int \<times> int" where
  "first_candidate s m e p [] = (0, 0)"
| "first_candidate s m e p (k # ks) =
     (case candidate s m e p k of Some c \<Rightarrow> (c, k) | None \<Rightarrow> first_candidate s m e p ks)"

definition shortest_digits :: "bool \<Rightarrow> int \<Rightarrow> int \<Rightarrow> string \<times> int" where
  "shortest_digits s m e =
     (if m = 0 then ([], 0)
      else
        let p = dec_point (shl m e) (shl 1 (- e));
            (c, k) = first_candidate s m e p [1, 2, 3, 4, 5, 6, 7, 8, 9, 10, 11, 12, 13, 14, 15, 16, 17];
            ds = show_nat c
        in (rev (dropWhile (\<lambda>x. x = CHR ''0'') (rev ds)), p + int (length ds) - k))"

text \<open>\<open>fmtE\<close> and \<open>fmtF\<close> of \<open>strconv\<close> on shortest digits.\<close>

definition digits_e :: "nat \<Rightarrow> string \<Rightarrow> int \<Rightarrow> string" where
  "digits_e w ds p =
     (let x = (if ds = [] then 0 else p - 1)
      in take 1 (ds @ ''0'') @ (if length ds \<le> 1 then [] else ''.'' @ drop 1 ds) @ ''e'' @
         (if x < 0 then ''-'' else ''+'') @ pad_left w (show_nat \<bar>x\<bar>))"

definition digits_f :: "string \<Rightarrow> int \<Rightarrow> string" where
  "digits_f ds p =
     (let n = nat p;
          intpart = (if 0 < p then take n ds @ replicate (n - length ds) CHR ''0'' else ''0'');
          fracpart = replicate (nat (- p)) CHR ''0'' @ drop n ds
      in if drop n ds = [] then intpart else intpart @ ''.'' @ fracpart)"

text \<open>\<open>%v\<close> of a float: shortest digits, in exponent form below \<open>1e-4\<close> and from \<open>1e+06\<close> on.\<close>

fun format_v :: "float64 \<Rightarrow> string" where
  "format_v FNaN = ''NaN''"
| "format_v (FInf s) = (if s then ''-Inf'' else ''+Inf'')"
| "format_v (FFin s m e) =
     (let (ds, p) = shortest_digits s m e
      in (if s then ''-'' else []) @
         (if p - 1 < - 4 \<or> 6 \<le> p - 1 then digits_e 2 ds p else digits_f ds p))"

text \<open>A float in \<open>encoding/json\<close>: no rendering for NaN and the infinities.\<close>

fun format_json :: "float64 \<Rightarrow> string option" where
  "format_json (FFin s m e) =
     (let (ds, p) = shortest_digits s m e
      in Some ((if s then ''-'' else []) @
               (if ds \<noteq> [] \<and> (p - 1 < - 6 \<or> 21 \<le> p - 1) then digits_e 1 ds p else digits_f ds p)))"
| "format_json x = None"

end
