(* ===== verification/Go_Json.thy ===== *)
theory Go_Json
  imports Go_Float
begin

text \<open>
  Dynamic values of Go (the type \<open>any\<close>), their \<open>%v\<close> rendering, and the package
  \<open>encoding/json\<close> at the level of bytes. A JSON text is a tree whose numbers are their literals and
  whose strings are the bytes between the quotes, escapes included, so that printing a tree gives
  back the text and \<open>UnmarshalJSON\<close> methods see the bytes that \<open>encoding/json\<close> hands to them.
\<close>

section \<open>Dynamic values\<close>

datatype gval =
    GNil
  | GBool bool
  | GNum float64
  | GInt int
  | GInt64 int
  | GStr string
  | GSlice "gval list"
  | GMap "(string \<times> gval) list"

text \<open>Entries sorted by key, as \<open>fmt\<close> and \<open>encoding/json\<close> print a map.\<close>

definition by_key :: "(string \<times> 'v) list \<Rightarrow> (string \<times> 'v) list" where
  "by_key m = sort_key fst m"

text \<open>\<open>fmt.Sprintf("%v", x)\<close>.\<close>

fun sprint_v :: "gval \<Rightarrow> string" where
  "sprint_v GNil = ''<nil>''"
| "sprint_v (GBool b) = (if b then ''true'' else ''false'')"
| "sprint_v (GNum x) = format_v x"
| "sprint_v (GInt n) = show_int n"
| "sprint_v (GInt64 n) = show_int n"
| "sprint_v (GStr s) = s"
| "sprint_v (GSlice xs) = ''['' @ join '' '' (map sprint_v xs) @ '']''"
| "sprint_v (GMap m) =
     ''map['' @ join '' '' (map (\<lambda>(k, t). k @ '':'' @ t) (by_key (map (\<lambda>(k, x). (k, sprint_v x)) m))) @ '']''"

section \<open>Texts\<close>

datatype json =
    JNull
  | JBool bool
  | JNum string
  | JStr string
  | JArr "json list"
  | JObj "(string \<times> json) list"

definition dquote :: char where
  "dquote = CHR 0x22"

definition backslash :: char where
  "backslash = CHR 0x5C"

definition in_quotes :: "string \<Rightarrow> string" where
  "in_quotes s = dquote # s @ [dquote]"

fun render :: "json \<Rightarrow> string" where
  "render JNull = ''null''"
| "render (JBool b) = (if b then ''true'' else ''false'')"
| "render (JNum s) = s"
| "render (JStr s) = in_quotes s"
| "render (JArr js) = ''['' @ join '','' (map render js) @ '']''"
| "render (JObj kvs) = ''{'' @ join '','' (map (\<lambda>(k, j). in_quotes k @ '':'' @ render j) kvs) @ ''}''"

section \<open>Scanning\<close>

definition byte :: "char \<Rightarrow> nat" where
  "byte c = of_char c"

definition is_space :: "char \<Rightarrow> bool" where
  "is_space c \<longleftrightarrow> byte c = 32 \<or> byte c = 9 \<or> byte c = 10 \<or> byte c = 13"

definition skip_space :: "string \<Rightarrow> string" where
  "skip_space s = dropWhile is_space s"

text \<open>The bytes up to the closing quote; \<open>None\<close> for a bad escape or a control character.\<close>

fun scan_string :: "string \<Rightarrow> (string \<times> string) option" where
  "scan_string [] = None"
| "scan_string (c # cs) =
     (if c = dquote then Some ([], cs)
      else if c = backslash then
        (case cs of
           [] \<Rightarrow> None
         | e # es \<Rightarrow>
             (if e = dquote \<or> e = backslash \<or> e \<in> set ''/bfnrt'' then
                (case scan_string es of None \<Rightarrow> None | Some (raw, rest) \<Rightarrow> Some (c # e # raw, rest))
              else if e = CHR ''u'' then
                (case es of
                   a # b # d # f # gs \<Rightarrow>
                     (if hex_value a \<noteq> None \<and> hex_value b \<noteq> None \<and> hex_value d \<noteq> None \<and> hex_value f \<noteq> None
                      then (case scan_string gs of None \<Rightarrow> None
                            | Some (raw, rest) \<Rightarrow> Some (c # e # a # b # d # f # raw, rest))
                      else None)
                 | _ \<Rightarrow> None)
              else None))
      else if byte c < 32 then None
      else (case scan_string cs of None \<Rightarrow> None | Some (raw, rest) \<Rightarrow> Some (c # raw, rest)))"

definition scan_digits :: "string \<Rightarrow> string \<times> string" where
  "scan_digits s = (takeWhile is_digit s, dropWhile is_digit s)"

definition scan_frac :: "string \<Rightarrow> (string \<times> string) option" where
  "scan_frac s =
     (case s of [] \<Rightarrow> Some ([], [])
      | c # cs \<Rightarrow>
          (if c \<noteq> CHR ''.'' then Some ([], s)
           else (let (ds, rest) = scan_digits cs in if ds = [] then None else Some (c # ds, rest))))"

definition scan_exp :: "string \<Rightarrow> (string \<times> string) option" where
  "scan_exp s =
     (case s of [] \<Rightarrow> Some ([], [])
      | c # cs \<Rightarrow>
          (if lower c \<noteq> CHR ''e'' then Some ([], s)
           else
             (let sgn = takeWhile (\<lambda>x. x = CHR ''+'' \<or> x = CHR ''-'') (take 1 cs);
                  (ds, rest) = scan_digits (drop (length sgn) cs)
              in if ds = [] then None else Some (c # sgn @ ds, rest))))"

definition scan_number :: "string \<Rightarrow> (string \<times> string) option" where
  "scan_number s =
     (let neg = takeWhile (\<lambda>x. x = CHR ''-'') (take 1 s);
          (ds, s1) = scan_digits (drop (length neg) s);
          (ip, s2) = (if take 1 ds = ''0'' then (''0'', drop 1 ds @ s1) else (ds, s1))
      in if ip = [] then None
         else
           (case scan_frac s2 of None \<Rightarrow> None
            | Some (fp, s3) \<Rightarrow>
                (case scan_exp s3 of None \<Rightarrow> None
                 | Some (ep, rest) \<Rightarrow> Some (neg @ ip @ fp @ ep, rest))))"

definition strip_prefix :: "string \<Rightarrow> string \<Rightarrow> string option" where
  "strip_prefix p s = (if take (length p) s = p then Some (drop (length p) s) else None)"

text \<open>
  The recursive descent. At most two calls are made between two bytes that are consumed, so a fuel
  of twice the length of the text (and two) is never used up; \<open>depth\<close> counts the open brackets,
  of which the package allows 10000.
\<close>

fun parse_value :: "nat \<Rightarrow> nat \<Rightarrow> string \<Rightarrow> (json \<times> string) option"
  and parse_elems :: "nat \<Rightarrow> nat \<Rightarrow> string \<Rightarrow> (json list \<times> string) option"
  and parse_members :: "nat \<Rightarrow> nat \<Rightarrow> string \<Rightarrow> ((string \<times> json) list \<times> string) option"
where
  "parse_value 0 depth s = None"
| "parse_value (Suc fuel) depth s =
     (case skip_space s of
        [] \<Rightarrow> None
      | c # cs \<Rightarrow>
          (if c = dquote then
             (case scan_string cs of None \<Rightarrow> None | Some (raw, rest) \<Rightarrow> Some (JStr raw, rest))
           else if c = CHR ''['' then
             (if 10000 \<le> depth then None
              else (case skip_space cs of
                 [] \<Rightarrow> None
               | d # ds \<Rightarrow>
                   (if d = CHR '']'' then Some (JArr [], ds)
                    else (case parse_elems fuel (Suc depth) (d # ds) of
                            None \<Rightarrow> None | Some (js, rest) \<Rightarrow> Some (JArr js, rest)))))
           else if c = CHR ''{'' then
             (if 10000 \<le> depth then None
              else (case skip_space cs of
                 [] \<Rightarrow> None
               | d # ds \<Rightarrow>
                   (if d = CHR ''}'' then Some (JObj [], ds)
                    else (case parse_members fuel (Suc depth) (d # ds) of
                            None \<Rightarrow> None | Some (kvs, rest) \<Rightarrow> Some (JObj kvs, rest)))))
           else
             (case strip_prefix ''null'' (c # cs) of Some rest \<Rightarrow> Some (JNull, rest)
              | None \<Rightarrow>
             (case strip_prefix ''true'' (c # cs) of Some rest \<Rightarrow> Some (JBool True, rest)
              | None \<Rightarrow>
             (case strip_prefix ''false'' (c # cs) of Some rest \<Rightarrow> Some (JBool False, rest)
              | None \<Rightarrow>
             (case scan_number (c # cs) of Some (n, rest) \<Rightarrow> Some (JNum n, rest) | None \<Rightarrow> None))))))"
| "parse_elems 0 depth s = None"
| "parse_elems (Suc fuel) depth s =
     (case parse_value fuel depth s of None \<Rightarrow> None
      | Some (j, s1) \<Rightarrow>
          (case skip_space s1 of
             [] \<Rightarrow> None
           | c # cs \<Rightarrow>
               (if c = CHR '']'' then Some ([j], cs)
                else if c = CHR '','' then
                  (case parse_elems fuel depth cs of None \<Rightarrow> None | Some (js, rest) \<Rightarrow> Some (j # js, rest))
                else None)))"
| "parse_members 0 depth s = None"
| "parse_members (Suc fuel) depth s =
     (case skip_space s of
        [] \<Rightarrow> None
      | q # qs \<Rightarrow>
          (if q \<noteq> dquote then None
           else (case scan_string qs of None \<Rightarrow> None
            | Some (k, s1) \<Rightarrow>
               (case skip_space s1 of
                  [] \<Rightarrow> None
                | x # xs \<Rightarrow>
                    (if x \<noteq> CHR '':'' then None
                     else (case parse_value fuel depth xs of None \<Rightarrow> None
                      | Some (j, s2) \<Rightarrow>
                         (case skip_space s2 of
                            [] \<Rightarrow> None
                          | c # cs \<Rightarrow>
                              (if c = CHR ''}'' then Some ([(k, j)], cs)
                               else if c = CHR '','' then
                                 (case parse_members fuel depth cs of
                                    None \<Rightarrow> None | Some (kvs, rest) \<Rightarrow> Some ((k, j) # kvs, rest))
                               else None)))))))) "

text \<open>A whole text: one value and nothing but white space after it.\<close>

definition parse_json :: "string \<Rightarrow> json option" where
  "parse_json s =
     (case parse_value (2 * length s + 2) 0 s of None \<Rightarrow> None
      | Some (j, rest) \<Rightarrow> if skip_space rest = [] then Some j else None)"

section \<open>String contents\<close>

text \<open>The length of the well-formed UTF-8 sequence at the front, 0 when there is none.\<close>

definition utf8_len :: "string \<Rightarrow> nat" where
  "utf8_len s =
     (let b = map byte (take 4 s);
          cont = (\<lambda>i. i < length b \<and> 128 \<le> b ! i \<and> b ! i < 192);
          within = (\<lambda>lo hi. 1 < length b \<and> lo \<le> b ! 1 \<and> b ! 1 \<le> hi)
      in if b = [] then 0
         else let a = hd b in
           if a < 128 then 1
           else if 194 \<le> a \<and> a \<le> 223 \<and> cont 1 then 2
           else if a = 224 \<and> within 160 191 \<and> cont 2 then 3
           else if 225 \<le> a \<and> a \<le> 236 \<and> cont 1 \<and> cont 2 then 3
           else if a = 237 \<and> within 128 159 \<and> cont 2 then 3
           else if 238 \<le> a \<and> a \<le> 239 \<and> cont 1 \<and> cont 2 then 3
           else if a = 240 \<and> within 144 191 \<and> cont 2 \<and> cont 3 then 4
           else if 241 \<le> a \<and> a \<le> 243 \<and> cont 1 \<and> cont 2 \<and> cont 3 then 4
           else if a = 244 \<and> within 128 143 \<and> cont 2 \<and> cont 3 then 4
           else 0)"

definition utf8_encode :: "nat \<Rightarrow> string" where
  "utf8_encode n =
     map char_of
       (if n < 128 then [n]
        else if n < 2048 then [192 + n div 64, 128 + n mod 64]
        else if n < 65536 then [224 + n div 4096, 128 + n div 64 mod 64, 128 + n mod 64]
        else [240 + n div 262144, 128 + n div 4096 mod 64, 128 + n div 64 mod 64, 128 + n mod 64])"

definition replacement :: string where
  "replacement = utf8_encode 65533"

definition hex4 :: "string \<Rightarrow> nat option" where
  "hex4 s =
     (case s of
        a # b # c # d # _ \<Rightarrow>
          (case (hex_value a, hex_value b, hex_value c, hex_value d) of
             (Some w, Some x, Some y, Some z) \<Rightarrow> Some (nat (4096 * w + 256 * x + 16 * y + z))
           | _ \<Rightarrow> None)
      | _ \<Rightarrow> None)"

text \<open>A second half of a surrogate pair, written as an escape.\<close>

definition low_surrogate :: "string \<Rightarrow> nat option" where
  "low_surrogate s =
     (if take 2 s = [backslash, CHR ''u''] then
        (case hex4 (drop 2 s) of
           Some n \<Rightarrow> (if 56320 \<le> n \<and> n < 57344 then Some n else None)
         | None \<Rightarrow> None)
      else None)"

definition unescape_char :: "char \<Rightarrow> char" where
  "unescape_char e =
     (if e = CHR ''b'' then CHR 0x08 else if e = CHR ''f'' then CHR 0x0C
      else if e = CHR ''n'' then CHR 0x0A else if e = CHR ''r'' then CHR 0x0D
      else if e = CHR ''t'' then CHR 0x09 else e)"

text \<open>
  The contents of a scanned string: escapes replaced, lone surrogates and bytes that are not UTF-8
  replaced by the replacement character. The fuel is the length of the text.
\<close>

fun unquote_fuel :: "nat \<Rightarrow> string \<Rightarrow> string" where
  "unquote_fuel 0 s = []"
| "unquote_fuel (Suc f) s =
     (case s of
        [] \<Rightarrow> []
      | c # cs \<Rightarrow>
          (if c = backslash then
             (case cs of
                [] \<Rightarrow> []
              | e # es \<Rightarrow>
                  (if e = CHR ''u'' then
                     (case hex4 es of
                        None \<Rightarrow> []
                      | Some n \<Rightarrow>
                          (if 55296 \<le> n \<and> n < 56320 then
                             (case low_surrogate (drop 4 es) of
                                Some l \<Rightarrow>
                                  utf8_encode (65536 + (n - 55296) * 1024 + (l - 56320)) @
                                  unquote_fuel f (drop 10 es)
                              | None \<Rightarrow> replacement @ unquote_fuel f (drop 4 es))
                           else if 56320 \<le> n \<and> n < 57344 then replacement @ unquote_fuel f (drop 4 es)
                           else utf8_encode n @ unquote_fuel f (drop 4 es)))
                   else unescape_char e # unquote_fuel f es))
           else if byte c < 128 then c # unquote_fuel f cs
           else
             (let k = utf8_len s
              in if k = 0 then replacement @ unquote_fuel f cs
                 else take k s @ unquote_fuel f (drop k s))))"

definition unquote :: "string \<Rightarrow> string" where
  "unquote s = unquote_fuel (length s) s"

definition hex_digit :: "nat \<Rightarrow> char" where
  "hex_digit n = (if n < 10 then char_of (48 + n) else char_of (87 + n))"

definition escape_u :: "nat \<Rightarrow> string" where
  "escape_u n =
     [backslash, CHR ''u'', hex_digit (n div 4096 mod 16), hex_digit (n div 256 mod 16),
      hex_digit (n div 16 mod 16), hex_digit (n mod 16)]"

definition quote_char :: "char \<Rightarrow> string" where
  "quote_char c =
     (if c = dquote \<or> c = backslash then [backslash, c]
      else if byte c = 8 then [backslash, CHR ''b'']
      else if byte c = 12 then [backslash, CHR ''f'']
      else if byte c = 10 then [backslash, CHR ''n'']
      else if byte c = 13 then [backslash, CHR ''r'']
      else if byte c = 9 then [backslash, CHR ''t'']
      else if byte c < 32 \<or> c = CHR ''<'' \<or> c = CHR ''>'' \<or> c = CHR 0x26 then escape_u (byte c)
      else [c])"

text \<open>How \<open>json.Marshal\<close> writes a string (with the escapes for HTML), without the quotes.\<close>

fun quote_fuel :: "nat \<Rightarrow> string \<Rightarrow> string" where
  "quote_fuel 0 s = []"
| "quote_fuel (Suc f) s =
     (case s of
        [] \<Rightarrow> []
      | c # cs \<Rightarrow>
          (if byte c < 128 then quote_char c @ quote_fuel f cs
           else
             (let k = utf8_len s; bs = map byte (take 3 s)
              in if k = 0 then escape_u 65533 @ quote_fuel f cs
                 else if bs = [226, 128, 168] then escape_u 8232 @ quote_fuel f (drop 3 s)
                 else if bs = [226, 128, 169] then escape_u 8233 @ quote_fuel f (drop 3 s)
                 else take k s @ quote_fuel f (drop k s))))"

definition quote :: "string \<Rightarrow> string" where
  "quote s = quote_fuel (length s) s"

section \<open>Values from texts and back\<close>

text \<open>Decoding into \<open>any\<close>; \<open>None\<close> when a number does not fit a \<open>float64\<close>.\<close>

fun decode_any :: "json \<Rightarrow> gval option"
  and decode_list :: "json list \<Rightarrow> gval list option"
  and decode_entries :: "(string \<times> json) list \<Rightarrow> (string \<times> gval) list \<Rightarrow> (string \<times> gval) list option"
where
  "decode_any JNull = Some GNil"
| "decode_any (JBool b) = Some (GBool b)"
| "decode_any (JNum s) = (case parse_float s of Inr x \<Rightarrow> Some (GNum x) | Inl _ \<Rightarrow> None)"
| "decode_any (JStr s) = Some (GStr (unquote s))"
| "decode_any (JArr js) = map_option GSlice (decode_list js)"
| "decode_any (JObj kvs) = map_option GMap (decode_entries kvs [])"
| "decode_list [] = Some []"
| "decode_list (j # js) =
     (case (decode_any j, decode_list js) of (Some x, Some xs) \<Rightarrow> Some (x # xs) | _ \<Rightarrow> None)"
| "decode_entries [] m = Some m"
| "decode_entries ((k, j) # kvs) m =
     (case decode_any j of None \<Rightarrow> None | Some x \<Rightarrow> decode_entries kvs (upsert (unquote k) x m))"

definition json_string :: "string \<Rightarrow> json" where
  "json_string s = JStr (quote s)"

text \<open>
  \<open>json.Marshal\<close> of a dynamic value: the tree, or the text of the error for a NaN or an infinity
  inside it.
\<close>

definition marshal_float :: "float64 \<Rightarrow> string + json" where
  "marshal_float x =
     (case format_json x of Some s \<Rightarrow> Inr (JNum s)
      | None \<Rightarrow> Inl (''json: unsupported value: '' @ format_v x))"

definition object_of :: "(string \<times> (string + json)) list \<Rightarrow> string + json" where
  "object_of m =
     (case sequence_sum (map (\<lambda>(k, r). map_sum id (\<lambda>j. (quote k, j)) r) m) of
        Inl e \<Rightarrow> Inl e | Inr kvs \<Rightarrow> Inr (JObj kvs))"

fun marshal_any :: "gval \<Rightarrow> string + json" where
  "marshal_any GNil = Inr JNull"
| "marshal_any (GBool b) = Inr (JBool b)"
| "marshal_any (GNum x) = marshal_float x"
| "marshal_any (GInt n) = Inr (JNum (show_int n))"
| "marshal_any (GInt64 n) = Inr (JNum (show_int n))"
| "marshal_any (GStr s) = Inr (json_string s)"
| "marshal_any (GSlice xs) =
     (case sequence_sum (map marshal_any xs) of Inl e \<Rightarrow> Inl e | Inr js \<Rightarrow> Inr (JArr js))"
| "marshal_any (GMap m) = object_of (by_key (map (\<lambda>(k, x). (k, marshal_any x)) m))"

lemma object_of_Inl:
  assumes "(k, Inl e) \<in> set m"
  shows "\<exists>e'. object_of m = Inl e'"
proof -
  have "Inl e \<in> set (map (\<lambda>(k, r). map_sum id (\<lambda>j. (quote k, j)) r) m)"
    using assms by (auto intro!: image_eqI [of _ _ "(k, Inl e)"])
  from sequence_sum_Inl [OF this] show ?thesis by (auto simp: object_of_def)
qed

end
