(* ===== verification/Time_Utils.thy ===== *)
theory Time_Utils
  imports Results Go_Time Go_Json
begin

text \<open>
  \<open>utils/time.go\<close>: the two conversions of an event's timestamp and the JSON form of \<open>CustomTime\<close>.
\<close>

section \<open>Error texts\<close>

text \<open>\<open>strconv.Quote\<close> (a byte from 128 on is taken as part of a printable character).\<close>

definition quote_go_char :: "char \<Rightarrow> string" where
  "quote_go_char c =
     (if c = dquote \<or> c = backslash then [backslash, c]
      else if byte c = 7 then [backslash, CHR ''a''] else if byte c = 8 then [backslash, CHR ''b'']
      else if byte c = 12 then [backslash, CHR ''f''] else if byte c = 10 then [backslash, CHR ''n'']
      else if byte c = 13 then [backslash, CHR ''r''] else if byte c = 9 then [backslash, CHR ''t'']
      else if byte c = 11 then [backslash, CHR ''v'']
      else if byte c < 32 \<or> byte c = 127 then
        [backslash, CHR ''x'', hex_digit (byte c div 16), hex_digit (byte c mod 16)]
      else [c])"

definition quote_go :: "string \<Rightarrow> string" where
  "quote_go s = in_quotes (concat (map quote_go_char s))"

definition num_error_text :: "string \<Rightarrow> string \<Rightarrow> num_error \<Rightarrow> goerror" where
  "num_error_text fn s e =
     ''strconv.'' @ fn @ '': parsing '' @ quote_go s @ '': '' @
     (case e of ErrSyntax \<Rightarrow> ''invalid syntax'' | ErrRange \<Rightarrow> ''value out of range'')"

text \<open>\<open>%T\<close> of the values that \<open>encoding/json\<close> makes.\<close>

fun type_name :: "gval \<Rightarrow> string" where
  "type_name GNil = ''<nil>''"
| "type_name (GBool b) = ''bool''"
| "type_name (GNum x) = ''float64''"
| "type_name (GInt n) = ''int''"
| "type_name (GInt64 n) = ''int64''"
| "type_name (GStr s) = ''string''"
| "type_name (GSlice xs) = ''[]interface {}''"
| "type_name (GMap m) = ''map[string]interface {}''"

section \<open>Timestamps\<close>

definition float_1e9 :: float64 where
  "float_1e9 = float_of_int 1000000000"

definition float_1000 :: float64 where
  "float_1000 = float_of_int 1000"

text \<open>Seconds and nanoseconds of a float timestamp, as both float cases of \<open>ToTime\<close> compute them.\<close>

definition split_seconds :: "(float64 \<Rightarrow> int) \<Rightarrow> float64 \<Rightarrow> int \<times> int" where
  "split_seconds cvt x =
     (let seconds = int64_of_float cvt x
      in (seconds, int64_of_float cvt (float_mul (float_sub x (float_of_int seconds)) float_1e9)))"

definition time_of_parts :: "int \<times> int \<Rightarrow> gotime result" where
  "time_of_parts p = SuccessResult (truncate_ms (time_unix (fst p) (snd p)))"

fun ToTime :: "(float64 \<Rightarrow> int) \<Rightarrow> gval \<Rightarrow> gotime result" where
  "ToTime cvt (GStr s) =
     (case parse_float s of
        Inl e \<Rightarrow> FailedResult zero_time (num_error_text ''ParseFloat'' s e)
      | Inr x \<Rightarrow> time_of_parts (split_seconds cvt x))"
| "ToTime cvt (GInt n) = time_of_parts (n, 0)"
| "ToTime cvt (GInt64 n) = time_of_parts (n, 0)"
| "ToTime cvt (GNum x) = time_of_parts (split_seconds cvt x)"
| "ToTime cvt v = FailedResult zero_time (''Unsupported timestamp type: '' @ type_name v)"

fun ToFloat64Timestamp :: "gval \<Rightarrow> float64 result" where
  "ToFloat64Timestamp (GStr s) =
     (case parse_float s of
        Inl e \<Rightarrow> FailedResult (float_of_int 0) (num_error_text ''ParseFloat'' s e)
      | Inr x \<Rightarrow> SuccessResult (float_div (float_trunc (float_mul x float_1000)) float_1000))"
| "ToFloat64Timestamp (GInt n) = SuccessResult (float_of_int n)"
| "ToFloat64Timestamp (GInt64 n) = SuccessResult (float_of_int n)"
| "ToFloat64Timestamp (GNum x) = SuccessResult x"
| "ToFloat64Timestamp v = FailedResult (float_of_int 0) (''Unsupported timestamp type: '' @ type_name v)"

section \<open>CustomTime\<close>

type_synonym CustomTime = gotime

text \<open>
  \<open>UnmarshalJSON\<close> on the bytes of the value, quotes included: the new time, or \<open>None\<close> for an error.
  A \<open>null\<close> or an empty string leaves the old time.
\<close>

definition CustomTime_UnmarshalJSON :: "(float64 \<Rightarrow> int) \<Rightarrow> string \<Rightarrow> CustomTime \<Rightarrow> CustomTime option" where
  "CustomTime_UnmarshalJSON cvt b old =
     (let s = trim (\<lambda>c. c = dquote) b
      in if s = ''null'' \<or> s = [] then Some old
         else
           (case parse_time s of
              Some t \<Rightarrow> Some t
            | None \<Rightarrow>
                (let r = ToTime cvt (GStr s) in if Failure r then None else Some (rvalue r))))"

definition CustomTime_String :: "CustomTime \<Rightarrow> string" where
  "CustomTime_String ct = format_time ct"

definition CustomTime_MarshalJSON :: "CustomTime \<Rightarrow> string" where
  "CustomTime_MarshalJSON ct = (if ct = zero_time then ''null'' else in_quotes (format_time ct))"

section \<open>Lemmas\<close>

lemma trim_quotes:
  assumes "c \<notin> set s"
  shows "trim (\<lambda>x. x = c) (c # s @ [c]) = s"
proof -
  have "dropWhile (\<lambda>x. x = c) xs = xs" if "c \<notin> set xs" for xs
    using that by (cases xs) auto
  then have "dropWhile (\<lambda>x. x = c) (rev s) = rev s" using assms by simp
  moreover have "dropWhile (\<lambda>x. x = c) (c # s @ [c]) = (if s = [] then [] else s @ [c])"
    using assms by (cases s) auto
  ultimately show ?thesis by (simp add: trim_def)
qed

lemma dquote_not_in_format: "dquote \<notin> set (format_time t)"
  by (rule not_in_format) (simp_all add: dquote_def digit_value_def)

section \<open>Properties\<close>

text \<open>
  The JSON form of an ingestion time is read back as the same time to the second, for the years
  of four digits; the zero time is written as null, which leaves the time that is read into.
\<close>

theorem custom_time_roundtrip:
  assumes "four_digit_year t"
  shows "CustomTime_UnmarshalJSON cvt (CustomTime_MarshalJSON t) old =
    Some (if t = zero_time then old else t - t mod second)"
proof (cases "t = zero_time")
  case True
  moreover have "trim (\<lambda>c. c = dquote) ''null'' = ''null''" by (simp add: trim_def dquote_def)
  ultimately show ?thesis by (simp add: CustomTime_UnmarshalJSON_def CustomTime_MarshalJSON_def)
next
  case False
  have t: "trim (\<lambda>c. c = dquote) (in_quotes (format_time t)) = format_time t"
    unfolding in_quotes_def by (rule trim_quotes) (rule dquote_not_in_format)
  moreover have "CHR ''n'' \<notin> set (format_time t)" by (rule not_in_format) (simp_all add: digit_value_def)
  then have "format_time t \<noteq> ''null''" by auto
  ultimately show ?thesis
    using False parse_format_year [OF assms] format_time_ne
    by (simp add: CustomTime_UnmarshalJSON_def CustomTime_MarshalJSON_def Let_def)
qed

theorem custom_time_roundtrip_witness:
  "CustomTime_UnmarshalJSON (\<lambda>x. 0) (CustomTime_MarshalJSON 1741007009343000000) 0 = Some 1741007009000000000"
proof -
  have "four_digit_year 1741007009343000000" by code_simp
  from custom_time_roundtrip [OF this, of "\<lambda>x. 0" 0] show ?thesis
    by (simp add: zero_time_def unix_to_internal_def second_def)
qed

text \<open>
  The two readings of a timestamp, as a time and as a float, accept the same values and refuse
  the same, so that a conversion to an enriched event never fails at the second of them; a time
  that is read is a whole number of milliseconds.
\<close>

theorem timestamp_readings_agree:
  "Failure (ToTime cvt v) = Failure (ToFloat64Timestamp v) \<and>
   (\<not> Failure (ToTime cvt v) \<longrightarrow> millisecond dvd Value (ToTime cvt v))"
  by (cases v) (auto simp: time_of_parts_def truncate_ms_dvd split: sum.split)

theorem timestamp_readings_agree_witness:
  "millisecond dvd Value (ToTime (\<lambda>x. 0) (GInt 5)) \<and> \<not> Failure (ToFloat64Timestamp (GInt 5))"
proof -
  have "\<not> Failure (ToTime (\<lambda>x. 0) (GInt 5))" by (simp add: time_of_parts_def)
  then show ?thesis using timestamp_readings_agree [of "\<lambda>x. 0" "GInt 5"] by simp
qed

text \<open>
  A timestamp that is an integer is exactly that second, as long as it stays within the range of
  Go's time.
\<close>

theorem integer_timestamp:
  assumes "- (2 ^ 63) \<le> n + unix_to_internal" and "n + unix_to_internal < 2 ^ 63"
  shows "ToTime cvt (GInt n) = SuccessResult (n * second) \<and> ToTime cvt (GInt64 n) = SuccessResult (n * second)"
proof -
  have "time_unix n 0 = n * second" using time_unix_id [OF assms, of 0] by (simp add: second_def)
  moreover have "millisecond dvd n * second"
    by (rule dvdI [of _ _ "n * 1000"]) (simp add: millisecond_def second_def)
  ultimately show ?thesis by (simp add: time_of_parts_def truncate_ms_idem)
qed

theorem integer_timestamp_witness: "ToTime (\<lambda>x. 0) (GInt 1741007009) = SuccessResult (1741007009 * second)"
  using integer_timestamp [of 1741007009 "\<lambda>x. 0"] by (simp add: unix_to_internal_def)

end
