(* ===== verification/Models.thy ===== *)
theory Models
  imports Time_Utils
begin

text \<open>
  The structs of the package \<open>models\<close>, the JSON forms of an event, of an enriched event and of a
  failed event, and the conversions of \<open>models/event.go\<close> and \<open>models/billable_metrics.go\<close>.
  A pointer or a map that may be \<open>nil\<close> is an option; fields keep their Go names behind a prefix of
  their struct.
\<close>

section \<open>Structs\<close>

type_synonym properties = "(string \<times> gval) list option"

text \<open>\<open>AggregationType\<close> is an \<open>int\<close>; the constants skip 4.\<close>

type_synonym AggregationType = int

definition AggregationTypeCount :: AggregationType where
  "AggregationTypeCount = 0"

definition AggregationTypeSum :: AggregationType where
  "AggregationTypeSum = 1"

definition AggregationTypeMax :: AggregationType where
  "AggregationTypeMax = 2"

definition AggregationTypeUniqueCount :: AggregationType where
  "AggregationTypeUniqueCount = 3"

definition AggregationTypeWeightedSum :: AggregationType where
  "AggregationTypeWeightedSum = 5"

definition AggregationTypeLatest :: AggregationType where
  "AggregationTypeLatest = 6"

definition AggregationTypeCustom :: AggregationType where
  "AggregationTypeCustom = 7"

lemmas aggregation_defs = AggregationTypeCount_def AggregationTypeSum_def AggregationTypeMax_def
  AggregationTypeUniqueCount_def AggregationTypeWeightedSum_def AggregationTypeLatest_def
  AggregationTypeCustom_def

definition AggregationType_String :: "AggregationType \<Rightarrow> string" where
  "AggregationType_String t =
     (if t = AggregationTypeCount then ''count''
      else if t = AggregationTypeSum then ''sum''
      else if t = AggregationTypeMax then ''max''
      else if t = AggregationTypeUniqueCount then ''unique_count''
      else if t = AggregationTypeWeightedSum then ''weighted_sum''
      else if t = AggregationTypeLatest then ''latest''
      else if t = AggregationTypeCustom then ''custom''
      else [])"

record BillableMetric =
  bm_ID :: string
  bm_OrganizationID :: string
  bm_Code :: string
  bm_AggregationType :: AggregationType
  bm_FieldName :: string
  bm_Expression :: string
  bm_CreatedAt :: gotime
  bm_UpdatedAt :: gotime
  bm_DeletedAt :: "gotime option"

record Subscription =
  sub_ID :: string
  sub_ExternalID :: string
  sub_PlanID :: string
  sub_CreatedAt :: gotime
  sub_UpdatedAt :: gotime
  sub_StartedAt :: "gotime option"
  sub_TerminatedAt :: "gotime option"

type_synonym FlatFilterValues = "(string \<times> string list) list option"

type_synonym PricingGroupKeys = "string list option"

record FlatFilter =
  ff_OrganizationID :: string
  ff_BillableMetricCode :: string
  ff_PlanID :: string
  ff_ChargeID :: string
  ff_ChargeUpdatedAt :: gotime
  ff_ChargeFilterID :: "string option"
  ff_ChargeFilterUpdatedAt :: "gotime option"
  ff_Filters :: "FlatFilterValues option"
  ff_PricingGroupKeys :: PricingGroupKeys
  ff_PayInAdvance :: bool

text \<open>\<open>SourceMetadata\<close> is its only field, \<open>ApiPostProcess\<close>.\<close>

record SourceMetadata =
  sm_ApiPostProcess :: bool

record Event =
  ev_OrganizationID :: string
  ev_ExternalSubscriptionID :: string
  ev_TransactionID :: string
  ev_Code :: string
  ev_Properties :: properties
  ev_PreciseTotalAmountCents :: string
  ev_Source :: string
  ev_Timestamp :: gval
  ev_SourceMetadata :: "SourceMetadata option"
  ev_IngestedAt :: CustomTime

record EnrichedEvent =
  ee_InitialEvent :: Event
  ee_BillableMetric :: "BillableMetric option"
  ee_Subscription :: "Subscription option"
  ee_FlatFilter :: "FlatFilter option"
  ee_OrganizationID :: string
  ee_ExternalSubscriptionID :: string
  ee_SubscriptionID :: string
  ee_PlanID :: string
  ee_TransactionID :: string
  ee_Code :: string
  ee_AggregationType :: string
  ee_Properties :: properties
  ee_PreciseTotalAmountCents :: string
  ee_Source :: string
  ee_Value :: "string option"
  ee_Timestamp :: float64
  ee_TimestampStr :: string
  ee_Time :: gotime
  ee_ChargeID :: "string option"
  ee_ChargeUpdatedAt :: "gotime option"
  ee_ChargeFilterID :: "string option"
  ee_ChargeFilterUpdatedAt :: "gotime option"
  ee_GroupedBy :: "(string \<times> string) list"

record FailedEvent =
  fe_Event :: Event
  fe_InitialErrorMessage :: string
  fe_ErrorMessage :: string
  fe_ErrorCode :: string
  fe_FailedAt :: gotime

definition HTTP_RUBY :: string where
  "HTTP_RUBY = ''http_ruby''"

text \<open>Reading a map of \<open>any\<close>: \<open>nil\<close> for an absent key, also in a \<open>nil\<close> map.\<close>

definition property :: "properties \<Rightarrow> string \<Rightarrow> gval" where
  "property ps k =
     (case ps of None \<Rightarrow> GNil | Some m \<Rightarrow> (case map_of m k of None \<Rightarrow> GNil | Some x \<Rightarrow> x))"

section \<open>From a raw event to an enriched one\<close>

text \<open>The struct literal of \<open>ToEnrichedEvent\<close>; the other fields have their zero values.\<close>

definition initial_enriched :: "Event \<Rightarrow> EnrichedEvent" where
  "initial_enriched ev =
     \<lparr>ee_InitialEvent = ev, ee_BillableMetric = None, ee_Subscription = None, ee_FlatFilter = None,
      ee_OrganizationID = ev_OrganizationID ev,
      ee_ExternalSubscriptionID = ev_ExternalSubscriptionID ev,
      ee_SubscriptionID = [], ee_PlanID = [],
      ee_TransactionID = ev_TransactionID ev, ee_Code = ev_Code ev, ee_AggregationType = [],
      ee_Properties = ev_Properties ev,
      ee_PreciseTotalAmountCents = ev_PreciseTotalAmountCents ev, ee_Source = ev_Source ev,
      ee_Value = None, ee_Timestamp = float_of_int 0, ee_TimestampStr = [], ee_Time = zero_time,
      ee_ChargeID = None, ee_ChargeUpdatedAt = None, ee_ChargeFilterID = None,
      ee_ChargeFilterUpdatedAt = None, ee_GroupedBy = []\<rparr>"

text \<open>A pointer result; \<open>None\<close> is \<open>nil\<close>.\<close>

definition ToEnrichedEvent :: "(float64 \<Rightarrow> int) \<Rightarrow> Event \<Rightarrow> EnrichedEvent option result" where
  "ToEnrichedEvent cvt ev =
     (let er = initial_enriched ev; timestampResult = ToFloat64Timestamp (ev_Timestamp ev)
      in if Failure timestampResult
         then NonRetryable (FailedResult None (the (Error timestampResult)))
         else
           (let er1 = er\<lparr>ee_Timestamp := Value timestampResult,
                         ee_TimestampStr := format_f (Value timestampResult)\<rparr>;
                timeResult = ToTime cvt (ev_Timestamp ev)
            in if Failure timeResult
               then NonRetryable (FailedResult None (the (Error timeResult)))
               else SuccessResult (Some (er1\<lparr>ee_Time := Value timeResult\<rparr>))))"

definition NotAPIPostProcessed :: "Event \<Rightarrow> bool" where
  "NotAPIPostProcessed ev =
     (if ev_Source ev \<noteq> HTTP_RUBY then True
      else (case ev_SourceMetadata ev of None \<Rightarrow> True | Some sm \<Rightarrow> \<not> sm_ApiPostProcess sm))"

section \<open>JSON: reading an event\<close>

definition zero_event :: Event where
  "zero_event =
     \<lparr>ev_OrganizationID = [], ev_ExternalSubscriptionID = [], ev_TransactionID = [], ev_Code = [],
      ev_Properties = None, ev_PreciseTotalAmountCents = [], ev_Source = [], ev_Timestamp = GNil,
      ev_SourceMetadata = None, ev_IngestedAt = zero_time\<rparr>"

text \<open>
  Object keys match a field name up to case; the Kelvin sign and the long s, three and two bytes of
  UTF-8, fold to k and s.
\<close>

fun fold_fuel :: "nat \<Rightarrow> string \<Rightarrow> string" where
  "fold_fuel 0 s = []"
| "fold_fuel (Suc f) s =
     (case s of [] \<Rightarrow> []
      | c # cs \<Rightarrow>
          (if map byte (take 3 s) = [226, 132, 170] then CHR ''k'' # fold_fuel f (drop 3 s)
           else if map byte (take 2 s) = [197, 191] then CHR ''s'' # fold_fuel f (drop 2 s)
           else lower c # fold_fuel f cs))"

definition names :: "string \<Rightarrow> string \<Rightarrow> bool" where
  "names key field \<longleftrightarrow> key = field \<or> fold_fuel (length key) key = field"

definition decode_string :: "json \<Rightarrow> string \<Rightarrow> string option" where
  "decode_string j old = (case j of JStr s \<Rightarrow> Some (unquote s) | JNull \<Rightarrow> Some old | _ \<Rightarrow> None)"

definition decode_properties :: "json \<Rightarrow> properties \<Rightarrow> properties option" where
  "decode_properties j old =
     (case j of
        JNull \<Rightarrow> Some None
      | JObj kvs \<Rightarrow>
          map_option Some (decode_entries kvs (case old of None \<Rightarrow> [] | Some m \<Rightarrow> m))
      | _ \<Rightarrow> None)"

fun decode_metadata_fields :: "(string \<times> json) list \<Rightarrow> SourceMetadata \<Rightarrow> SourceMetadata option" where
  "decode_metadata_fields [] sm = Some sm"
| "decode_metadata_fields ((k, j) # kvs) sm =
     (if names (unquote k) ''api_post_processed'' then
        (case j of
           JBool b \<Rightarrow> decode_metadata_fields kvs (sm\<lparr>sm_ApiPostProcess := b\<rparr>)
         | JNull \<Rightarrow> decode_metadata_fields kvs sm
         | _ \<Rightarrow> None)
      else decode_metadata_fields kvs sm)"

definition decode_metadata :: "json \<Rightarrow> SourceMetadata option \<Rightarrow> SourceMetadata option option" where
  "decode_metadata j old =
     (case j of
        JNull \<Rightarrow> Some None
      | JObj kvs \<Rightarrow>
          map_option Some
            (decode_metadata_fields kvs (case old of None \<Rightarrow> \<lparr>sm_ApiPostProcess = False\<rparr> | Some sm \<Rightarrow> sm))
      | _ \<Rightarrow> None)"

definition decode_field :: "(float64 \<Rightarrow> int) \<Rightarrow> string \<Rightarrow> json \<Rightarrow> Event \<Rightarrow> Event option" where
  "decode_field cvt key j ev =
     (if names key ''organization_id'' then
        map_option (\<lambda>s. ev\<lparr>ev_OrganizationID := s\<rparr>) (decode_string j (ev_OrganizationID ev))
      else if names key ''external_subscription_id'' then
        map_option (\<lambda>s. ev\<lparr>ev_ExternalSubscriptionID := s\<rparr>) (decode_string j (ev_ExternalSubscriptionID ev))
      else if names key ''transaction_id'' then
        map_option (\<lambda>s. ev\<lparr>ev_TransactionID := s\<rparr>) (decode_string j (ev_TransactionID ev))
      else if names key ''code'' then
        map_option (\<lambda>s. ev\<lparr>ev_Code := s\<rparr>) (decode_string j (ev_Code ev))
      else if names key ''properties'' then
        map_option (\<lambda>m. ev\<lparr>ev_Properties := m\<rparr>) (decode_properties j (ev_Properties ev))
      else if names key ''precise_total_amount_cents'' then
        map_option (\<lambda>s. ev\<lparr>ev_PreciseTotalAmountCents := s\<rparr>) (decode_string j (ev_PreciseTotalAmountCents ev))
      else if names key ''source'' then
        map_option (\<lambda>s. ev\<lparr>ev_Source := s\<rparr>) (decode_string j (ev_Source ev))
      else if names key ''timestamp'' then
        map_option (\<lambda>x. ev\<lparr>ev_Timestamp := x\<rparr>) (decode_any j)
      else if names key ''source_metadata'' then
        map_option (\<lambda>m. ev\<lparr>ev_SourceMetadata := m\<rparr>) (decode_metadata j (ev_SourceMetadata ev))
      else if names key ''ingested_at'' then
        map_option (\<lambda>t. ev\<lparr>ev_IngestedAt := t\<rparr>)
          (CustomTime_UnmarshalJSON cvt (render j) (ev_IngestedAt ev))
      else Some ev)"

fun decode_fields :: "(float64 \<Rightarrow> int) \<Rightarrow> (string \<times> json) list \<Rightarrow> Event \<Rightarrow> Event option" where
  "decode_fields cvt [] ev = Some ev"
| "decode_fields cvt ((k, j) # kvs) ev =
     (case decode_field cvt (unquote k) j ev of None \<Rightarrow> None | Some ev' \<Rightarrow> decode_fields cvt kvs ev')"

text \<open>\<open>json.Unmarshal(b, &event)\<close> into a zero event; \<open>None\<close> for any error.\<close>

definition unmarshal_event :: "(float64 \<Rightarrow> int) \<Rightarrow> string \<Rightarrow> Event option" where
  "unmarshal_event cvt b =
     (case parse_json b of
        None \<Rightarrow> None
      | Some JNull \<Rightarrow> Some zero_event
      | Some (JObj kvs) \<Rightarrow> decode_fields cvt kvs zero_event
      | Some _ \<Rightarrow> None)"

section \<open>JSON: writing events\<close>

definition json_opt_string :: "string option \<Rightarrow> json" where
  "json_opt_string s = (case s of None \<Rightarrow> JNull | Some x \<Rightarrow> json_string x)"

definition json_opt_time :: "gotime option \<Rightarrow> string + json" where
  "json_opt_time t =
     (case t of None \<Rightarrow> Inr JNull
      | Some x \<Rightarrow>
          (case marshal_time x of Some s \<Rightarrow> Inr (JStr s)
           | None \<Rightarrow> Inl (''json: error calling MarshalJSON for type time.Time: '' @
                          ''Time.MarshalJSON: year outside of range [0,9999]'')))"

definition json_properties :: "properties \<Rightarrow> string + json" where
  "json_properties ps = (case ps of None \<Rightarrow> Inr JNull | Some m \<Rightarrow> marshal_any (GMap m))"

text \<open>An object from its fields in order; a field that is \<open>None\<close> is left out (\<open>omitempty\<close>).\<close>

definition struct_of :: "(string \<times> (string + json) option) list \<Rightarrow> string + json" where
  "struct_of fs = object_of (List.map_filter (\<lambda>(k, r). map_option (Pair k) r) fs)"

definition omit_empty :: "string \<Rightarrow> (string + json) option" where
  "omit_empty s = (if s = [] then None else Some (Inr (json_string s)))"

definition json_custom_time :: "CustomTime \<Rightarrow> json" where
  "json_custom_time ct = (if ct = zero_time then JNull else JStr (format_time ct))"

definition json_event :: "Event \<Rightarrow> string + json" where
  "json_event ev =
     struct_of
       [(''organization_id'', Some (Inr (json_string (ev_OrganizationID ev)))),
        (''external_subscription_id'', Some (Inr (json_string (ev_ExternalSubscriptionID ev)))),
        (''transaction_id'', Some (Inr (json_string (ev_TransactionID ev)))),
        (''code'', Some (Inr (json_string (ev_Code ev)))),
        (''properties'', Some (json_properties (ev_Properties ev))),
        (''precise_total_amount_cents'', Some (Inr (json_string (ev_PreciseTotalAmountCents ev)))),
        (''source'', omit_empty (ev_Source ev)),
        (''timestamp'', Some (marshal_any (ev_Timestamp ev))),
        (''source_metadata'',
          Some (Inr (case ev_SourceMetadata ev of None \<Rightarrow> JNull
                     | Some sm \<Rightarrow> JObj [(''api_post_processed'', JBool (sm_ApiPostProcess sm))]))),
        (''ingested_at'', Some (Inr (json_custom_time (ev_IngestedAt ev))))]"

definition json_enriched :: "EnrichedEvent \<Rightarrow> string + json" where
  "json_enriched er =
     struct_of
       [(''organization_id'', Some (Inr (json_string (ee_OrganizationID er)))),
        (''external_subscription_id'', Some (Inr (json_string (ee_ExternalSubscriptionID er)))),
        (''subscription_id'', Some (Inr (json_string (ee_SubscriptionID er)))),
        (''plan_id'', Some (Inr (json_string (ee_PlanID er)))),
        (''transaction_id'', Some (Inr (json_string (ee_TransactionID er)))),
        (''code'', Some (Inr (json_string (ee_Code er)))),
        (''aggregation_type'', Some (Inr (json_string (ee_AggregationType er)))),
        (''properties'', Some (json_properties (ee_Properties er))),
        (''precise_total_amount_cents'', Some (Inr (json_string (ee_PreciseTotalAmountCents er)))),
        (''source'', omit_empty (ee_Source er)),
        (''value'', Some (Inr (json_opt_string (ee_Value er)))),
        (''timestamp'', Some (marshal_float (ee_Timestamp er))),
        (''charge_id'', Some (Inr (json_opt_string (ee_ChargeID er)))),
        (''charge_updated_at'', Some (json_opt_time (ee_ChargeUpdatedAt er))),
        (''charge_filter_id'', Some (Inr (json_opt_string (ee_ChargeFilterID er)))),
        (''charge_filter_updated_at'', Some (json_opt_time (ee_ChargeFilterUpdatedAt er))),
        (''grouped_by'', Some (marshal_any (GMap (map (\<lambda>(k, v). (k, GStr v)) (ee_GroupedBy er)))))]"

definition json_failed :: "FailedEvent \<Rightarrow> string + json" where
  "json_failed fe =
     struct_of
       [(''event'', Some (json_event (fe_Event fe))),
        (''initial_error_message'', Some (Inr (json_string (fe_InitialErrorMessage fe)))),
        (''error_message'', Some (Inr (json_string (fe_ErrorMessage fe)))),
        (''error_code'', Some (Inr (json_string (fe_ErrorCode fe)))),
        (''failed_at'', Some (json_opt_time (Some (fe_FailedAt fe))))]"

text \<open>\<open>json.Marshal\<close> of the two structs that are sent to Kafka.\<close>

definition marshal_enriched :: "EnrichedEvent \<Rightarrow> goerror + string" where
  "marshal_enriched er = map_sum id render (json_enriched er)"

definition marshal_failed :: "FailedEvent \<Rightarrow> goerror + string" where
  "marshal_failed fe = map_sum id render (json_failed fe)"

lemma struct_of_Inl:
  assumes "(k, Some (Inl e)) \<in> set fs"
  shows "\<exists>e'. struct_of fs = Inl e'"
proof -
  have "(k, Inl e) \<in> set (List.map_filter (\<lambda>(k, r). map_option (Pair k) r) fs)"
    using assms by (induction fs) (auto split: option.split)
  from object_of_Inl [OF this] show ?thesis by (simp add: struct_of_def)
qed

end
