(* ===== verification/Flat_Filters.thy ===== *)
theory Flat_Filters
  imports Models
begin

text \<open>
  \<open>models/flat_filters.go\<close>: the JSONB columns, the match of a filter with an event and the choice
  of the best filter of a charge. The reference \<open>best_filter_spec\<close> says what the choice promises:
  the filters that match are ranked by the number of their keys, the first of the best ones wins,
  and without any the charge's default bucket is taken.
\<close>

section \<open>Columns\<close>

text \<open>What the SQL driver hands to \<open>Scan\<close> or takes from \<open>Value\<close>.\<close>

datatype dbval = DbNil | DbBytes string | DbString string | DbOther string

fun decode_strings :: "json list \<Rightarrow> string list option" where
  "decode_strings [] = Some []"
| "decode_strings (j # js) =
     (case (decode_string j [], decode_strings js) of (Some s, Some ss) \<Rightarrow> Some (s # ss) | _ \<Rightarrow> None)"

definition decode_string_slice :: "json \<Rightarrow> string list option option" where
  "decode_string_slice j =
     (case j of JNull \<Rightarrow> Some None | JArr js \<Rightarrow> map_option Some (decode_strings js) | _ \<Rightarrow> None)"

fun decode_filter_entries :: "(string \<times> json) list \<Rightarrow> (string \<times> string list) list \<Rightarrow>
    (string \<times> string list) list option" where
  "decode_filter_entries [] m = Some m"
| "decode_filter_entries ((k, j) # kvs) m =
     (case decode_string_slice j of None \<Rightarrow> None
      | Some vs \<Rightarrow>
          decode_filter_entries kvs (upsert (unquote k) (case vs of None \<Rightarrow> [] | Some l \<Rightarrow> l) m))"

definition unmarshal_filter_values :: "string \<Rightarrow> FlatFilterValues option" where
  "unmarshal_filter_values b =
     (case parse_json b of
        Some JNull \<Rightarrow> Some None
      | Some (JObj kvs) \<Rightarrow> map_option Some (decode_filter_entries kvs [])
      | _ \<Rightarrow> None)"

definition unmarshal_group_keys :: "string \<Rightarrow> PricingGroupKeys option" where
  "unmarshal_group_keys b = (case parse_json b of None \<Rightarrow> None | Some j \<Rightarrow> decode_string_slice j)"

text \<open>
  \<open>Scan\<close>: the new value, or the error, which leaves the old one (the text of a JSON error is not
  modelled).
\<close>

definition scan_column :: "(string \<Rightarrow> 'a option option) \<Rightarrow> dbval \<Rightarrow> goerror + 'a option" where
  "scan_column unmarshal v =
     (let from_bytes = (\<lambda>b. case unmarshal b of None \<Rightarrow> Inl ''json'' | Some r \<Rightarrow> Inr r)
      in case v of
           DbNil \<Rightarrow> Inr None
         | DbBytes b \<Rightarrow> from_bytes b
         | DbString s \<Rightarrow> from_bytes s
         | DbOther t \<Rightarrow> Inl (''cannot scan '' @ t @ '' into FlatFilterValues''))"

definition FlatFilterValues_Scan :: "dbval \<Rightarrow> goerror + FlatFilterValues" where
  "FlatFilterValues_Scan v = scan_column unmarshal_filter_values v"

definition PricingGroupKeys_Scan :: "dbval \<Rightarrow> goerror + PricingGroupKeys" where
  "PricingGroupKeys_Scan v = scan_column unmarshal_group_keys v"

definition json_strings :: "string list \<Rightarrow> json" where
  "json_strings ss = JArr (map json_string ss)"

definition FlatFilterValues_Value :: "FlatFilterValues \<Rightarrow> dbval" where
  "FlatFilterValues_Value fm =
     (case fm of None \<Rightarrow> DbNil
      | Some m \<Rightarrow>
          DbBytes (render (JObj (map (\<lambda>(k, j). (quote k, j)) (by_key (map (\<lambda>(k, vs). (k, json_strings vs)) m))))))"

definition PricingGroupKeys_Value :: "PricingGroupKeys \<Rightarrow> dbval" where
  "PricingGroupKeys_Value fm =
     (case fm of None \<Rightarrow> DbNil | Some ss \<Rightarrow> DbBytes (render (json_strings ss)))"

section \<open>Matching\<close>

definition Keys :: "FlatFilterValues option \<Rightarrow> string list" where
  "Keys ffv = (case ffv of None \<Rightarrow> [] | Some None \<Rightarrow> [] | Some (Some m) \<Rightarrow> keys m)"

definition HasFilters :: "FlatFilter \<Rightarrow> bool" where
  "HasFilters ff =
     (case ff_Filters ff of None \<Rightarrow> False | Some None \<Rightarrow> False | Some (Some m) \<Rightarrow> 0 < length m)"

text \<open>The range loop of \<open>IsMatchingEvent\<close> with its two breaks.\<close>

fun matching_loop :: "properties \<Rightarrow> (string \<times> string list) list \<Rightarrow> bool" where
  "matching_loop ps [] = True"
| "matching_loop ps ((key, values) # rest) =
     (if property ps key = GNil then False
      else if sprint_v (property ps key) \<notin> set values then False
      else matching_loop ps rest)"

definition IsMatchingEvent :: "FlatFilter \<Rightarrow> EnrichedEvent \<Rightarrow> bool result" where
  "IsMatchingEvent ff event =
     (if \<not> HasFilters ff then SuccessResult True
      else SuccessResult (matching_loop (ee_Properties event) (the (the (ff_Filters ff)))))"

definition ToDefaultFilter :: "FlatFilter \<Rightarrow> FlatFilter" where
  "ToDefaultFilter ff =
     \<lparr>ff_OrganizationID = ff_OrganizationID ff, ff_BillableMetricCode = ff_BillableMetricCode ff,
      ff_PlanID = ff_PlanID ff, ff_ChargeID = ff_ChargeID ff,
      ff_ChargeUpdatedAt = ff_ChargeUpdatedAt ff, ff_ChargeFilterID = None,
      ff_ChargeFilterUpdatedAt = None, ff_Filters = None, ff_PricingGroupKeys = None,
      ff_PayInAdvance = ff_PayInAdvance ff\<rparr>"

text \<open>The loop over the matching filters; \<open>None\<close> is the \<open>nil\<close> best filter before the first round.\<close>

fun best_loop :: "FlatFilter option \<Rightarrow> FlatFilter list \<Rightarrow> FlatFilter option" where
  "best_loop best [] = best"
| "best_loop None (f # fs) = best_loop (Some f) fs"
| "best_loop (Some b) (f # fs) =
     best_loop (if length (Keys (ff_Filters b)) < length (Keys (ff_Filters f)) then Some f else Some b) fs"

fun select_matching :: "FlatFilter list \<Rightarrow> EnrichedEvent \<Rightarrow> FlatFilter list" where
  "select_matching [] event = []"
| "select_matching (f # fs) event =
     (if HasFilters f \<and> Value (IsMatchingEvent f event)
      then f # select_matching fs event else select_matching fs event)"

text \<open>\<open>None\<close> is the index panic on an empty slice.\<close>

definition MatchingFilter :: "FlatFilter list \<Rightarrow> EnrichedEvent \<Rightarrow> FlatFilter option" where
  "MatchingFilter filters event =
     (if 1 < length filters then
        (let matchingFilters = select_matching filters event
         in if matchingFilters = [] then Some (ToDefaultFilter (filters ! 0))
            else best_loop None matchingFilters)
      else
        (case filters of
           [] \<Rightarrow> None
         | f # _ \<Rightarrow>
             (if HasFilters f \<and> Value (IsMatchingEvent f event) then Some f
              else Some (ToDefaultFilter f))))"

section \<open>The reference\<close>

text \<open>What a filter that matches an event is: every one of its keys has one of its values.\<close>

definition covers :: "EnrichedEvent \<Rightarrow> FlatFilter \<Rightarrow> bool" where
  "covers event ff =
     (case ff_Filters ff of
        Some (Some m) \<Rightarrow>
          m \<noteq> [] \<and>
          (\<forall>(key, values) \<in> set m. property (ee_Properties event) key \<noteq> GNil \<and>
             sprint_v (property (ee_Properties event) key) \<in> set values)
      | _ \<Rightarrow> False)"

definition rank :: "FlatFilter \<Rightarrow> nat" where
  "rank ff = length (Keys (ff_Filters ff))"

fun first_best :: "FlatFilter list \<Rightarrow> FlatFilter option" where
  "first_best [] = None"
| "first_best (f # fs) =
     (if \<forall>g \<in> set fs. rank g \<le> rank f then Some f else first_best fs)"

definition best_filter_spec :: "FlatFilter list \<Rightarrow> EnrichedEvent \<Rightarrow> FlatFilter option" where
  "best_filter_spec filters event =
     (case filters of [] \<Rightarrow> None
      | f # _ \<Rightarrow>
          (case first_best (List.filter (covers event) filters) of
             None \<Rightarrow> Some (ToDefaultFilter f) | Some b \<Rightarrow> Some b))"

section \<open>Sample data\<close>

definition sample_event :: EnrichedEvent where
  "sample_event =
     initial_enriched
       (zero_event\<lparr>ev_Properties := Some [(''scheme'', GStr ''visa''), (''amount'', GNum (float_of_int 1000000))]\<rparr>)"

definition sample_filter :: "(string \<times> string list) list \<Rightarrow> FlatFilter" where
  "sample_filter m =
     \<lparr>ff_OrganizationID = ''org'', ff_BillableMetricCode = ''api'', ff_PlanID = ''plan'',
      ff_ChargeID = ''charge'', ff_ChargeUpdatedAt = 0, ff_ChargeFilterID = Some ''filter'',
      ff_ChargeFilterUpdatedAt = Some 0, ff_Filters = Some (Some m),
      ff_PricingGroupKeys = Some [''country''], ff_PayInAdvance = True\<rparr>"

section \<open>Lemmas\<close>

lemma matching_loop_iff:
  "matching_loop ps m \<longleftrightarrow>
   (\<forall>(key, values) \<in> set m. property ps key \<noteq> GNil \<and> sprint_v (property ps key) \<in> set values)"
  by (induction ps m rule: matching_loop.induct) auto

lemma covers_iff: "covers event f \<longleftrightarrow> HasFilters f \<and> Value (IsMatchingEvent f event)"
  by (auto simp: covers_def HasFilters_def IsMatchingEvent_def matching_loop_iff split: option.splits)

lemma select_matching_filter: "select_matching fs event = List.filter (covers event) fs"
  by (induction fs) (auto simp: covers_iff)

lemma first_best_None: "first_best fs = None \<longleftrightarrow> fs = []"
  by (induction fs) auto

lemma first_best_above:
  "\<exists>g \<in> set fs. k < rank g \<Longrightarrow> first_best (List.filter (\<lambda>g. k < rank g) fs) = first_best fs"
proof (induction fs)
  case Nil
  then show ?case by simp
next
  case (Cons h fs)
  show ?case
  proof (cases "\<exists>g \<in> set fs. k < rank g")
    case True
    then show ?thesis using Cons.IH by (auto simp: not_le intro: order.strict_trans2 order.strict_trans1)
  next
    case False
    with Cons.prems have "k < rank h" by auto
    with False show ?thesis by (auto simp: not_less intro: order.trans)
  qed
qed

lemma best_loop_first:
  "best_loop (Some b) fs = (if \<forall>g \<in> set fs. rank g \<le> rank b then Some b else first_best fs)"
  by (induction fs arbitrary: b) (auto simp: rank_def [symmetric] not_less not_le intro: order.trans)

lemma best_loop_None: "best_loop None fs = first_best fs"
  by (cases fs) (auto simp: best_loop_first)

lemma first_best_in: "first_best fs = Some b \<Longrightarrow> b \<in> set fs"
  by (induction fs) (auto split: if_splits)

lemma first_best_max: "first_best fs = Some b \<Longrightarrow> g \<in> set fs \<Longrightarrow> rank g \<le> rank b"
proof (induction fs arbitrary: g)
  case Nil
  then show ?case by simp
next
  case (Cons f fs)
  show ?case
  proof (cases "\<forall>g \<in> set fs. rank g \<le> rank f")
    case True
    with Cons.prems show ?thesis by auto
  next
    case False
    then obtain h where h: "h \<in> set fs" "rank f < rank h" by (auto simp: not_le)
    have b: "first_best fs = Some b" using False Cons.prems(1) by (simp split: if_splits)
    from Cons.IH [OF b h(1)] h(2) have "rank f \<le> rank b" by simp
    with Cons.IH [OF b] Cons.prems(2) show ?thesis by auto
  qed
qed

lemma MatchingFilter_spec: "MatchingFilter filters event = best_filter_spec filters event"
proof (cases filters)
  case Nil
  then show ?thesis by (simp add: MatchingFilter_def best_filter_spec_def)
next
  case (Cons f fs)
  show ?thesis
  proof (cases "first_best (List.filter (covers event) filters)")
    case None
    then have none: "List.filter (covers event) filters = []" by (simp add: first_best_None)
    then have "\<not> covers event f" using Cons by (auto split: if_splits)
    with none None Cons show ?thesis
      by (auto simp: MatchingFilter_def best_filter_spec_def select_matching_filter covers_iff [symmetric])
  next
    case (Some b)
    then have "List.filter (covers event) filters \<noteq> []" by auto
    with Some Cons show ?thesis
      by (cases fs) (auto simp: MatchingFilter_def best_filter_spec_def select_matching_filter
        best_loop_None covers_iff [symmetric] split: if_splits)
  qed
qed

lemma MatchingFilter_Some: "filters \<noteq> [] \<Longrightarrow> \<exists>f. MatchingFilter filters event = Some f"
  by (cases filters) (auto simp: MatchingFilter_spec best_filter_spec_def split: option.splits)

lemma MatchingFilter_charge:
  assumes "MatchingFilter filters event = Some f" and "\<And>g. g \<in> set filters \<Longrightarrow> ff_ChargeID g = c"
  shows "ff_ChargeID f = c"
  using assms first_best_in [of "List.filter (covers event) filters"]
  by (cases filters) (auto simp: MatchingFilter_spec best_filter_spec_def ToDefaultFilter_def
    split: option.splits if_splits)

section \<open>Properties\<close>

text \<open>
  C18: choosing a filter (the shortcut for a single row included) is the same as the reference: the
  first of the filters with the most keys among those that cover the event, else the default bucket
  of the first row; no row at all is the index panic.
\<close>

theorem matching_filter_refines_spec: "MatchingFilter filters event = best_filter_spec filters event"
  by (rule MatchingFilter_spec)

text \<open>
  When a filter of the charge covers the event, the chosen filter is one of the charge's
  filters, it covers the event, and no covering filter has more keys.
\<close>

theorem matching_filter_best:
  assumes "MatchingFilter filters event = Some f" and "g \<in> set filters" and "covers event g"
  shows "f \<in> set filters \<and> covers event f \<and> rank g \<le> rank f"
proof -
  have g: "g \<in> set (List.filter (covers event) filters)" using assms by simp
  then obtain b where b: "first_best (List.filter (covers event) filters) = Some b"
    by (metis first_best_None list.set_cases neq_Nil_conv not_None_eq)
  then have "f = b" using assms(1,2)
    by (cases filters) (auto simp: MatchingFilter_spec best_filter_spec_def)
  with first_best_in [OF b] first_best_max [OF b g] show ?thesis by simp
qed

theorem matching_filter_best_witness:
  "rank (sample_filter [(''scheme'', [''visa''])]) \<le>
   rank (the (MatchingFilter [sample_filter [(''scheme'', [''visa''])], sample_filter []] sample_event))"
proof -
  let ?fs = "[sample_filter [(''scheme'', [''visa''])], sample_filter []]"
  have "MatchingFilter ?fs sample_event = Some (the (MatchingFilter ?fs sample_event))"
    using MatchingFilter_Some [of ?fs sample_event] by auto
  moreover have "covers sample_event (sample_filter [(''scheme'', [''visa''])])"
    by (simp add: covers_def sample_event_def sample_filter_def initial_enriched_def property_def)
  ultimately show ?thesis
    using matching_filter_best [of ?fs sample_event "the (MatchingFilter ?fs sample_event)"
      "sample_filter [(''scheme'', [''visa''])]"] by simp
qed

text \<open>
  When no filter of the charge covers the event, the charge's default bucket is taken: the
  charge, its date and its pay in advance flag are those of the first row, and neither a filter
  nor pricing group keys are kept, also where the charge has such keys and no filter at all.
\<close>

theorem matching_filter_default:
  assumes "filters \<noteq> []" and "\<forall>g \<in> set filters. \<not> covers event g"
  shows "\<exists>f. MatchingFilter filters event = Some f \<and> ff_ChargeID f = ff_ChargeID (hd filters) \<and>
    ff_ChargeUpdatedAt f = ff_ChargeUpdatedAt (hd filters) \<and>
    ff_PayInAdvance f = ff_PayInAdvance (hd filters) \<and> ff_ChargeFilterID f = None \<and>
    \<not> HasFilters f \<and> ff_PricingGroupKeys f = None"
proof -
  have "List.filter (covers event) filters = []" using assms(2) by (simp add: filter_empty_conv)
  with assms(1) show ?thesis
    by (cases filters) (auto simp: MatchingFilter_spec best_filter_spec_def ToDefaultFilter_def HasFilters_def)
qed

theorem matching_filter_default_witness:
  "\<exists>f. MatchingFilter [sample_filter []] sample_event = Some f \<and> ff_PricingGroupKeys f = None"
proof -
  have "\<forall>g \<in> set [sample_filter []]. \<not> covers sample_event g"
    by (simp add: covers_def sample_filter_def)
  then show ?thesis using matching_filter_default [of "[sample_filter []]" sample_event] by auto
qed

text \<open>
  A match does not depend on the order in which the range loop meets the entries of the
  filter's map, although the loop stops at the first entry that fails.
\<close>

theorem is_matching_event_order:
  assumes "mset m = mset m'"
  shows "IsMatchingEvent (ff\<lparr>ff_Filters := Some (Some m)\<rparr>) event =
         IsMatchingEvent (ff\<lparr>ff_Filters := Some (Some m')\<rparr>) event"
proof -
  have "set m = set m'" and "length m = length m'"
    using mset_eq_setD [OF assms] mset_eq_length [OF assms] by simp_all
  then show ?thesis by (simp add: IsMatchingEvent_def HasFilters_def matching_loop_iff)
qed

theorem is_matching_event_order_witness:
  "IsMatchingEvent ((sample_filter [])\<lparr>ff_Filters := Some (Some [(''a'', [''1'']), (''b'', [])])\<rparr>) sample_event =
   IsMatchingEvent ((sample_filter [])\<lparr>ff_Filters := Some (Some [(''b'', []), (''a'', [''1''])])\<rparr>) sample_event"
proof -
  have m: "mset [(''a'', [''1'']), (''b'', [])] = mset [(''b'', []), (''a'', [''1''])]" by simp
  show ?thesis by (rule is_matching_event_order [OF m])
qed

text \<open>
  A filter on the value 1000000 misses an event whose property is the JSON number 1000000,
  because \<open>%v\<close> prints that number as \<open>1e+06\<close>.
\<close>

theorem large_number_misses_filter:
  "property (ee_Properties sample_event) ''amount'' = GNum (float_of_int 1000000) \<and>
   sprint_v (GNum (float_of_int 1000000)) = ''1e+06'' \<and>
   \<not> Value (IsMatchingEvent (sample_filter [(''amount'', [''1000000''])]) sample_event)"
proof -
  have v: "format_v (float_of_int 1000000) = ''1e+06''" by code_simp
  then show ?thesis
    by (simp add: sample_event_def sample_filter_def initial_enriched_def property_def IsMatchingEvent_def
      HasFilters_def)
qed

end
