(* ===== verification/Stores.thy ===== *)
theory Stores
  imports Flat_Filters
begin

text \<open>
  The stores of the package \<open>models\<close>: the three queries of \<open>ApiStore\<close> (\<open>billable_metrics.go\<close>,
  \<open>subscriptions.go\<close>, \<open>flat_filters.go\<close>), the flag store and the cache store on Redis
  (\<open>stores.go\<close>) and the keys of the charge cache (\<open>charge_cache.go\<close>).
  The database behind gorm and the Redis client are not part of the repository: the database is a
  record of functions that answer queries, Redis answers as \<open>replies\<close> says. What a query asks for
  is a definition here: its condition on a row, its order and its limit.
\<close>

section \<open>Queries\<close>

text \<open>
  The rows that satisfy \<open>where\<close>, sorted so that no row is \<open>before\<close> an earlier one, at most \<open>limit\<close>
  of them. SQL leaves the order of ties open, so an answer is any such list.
\<close>

record 'row query =
  q_where :: "'row \<Rightarrow> bool"
  q_before :: "'row \<Rightarrow> 'row \<Rightarrow> bool"
  q_limit :: "nat option"

definition answers :: "'row list \<Rightarrow> 'row query \<Rightarrow> 'row list \<Rightarrow> bool" where
  "answers table q rows \<longleftrightarrow>
     (\<exists>ys. mset ys = mset (filter (q_where q) table) \<and>
           sorted_wrt (\<lambda>a b. \<not> q_before q b a) ys \<and>
           rows = (case q_limit q of None \<Rightarrow> ys | Some n \<Rightarrow> take n ys))"

text \<open>A row of \<open>subscriptions\<close>: the struct and the column that it leaves out.\<close>

record SubscriptionRow =
  row_OrganizationID :: string
  row_Subscription :: Subscription

text \<open>
  The connection. \<open>First\<close> gives the first row or an error (gorm's not-found error when there is
  none); \<open>Find\<close> into a struct gives the first row or leaves the zero struct (\<open>None\<close>).
\<close>

record db =
  db_First :: "BillableMetric query \<Rightarrow> goerror + BillableMetric"
  db_FindSubscription :: "SubscriptionRow query \<Rightarrow> goerror + SubscriptionRow option"
  db_FindFilters :: "FlatFilter query \<Rightarrow> goerror + FlatFilter list"

text \<open>\<open>gorm.ErrRecordNotFound\<close>.\<close>

definition ErrRecordNotFound :: goerror where
  "ErrRecordNotFound = ''record not found''"

text \<open>A field of type \<open>gorm.DeletedAt\<close> makes gorm leave out the rows that are deleted.\<close>

definition billable_metric_query :: "string \<Rightarrow> string \<Rightarrow> BillableMetric query" where
  "billable_metric_query organizationID code =
     \<lparr>q_where = (\<lambda>bm. bm_OrganizationID bm = organizationID \<and> bm_Code bm = code \<and> bm_DeletedAt bm = None),
      q_before = (\<lambda>a b. bm_ID a < bm_ID b), q_limit = Some 1\<rparr>"

definition failedBillabmeMetricResult :: "goerror \<Rightarrow> BillableMetric option result" where
  "failedBillabmeMetricResult e =
     (let result = FailedResult None e
      in if e = ErrRecordNotFound then NonRetryable (NonCapturable result) else result)"

definition FetchBillableMetric :: "db \<Rightarrow> string \<Rightarrow> string \<Rightarrow> BillableMetric option result" where
  "FetchBillableMetric db organizationID code =
     (case db_First db (billable_metric_query organizationID code) of
        Inl e \<Rightarrow> failedBillabmeMetricResult e
      | Inr bm \<Rightarrow> SuccessResult (Some bm))"

text \<open>The SQL condition: a NULL start is never before the timestamp, a NULL end is no end.\<close>

definition subscription_where :: "string \<Rightarrow> string \<Rightarrow> gotime \<Rightarrow> SubscriptionRow \<Rightarrow> bool" where
  "subscription_where organizationID externalID timestamp row =
     (let sub = row_Subscription row
      in row_OrganizationID row = organizationID \<and> sub_ExternalID sub = externalID \<and>
         (case sub_StartedAt sub of None \<Rightarrow> False | Some t \<Rightarrow> truncate_ms t \<le> timestamp) \<and>
         (case sub_TerminatedAt sub of None \<Rightarrow> True | Some t \<Rightarrow> timestamp \<le> truncate_ms t))"

text \<open>\<open>terminated_at DESC NULLS FIRST, started_at DESC\<close> (where NULL is first, too, by default).\<close>

fun desc_nulls_first :: "gotime option \<Rightarrow> gotime option \<Rightarrow> bool" where
  "desc_nulls_first None None = False"
| "desc_nulls_first None (Some u) = True"
| "desc_nulls_first (Some t) None = False"
| "desc_nulls_first (Some t) (Some u) = (u < t)"

definition subscription_before :: "SubscriptionRow \<Rightarrow> SubscriptionRow \<Rightarrow> bool" where
  "subscription_before a b =
     (let s = row_Subscription a; t = row_Subscription b
      in desc_nulls_first (sub_TerminatedAt s) (sub_TerminatedAt t) \<or>
         (sub_TerminatedAt s = sub_TerminatedAt t \<and>
          desc_nulls_first (sub_StartedAt s) (sub_StartedAt t)))"

definition subscription_query :: "string \<Rightarrow> string \<Rightarrow> gotime \<Rightarrow> SubscriptionRow query" where
  "subscription_query organizationID externalID timestamp =
     \<lparr>q_where = subscription_where organizationID externalID timestamp,
      q_before = subscription_before, q_limit = Some 1\<rparr>"

definition failedSubscriptionResult :: "goerror \<Rightarrow> Subscription option result" where
  "failedSubscriptionResult e =
     (let result = FailedResult None e
      in if e = ErrRecordNotFound then NonRetryable (NonCapturable result) else result)"

definition FetchSubscription :: "db \<Rightarrow> string \<Rightarrow> string \<Rightarrow> gotime \<Rightarrow> Subscription option result" where
  "FetchSubscription db organizationID externalID timestamp =
     (case db_FindSubscription db (subscription_query organizationID externalID timestamp) of
        Inl e \<Rightarrow> failedSubscriptionResult e
      | Inr None \<Rightarrow> failedSubscriptionResult ErrRecordNotFound
      | Inr (Some row) \<Rightarrow>
          (if sub_ID (row_Subscription row) = [] then failedSubscriptionResult ErrRecordNotFound
           else SuccessResult (Some (row_Subscription row))))"

definition flat_filters_query :: "string \<Rightarrow> string \<Rightarrow> FlatFilter query" where
  "flat_filters_query planID billableMetricCode =
     \<lparr>q_where = (\<lambda>ff. ff_PlanID ff = planID \<and> ff_BillableMetricCode ff = billableMetricCode),
      q_before = (\<lambda>a b. False), q_limit = None\<rparr>"

definition FetchFlatFilters :: "db \<Rightarrow> string \<Rightarrow> string \<Rightarrow> FlatFilter list result" where
  "FetchFlatFilters db planID billableMetricCode =
     (case db_FindFilters db (flat_filters_query planID billableMetricCode) of
        Inl e \<Rightarrow> FailedResult [] e
      | Inr filters \<Rightarrow> SuccessResult filters)"

section \<open>Redis stores\<close>

text \<open>A method with one string argument of a store: its error or result, and the log after it.\<close>

type_synonym flagger = "string \<Rightarrow> effect list \<Rightarrow> goerror option \<times> effect list"

type_synonym cacher = "string \<Rightarrow> effect list \<Rightarrow> bool result \<times> effect list"

definition FlagStore_Flag :: "replies \<Rightarrow> string \<Rightarrow> flagger" where
  "FlagStore_Flag rp name v log = call rp (SAdd name v) log"

text \<open>\<open>EXPIRATION_TIME\<close>, 5 seconds in nanoseconds.\<close>

definition EXPIRATION_TIME :: int where
  "EXPIRATION_TIME = 5 * second"

definition CacheStore_ExpireKey :: "replies \<Rightarrow> cacher" where
  "CacheStore_ExpireKey rp key log =
     (let (e, log') = call rp (ExpireKeyIn key EXPIRATION_TIME) log
      in (case e of Some x \<Rightarrow> FailedBoolResult x | None \<Rightarrow> SuccessResult True, log'))"

section \<open>The charge cache\<close>

definition CACHE_KEY_VERSION :: string where
  "CACHE_KEY_VERSION = ''1''"

definition charge_cache_key :: "FlatFilter \<Rightarrow> string \<Rightarrow> string" where
  "charge_cache_key ff subID =
     (let keyParts = [''charge-usage'', CACHE_KEY_VERSION, ff_ChargeID ff, subID,
                      format_rfc3339 (ff_ChargeUpdatedAt ff)];
          filterParts =
            (case (ff_ChargeFilterID ff, ff_ChargeFilterUpdatedAt ff) of
               (Some filterID, Some updatedAt) \<Rightarrow> [filterID, format_rfc3339 updatedAt]
             | _ \<Rightarrow> [])
      in join ''/'' (keyParts @ filterParts))"

definition ChargeCache_Expire :: "cacher \<Rightarrow> FlatFilter \<Rightarrow> string \<Rightarrow> effect list \<Rightarrow> bool result \<times> effect list" where
  "ChargeCache_Expire expire ff subID log = expire (charge_cache_key ff subID) log"

section \<open>Sample data\<close>

definition sample_subscription :: "string \<Rightarrow> gotime \<Rightarrow> gotime option \<Rightarrow> SubscriptionRow" where
  "sample_subscription ident started terminated =
     \<lparr>row_OrganizationID = ''org'',
      row_Subscription =
        \<lparr>sub_ID = ident, sub_ExternalID = ''ext'', sub_PlanID = ''plan'', sub_CreatedAt = 0,
         sub_UpdatedAt = 0, sub_StartedAt = Some started, sub_TerminatedAt = terminated\<rparr>\<rparr>"

definition sample_db :: db where
  "sample_db =
     \<lparr>db_First = (\<lambda>q. Inl ErrRecordNotFound),
      db_FindSubscription = (\<lambda>q. Inr (Some (sample_subscription ''sub1'' 0 None))),
      db_FindFilters = (\<lambda>q. Inr [])\<rparr>"

section \<open>Interfaces\<close>

text \<open>
  What the services rely on in a store: one call has one effect, which does not depend on the log,
  and it is the last thing logged.
\<close>

locale one_command =
  fixes run :: "string \<Rightarrow> effect list \<Rightarrow> 'r \<times> effect list"
    and command :: "string \<Rightarrow> effect"
    and failed :: "'r \<Rightarrow> bool"
  assumes run_log: "snd (run x log) = log @ [command x]"
begin

lemma run_mono: "set log \<subseteq> set (snd (run x log))"
  by (auto simp: run_log)

lemma run_effects: "set (snd (run x log)) = insert (command x) (set log)"
  by (simp add: run_log)

lemma run_iff: "run x log = (r, log') \<Longrightarrow> log' = log @ [command x]"
  by (metis run_log snd_conv)

end

interpretation flags: one_command "FlagStore_Flag rp name" "SAdd name" "\<lambda>e. e \<noteq> None" for rp name
  by unfold_locales (simp add: FlagStore_Flag_def call_def)

interpretation cache: one_command "CacheStore_ExpireKey rp" "\<lambda>k. ExpireKeyIn k EXPIRATION_TIME" Failure for rp
  by unfold_locales (simp add: CacheStore_ExpireKey_def call_def)

section \<open>Lemmas\<close>

lemma answers_where: "answers table q rows \<Longrightarrow> r \<in> set rows \<Longrightarrow> r \<in> set table \<and> q_where q r"
proof -
  assume "answers table q rows" and r: "r \<in> set rows"
  then obtain ys where "mset ys = mset (filter (q_where q) table)"
    and "rows = (case q_limit q of None \<Rightarrow> ys | Some n \<Rightarrow> take n ys)"
    by (auto simp: answers_def)
  then have "r \<in> set ys" and "set ys = set (filter (q_where q) table)"
    using r by (auto simp del: mset_filter split: option.splits dest: in_set_takeD mset_eq_setD)
  then show ?thesis by auto
qed

lemma answers_one:
  assumes "answers table q rows" and "q_limit q = Some 1"
  shows "rows = [] \<longleftrightarrow> (\<forall>r \<in> set table. \<not> q_where q r)"
    and "rows = [r] \<Longrightarrow> r' \<in> set table \<Longrightarrow> q_where q r' \<Longrightarrow> r' \<noteq> r \<Longrightarrow> \<not> q_before q r' r"
proof -
  from assms obtain ys where ys: "mset ys = mset (filter (q_where q) table)"
    "sorted_wrt (\<lambda>a b. \<not> q_before q b a) ys" "rows = take 1 ys"
    by (auto simp: answers_def)
  have set: "set ys = {r \<in> set table. q_where q r}" using mset_eq_setD [OF ys(1)] by simp
  show "rows = [] \<longleftrightarrow> (\<forall>r \<in> set table. \<not> q_where q r)"
    using set ys(3) by (cases ys) auto
  assume "rows = [r]" and "r' \<in> set table" and "q_where q r'" and "r' \<noteq> r"
  then obtain zs where "ys = r # zs" and "r' \<in> set zs" using set ys(3) by (cases ys) auto
  with ys(2) show "\<not> q_before q r' r" by simp
qed

lemma answers_limit: "answers table q rows \<Longrightarrow> q_limit q = Some n \<Longrightarrow> length rows \<le> n"
  by (auto simp: answers_def)

lemma subscription_before_irrefl: "\<not> subscription_before row row"
proof -
  have "\<not> desc_nulls_first x x" for x by (cases x) simp_all
  then show ?thesis by (simp add: subscription_before_def Let_def)
qed

lemma FetchSubscription_Some:
  "Value (FetchSubscription db org ext t) = Some sub \<longleftrightarrow>
   (\<exists>row. db_FindSubscription db (subscription_query org ext t) = Inr (Some row) \<and>
          sub_ID (row_Subscription row) \<noteq> [] \<and> row_Subscription row = sub)"
  unfolding FetchSubscription_def failedSubscriptionResult_def Let_def
  by (auto split: sum.splits option.splits)

lemma fetch_not_found_flags:
  "\<not> IsRetryable (failedSubscriptionResult ErrRecordNotFound)"
  "\<not> IsCapturable (failedSubscriptionResult ErrRecordNotFound)"
  "Failure (failedSubscriptionResult e)"
  "\<not> IsRetryable (failedBillabmeMetricResult ErrRecordNotFound)"
  "\<not> IsCapturable (failedBillabmeMetricResult ErrRecordNotFound)"
  "Failure (failedBillabmeMetricResult e)"
  using res.not_found_flags [where zero = None and e = ErrRecordNotFound]
  by (simp_all add: failedSubscriptionResult_def failedBillabmeMetricResult_def Let_def)

lemma ChargeCache_Expire_log:
  "snd (ChargeCache_Expire (CacheStore_ExpireKey rp) ff subID log) =
   log @ [ExpireKeyIn (charge_cache_key ff subID) EXPIRATION_TIME]"
  by (simp add: ChargeCache_Expire_def cache.run_log)

lemma charge_cache_key_split:
  assumes "CHR ''/'' \<notin> set (ff_ChargeID ff)" and "CHR ''/'' \<notin> set sub"
    and "\<And>x. ff_ChargeFilterID ff = Some x \<Longrightarrow> CHR ''/'' \<notin> set x"
  shows "split_on CHR ''/'' (charge_cache_key ff sub) =
    [''charge-usage'', CACHE_KEY_VERSION, ff_ChargeID ff, sub, format_rfc3339 (ff_ChargeUpdatedAt ff)] @
    (case (ff_ChargeFilterID ff, ff_ChargeFilterUpdatedAt ff) of
       (Some filterID, Some updatedAt) \<Rightarrow> [filterID, format_rfc3339 updatedAt] | _ \<Rightarrow> [])"
  unfolding charge_cache_key_def Let_def
  using assms slash_not_in_format
  by (intro split_join) (auto simp: CACHE_KEY_VERSION_def format_rfc3339_def split: option.splits)

lemma format_rfc3339_inj:
  "format_rfc3339 t = format_rfc3339 u \<Longrightarrow> four_digit_year t \<Longrightarrow> four_digit_year u \<Longrightarrow>
   t div second = u div second"
  by (rule format_time_inj) (simp_all add: format_rfc3339_def)

lemma format_rfc3339_second: "t div second = u div second \<Longrightarrow> format_rfc3339 t = format_rfc3339 u"
  by (simp add: format_rfc3339_def format_time_def)

section \<open>Properties\<close>

text \<open>
  C37: what a cache key stands for. For identifiers without a slash and dates with a year of four
  digits, two keys are equal just when they are of the same charge, the same subscription and the same
  second of the charge's date, and either both name the same filter with the same second of its date,
  or each is of a filter without an identifier or without a date, of which the key says nothing.
\<close>

theorem charge_cache_key_iff:
  assumes "\<forall>x \<in> {ff_ChargeID ff, sub, ff_ChargeID ff', sub'} \<union> set_option (ff_ChargeFilterID ff) \<union>
           set_option (ff_ChargeFilterID ff'). CHR ''/'' \<notin> set x"
    and "\<forall>t \<in> {ff_ChargeUpdatedAt ff, ff_ChargeUpdatedAt ff'} \<union> set_option (ff_ChargeFilterUpdatedAt ff) \<union>
           set_option (ff_ChargeFilterUpdatedAt ff'). four_digit_year t" (is "\<forall>t \<in> ?times. _ t")
  shows "charge_cache_key ff sub = charge_cache_key ff' sub' \<longleftrightarrow>
    ff_ChargeID ff = ff_ChargeID ff' \<and> sub = sub' \<and>
    ff_ChargeUpdatedAt ff div second = ff_ChargeUpdatedAt ff' div second \<and>
    (case (ff_ChargeFilterID ff, ff_ChargeFilterUpdatedAt ff) of
       (Some f, Some t) \<Rightarrow>
         (\<exists>t'. ff_ChargeFilterID ff' = Some f \<and> ff_ChargeFilterUpdatedAt ff' = Some t' \<and>
               t div second = t' div second)
     | _ \<Rightarrow> ff_ChargeFilterID ff' = None \<or> ff_ChargeFilterUpdatedAt ff' = None)"
proof -
  let ?parts = "\<lambda>ff. case (ff_ChargeFilterID ff, ff_ChargeFilterUpdatedAt ff) of
      (Some filterID, Some updatedAt) \<Rightarrow> [filterID, format_rfc3339 updatedAt] | _ \<Rightarrow> []"
  have same: "format_rfc3339 t = format_rfc3339 u \<longleftrightarrow> t div second = u div second"
    if "t \<in> ?times" "u \<in> ?times" for t u
    using format_rfc3339_inj [of t u] format_rfc3339_second [of t u] assms(2) that by blast
  have "charge_cache_key ff sub = charge_cache_key ff' sub' \<longleftrightarrow>
      split_on CHR ''/'' (charge_cache_key ff sub) = split_on CHR ''/'' (charge_cache_key ff' sub')"
    using join_split [of "CHR ''/''" "charge_cache_key ff sub"] join_split [of "CHR ''/''" "charge_cache_key ff' sub'"]
    by metis
  also have "\<dots> \<longleftrightarrow> ff_ChargeID ff = ff_ChargeID ff' \<and> sub = sub' \<and>
      format_rfc3339 (ff_ChargeUpdatedAt ff) = format_rfc3339 (ff_ChargeUpdatedAt ff') \<and> ?parts ff = ?parts ff'"
    using assms(1) charge_cache_key_split [of ff sub] charge_cache_key_split [of ff' sub'] by simp
  also have "format_rfc3339 (ff_ChargeUpdatedAt ff) = format_rfc3339 (ff_ChargeUpdatedAt ff') \<longleftrightarrow>
      ff_ChargeUpdatedAt ff div second = ff_ChargeUpdatedAt ff' div second" by (rule same) simp_all
  also have "?parts ff = ?parts ff' \<longleftrightarrow>
    (case (ff_ChargeFilterID ff, ff_ChargeFilterUpdatedAt ff) of
       (Some f, Some t) \<Rightarrow>
         (\<exists>t'. ff_ChargeFilterID ff' = Some f \<and> ff_ChargeFilterUpdatedAt ff' = Some t' \<and>
               t div second = t' div second)
     | _ \<Rightarrow> ff_ChargeFilterID ff' = None \<or> ff_ChargeFilterUpdatedAt ff' = None)"
    using same by (auto split: option.split)
  finally show ?thesis .
qed

text \<open>Two filters of one charge have keys of their own, and so has the charge without them.\<close>

theorem charge_cache_key_iff_witness:
  "charge_cache_key ((sample_filter [])\<lparr>ff_ChargeFilterID := Some ''f1'', ff_ChargeFilterUpdatedAt := Some 0\<rparr>) ''s'' \<noteq>
     charge_cache_key ((sample_filter [])\<lparr>ff_ChargeFilterID := Some ''f2'', ff_ChargeFilterUpdatedAt := Some 0\<rparr>) ''s'' \<and>
   charge_cache_key ((sample_filter [])\<lparr>ff_ChargeFilterID := Some ''f1'', ff_ChargeFilterUpdatedAt := None\<rparr>) ''s'' =
     charge_cache_key ((sample_filter [])\<lparr>ff_ChargeFilterID := None\<rparr>) ''s''"
proof -
  let ?f = "\<lambda>i t. (sample_filter [])\<lparr>ff_ChargeFilterID := i, ff_ChargeFilterUpdatedAt := t\<rparr>"
  have y: "four_digit_year 0" by code_simp
  have "charge_cache_key (?f (Some ''f1'') (Some 0)) ''s'' \<noteq> charge_cache_key (?f (Some ''f2'') (Some 0)) ''s''"
    by (subst charge_cache_key_iff) (use y in \<open>simp_all add: sample_filter_def\<close>)
  moreover have "charge_cache_key (?f (Some ''f1'') None) ''s'' = charge_cache_key ((sample_filter [])\<lparr>ff_ChargeFilterID := None\<rparr>) ''s''"
    by (subst charge_cache_key_iff) (use y in \<open>simp_all add: sample_filter_def\<close>)
  ultimately show ?thesis by blast
qed

text \<open>
  The subscriptions that the customer means at a timestamp, and which of two is meant: one that
  has not ended, else the one that ends last, and then the one that starts last.
\<close>

definition active_at :: "string \<Rightarrow> string \<Rightarrow> gotime \<Rightarrow> SubscriptionRow \<Rightarrow> bool" where
  "active_at org ext t row \<longleftrightarrow> row_OrganizationID row = org \<and> sub_ExternalID (row_Subscription row) = ext \<and>
     (\<exists>s. sub_StartedAt (row_Subscription row) = Some s \<and> s div millisecond * millisecond \<le> t) \<and>
     (\<forall>e. sub_TerminatedAt (row_Subscription row) = Some e \<longrightarrow> t \<le> e div millisecond * millisecond)"

definition meant_before :: "Subscription \<Rightarrow> Subscription \<Rightarrow> bool" where
  "meant_before a b \<longleftrightarrow>
     (case (sub_TerminatedAt a, sub_TerminatedAt b) of
        (None, Some e) \<Rightarrow> True
      | (Some d, None) \<Rightarrow> False
      | (None, None) \<Rightarrow> the (sub_StartedAt b) < the (sub_StartedAt a)
      | (Some d, Some e) \<Rightarrow> e < d \<or> d = e \<and> the (sub_StartedAt b) < the (sub_StartedAt a))"

lemma subscription_where_iff: "subscription_where org ext t row \<longleftrightarrow> active_at org ext t row"
  by (auto simp: subscription_where_def active_at_def truncate_ms_def minus_mod_eq_div_mult Let_def split: option.split)

lemma subscription_before_iff:
  "active_at org ext t a \<Longrightarrow> active_at org ext t b \<Longrightarrow>
   subscription_before a b \<longleftrightarrow> meant_before (row_Subscription a) (row_Subscription b)"
  by (auto simp: active_at_def subscription_before_def meant_before_def Let_def split: option.split)

text \<open>
  C36: fetching a subscription from a database that answers its query correctly. When the table has one
  of the customer that is active at the timestamp (to the millisecond), such a one is given, and no other
  is meant before it: one that has not ended wins over one that has, then a later end, then a
  later start. When the table has none, the failure is the not-found error, which is neither
  retried nor captured.
\<close>

theorem fetch_subscription_active:
  assumes "answers table (subscription_query org ext t) rows"
    and "db_FindSubscription db (subscription_query org ext t) =
           Inr (case rows of [] \<Rightarrow> None | r # _ \<Rightarrow> Some r)"
    and "\<forall>row \<in> set table. sub_ID (row_Subscription row) \<noteq> []"
  shows "if \<exists>row \<in> set table. active_at org ext t row
    then \<exists>row \<in> set table. FetchSubscription db org ext t = SuccessResult (Some (row_Subscription row)) \<and>
      active_at org ext t row \<and>
      (\<forall>other \<in> set table. active_at org ext t other \<longrightarrow>
         \<not> meant_before (row_Subscription other) (row_Subscription row))
    else Error (FetchSubscription db org ext t) = Some ErrRecordNotFound \<and>
      \<not> IsRetryable (FetchSubscription db org ext t) \<and> \<not> IsCapturable (FetchSubscription db org ext t)"
proof -
  let ?q = "subscription_query org ext t"
  have lim: "q_limit ?q = Some 1" by (simp add: subscription_query_def)
  have wh: "q_where ?q row \<longleftrightarrow> active_at org ext t row" for row
    by (simp add: subscription_query_def subscription_where_iff)
  show ?thesis
  proof (cases rows)
    case Nil
    then have "\<not> (\<exists>row \<in> set table. active_at org ext t row)" using answers_one(1) [OF assms(1) lim] by (simp add: wh)
    moreover have "FetchSubscription db org ext t = failedSubscriptionResult ErrRecordNotFound"
      using assms(2) Nil by (simp add: FetchSubscription_def)
    ultimately show ?thesis using fetch_not_found_flags by (auto simp: failedSubscriptionResult_def)
  next
    case (Cons row rest)
    then have r: "rows = [row]" using answers_limit [OF assms(1) lim] by simp
    have row: "row \<in> set table" "active_at org ext t row"
      using answers_where [OF assms(1), of row] Cons by (simp_all add: wh)
    have "\<not> meant_before (row_Subscription other) (row_Subscription row)"
      if "other \<in> set table" "active_at org ext t other" for other
      using answers_one(2) [OF assms(1) lim r that(1)] that(2) row subscription_before_irrefl [of row]
        subscription_before_iff [OF that(2) row(2)]
      by (cases "other = row") (simp_all add: wh subscription_query_def subscription_where_iff)
    moreover have "FetchSubscription db org ext t = SuccessResult (Some (row_Subscription row))"
      using assms(2,3) Cons row(1) by (simp add: FetchSubscription_def)
    ultimately show ?thesis using row by auto
  qed
qed

text \<open>Of a subscription that has ended at the timestamp and one that goes on, the latter is found.\<close>

theorem fetch_subscription_active_witness:
  "FetchSubscription sample_db ''org'' ''ext'' 1000000 =
     SuccessResult (Some (row_Subscription (sample_subscription ''sub1'' 0 None)))"
proof -
  let ?row = "sample_subscription ''sub1'' 0 None" and ?old = "sample_subscription ''sub0'' 0 (Some 1000000)"
  let ?q = "subscription_query ''org'' ''ext'' 1000000"
  have w: "active_at ''org'' ''ext'' 1000000 ?row" "active_at ''org'' ''ext'' 1000000 ?old"
    by (simp_all add: active_at_def sample_subscription_def millisecond_def)
  have before: "\<not> subscription_before ?old ?row"
    by (simp add: subscription_before_def sample_subscription_def)
  have "answers [?old, ?row] ?q [?row]"
    unfolding answers_def using w before
    by (intro exI [of _ "[?row, ?old]"]) (simp add: subscription_query_def subscription_where_iff add_mset_commute)
  moreover have "db_FindSubscription sample_db ?q = Inr (case [?row] of [] \<Rightarrow> None | r # _ \<Rightarrow> Some r)"
    by (simp add: sample_db_def)
  moreover have "\<forall>row \<in> set [?old, ?row]. sub_ID (row_Subscription row) \<noteq> []" by (simp add: sample_subscription_def)
  ultimately have f: "if \<exists>row \<in> set [?old, ?row]. active_at ''org'' ''ext'' 1000000 row
    then \<exists>row \<in> set [?old, ?row]. FetchSubscription sample_db ''org'' ''ext'' 1000000 = SuccessResult (Some (row_Subscription row)) \<and>
      active_at ''org'' ''ext'' 1000000 row \<and>
      (\<forall>other \<in> set [?old, ?row]. active_at ''org'' ''ext'' 1000000 other \<longrightarrow>
         \<not> meant_before (row_Subscription other) (row_Subscription row))
    else Error (FetchSubscription sample_db ''org'' ''ext'' 1000000) = Some ErrRecordNotFound \<and>
      \<not> IsRetryable (FetchSubscription sample_db ''org'' ''ext'' 1000000) \<and>
      \<not> IsCapturable (FetchSubscription sample_db ''org'' ''ext'' 1000000)"
    by (rule fetch_subscription_active)
  have "meant_before (row_Subscription ?row) (row_Subscription ?old)"
    by (simp add: meant_before_def sample_subscription_def)
  with f w show ?thesis by auto
qed

text \<open>
  Fetching a billable metric gives one of the organization with the code that is not deleted;
  when the table has none, the failure is the not-found error, which is neither retried nor
  captured.
\<close>

theorem fetch_billable_metric:
  assumes "answers table (billable_metric_query org code) rows"
    and "db_First db (billable_metric_query org code) = (case rows of [] \<Rightarrow> Inl ErrRecordNotFound | r # _ \<Rightarrow> Inr r)"
  shows "if \<exists>bm \<in> set table. bm_OrganizationID bm = org \<and> bm_Code bm = code \<and> bm_DeletedAt bm = None
    then \<exists>bm \<in> set table. FetchBillableMetric db org code = SuccessResult (Some bm) \<and>
      bm_OrganizationID bm = org \<and> bm_Code bm = code \<and> bm_DeletedAt bm = None
    else Error (FetchBillableMetric db org code) = Some ErrRecordNotFound \<and>
      \<not> IsRetryable (FetchBillableMetric db org code) \<and> \<not> IsCapturable (FetchBillableMetric db org code)"
proof -
  have lim: "q_limit (billable_metric_query org code) = Some 1" by (simp add: billable_metric_query_def)
  have wh: "q_where (billable_metric_query org code) =
      (\<lambda>bm. bm_OrganizationID bm = org \<and> bm_Code bm = code \<and> bm_DeletedAt bm = None)"
    by (simp add: billable_metric_query_def)
  show ?thesis
  proof (cases rows)
    case Nil
    then have "\<not> (\<exists>bm \<in> set table. bm_OrganizationID bm = org \<and> bm_Code bm = code \<and> bm_DeletedAt bm = None)"
      using answers_one(1) [OF assms(1) lim] by (simp add: wh)
    moreover have "FetchBillableMetric db org code = failedBillabmeMetricResult ErrRecordNotFound"
      using assms(2) Nil by (simp add: FetchBillableMetric_def)
    ultimately show ?thesis
      using fetch_not_found_flags by (auto simp: failedBillabmeMetricResult_def)
  next
    case (Cons bm rest)
    then have "bm \<in> set table \<and> bm_OrganizationID bm = org \<and> bm_Code bm = code \<and> bm_DeletedAt bm = None"
      using answers_where [OF assms(1), of bm] by (simp add: wh)
    moreover have "FetchBillableMetric db org code = SuccessResult (Some bm)"
      using assms(2) Cons by (simp add: FetchBillableMetric_def)
    ultimately show ?thesis by auto
  qed
qed

theorem fetch_billable_metric_witness:
  "Error (FetchBillableMetric sample_db ''org'' ''api'') = Some ErrRecordNotFound"
proof -
  have "answers [] (billable_metric_query ''org'' ''api'') []"
    by (simp add: answers_def billable_metric_query_def)
  moreover have "db_First sample_db (billable_metric_query ''org'' ''api'') =
      (case [] of [] \<Rightarrow> Inl ErrRecordNotFound | r # _ \<Rightarrow> Inr r)"
    by (simp add: sample_db_def)
  ultimately show ?thesis using fetch_billable_metric [of "[]" "''org''" "''api''" "[]" sample_db] by simp
qed

end
