(* ===== verification/Enrichment.thy ===== *)
theory Enrichment
  imports Stores
begin

text \<open>
  \<open>processors/events_processor/enrichment_service.go\<close>: an event is converted, given its billable
  metric, its subscription and, per charge of the subscription, the filter that covers it.
  A Go panic is \<open>Inl\<close> of its text. The billable metric's expression writes into the map
  \<open>Properties\<close>, which the raw event and the enriched event share, so the raw event is part of what
  \<open>EnrichEvent\<close> gives back.
\<close>

section \<open>The surroundings of one event\<close>

text \<open>
  What the code of one event does not determine: the conversion of a float out of the range of
  \<open>int64\<close> (left to the platform by Go), the database, the expression library (a function of the
  expression and the event's JSON, \<open>None\<close> for its null result) and the order in which \<open>range\<close>
  meets the keys of a map.
\<close>

record surroundings =
  sr_cvt :: "float64 \<Rightarrow> int"
  sr_apiStore :: db
  sr_Evaluate :: "string \<Rightarrow> string \<Rightarrow> string option"
  sr_range :: "string list \<Rightarrow> string list"

text \<open>\<open>range\<close> meets every key once.\<close>

definition range_ok :: "surroundings \<Rightarrow> bool" where
  "range_ok sr \<longleftrightarrow> (\<forall>ks. mset (sr_range sr ks) = mset ks)"

type_synonym panic = string

definition nil_map_write :: panic where
  "nil_map_write = ''assignment to entry in nil map''"

definition index_out_of_range :: panic where
  "index_out_of_range = ''index out of range''"

section \<open>Results at other types\<close>

definition failedResult :: "'a result \<Rightarrow> string \<Rightarrow> string \<Rightarrow> EnrichedEvent option result" where
  "failedResult r code message =
     (AddErrorDetails (FailedResult None (the (Error r))) code message)
       \<lparr>Retryable := IsRetryable r, Capture := IsCapturable r\<rparr>"

definition failedMultiEventsResult :: "'a result \<Rightarrow> string \<Rightarrow> string \<Rightarrow> EnrichedEvent list result" where
  "failedMultiEventsResult r code message =
     (AddErrorDetails (FailedResult [] (the (Error r))) code message)
       \<lparr>Retryable := IsRetryable r, Capture := IsCapturable r\<rparr>"

definition toMultiEventsResult :: "EnrichedEvent option result \<Rightarrow> EnrichedEvent list result" where
  "toMultiEventsResult r = failedMultiEventsResult r (ErrorCode r) (ErrorMessage r)"

section \<open>The billable metric\<close>

text \<open>A write into the shared map; the panic is Go's on a \<open>nil\<close> map.\<close>

definition set_property :: "string \<Rightarrow> string \<Rightarrow> EnrichedEvent \<Rightarrow> panic + EnrichedEvent" where
  "set_property k v ev =
     (case ee_Properties ev of
        None \<Rightarrow> Inl nil_map_write
      | Some m \<Rightarrow>
          (let m' = Some (upsert k (GStr v) m)
           in Inr (ev\<lparr>ee_Properties := m',
                     ee_InitialEvent := (ee_InitialEvent ev)\<lparr>ev_Properties := m'\<rparr>\<rparr>)))"

definition evaluateExpression ::
    "surroundings \<Rightarrow> EnrichedEvent \<Rightarrow> BillableMetric \<Rightarrow> panic + bool result \<times> EnrichedEvent" where
  "evaluateExpression sr ev bm =
     (if bm_Expression bm = [] then Inr (SuccessResult False, ev)
      else
        (case marshal_enriched ev of
           Inl e \<Rightarrow> Inr (NonRetryable (FailedBoolResult e), ev)
         | Inr eventJsonString \<Rightarrow>
             (case sr_Evaluate sr (bm_Expression bm) eventJsonString of
                Some v \<Rightarrow>
                  (case set_property (bm_FieldName bm) v ev of
                     Inl p \<Rightarrow> Inl p
                   | Inr ev' \<Rightarrow> Inr (SuccessResult True, ev'))
              | None \<Rightarrow>
                  Inr (NonRetryable (FailedBoolResult
                    (''Failed to evaluate expr: '' @ bm_Expression bm @ '' with json: '' @ eventJsonString)), ev))))"

text \<open>The result and the event behind the pointer.\<close>

definition enrichWithBillableMetric ::
    "surroundings \<Rightarrow> EnrichedEvent \<Rightarrow> BillableMetric \<Rightarrow>
     panic + EnrichedEvent option result \<times> EnrichedEvent" where
  "enrichWithBillableMetric sr enrichedEvent bm =
     (let ev1 = enrichedEvent\<lparr>ee_BillableMetric := Some bm,
                ee_AggregationType := AggregationType_String (bm_AggregationType bm)\<rparr>;
          evaluated = (if ee_Source ev1 \<noteq> HTTP_RUBY then evaluateExpression sr ev1 bm
                       else Inr (SuccessResult False, ev1))
      in case evaluated of
           Inl p \<Rightarrow> Inl p
         | Inr (expressionResult, ev2) \<Rightarrow>
             (if Failure expressionResult
              then Inr (failedResult expressionResult ''evaluate_expression''
                          ''Error evaluating custom expression'', ev2)
              else
                (let v = (if bm_AggregationType bm = AggregationTypeCount then ''1''
                          else sprint_v (property (ee_Properties ev2) (bm_FieldName bm)));
                     ev3 = ev2\<lparr>ee_Value := Some v\<rparr>
                 in Inr (SuccessResult (Some ev3), ev3))))"

section \<open>The subscription and its charges\<close>

definition enrichWithSubscription :: "EnrichedEvent \<Rightarrow> Subscription \<Rightarrow> EnrichedEvent option result \<times> EnrichedEvent" where
  "enrichWithSubscription enrichedEvent sub =
     (let ev = enrichedEvent\<lparr>ee_Subscription := Some sub, ee_SubscriptionID := sub_ID sub,
                             ee_PlanID := sub_PlanID sub\<rparr>
      in (SuccessResult (Some ev), ev))"

fun grouped_by_loop :: "properties \<Rightarrow> string list \<Rightarrow> (string \<times> string) list \<Rightarrow> (string \<times> string) list" where
  "grouped_by_loop ps [] m = m"
| "grouped_by_loop ps (key # ks) m = grouped_by_loop ps ks (upsert key (sprint_v (property ps key)) m)"

definition enrichWithPricingGroupKeys :: "EnrichedEvent \<Rightarrow> EnrichedEvent" where
  "enrichWithPricingGroupKeys event =
     (case ee_FlatFilter event of
        None \<Rightarrow> event
      | Some ff \<Rightarrow>
          (case ff_PricingGroupKeys ff of
             None \<Rightarrow> event
           | Some ks \<Rightarrow>
               event\<lparr>ee_GroupedBy := grouped_by_loop (ee_Properties event) ks (ee_GroupedBy event)\<rparr>))"

text \<open>The index of the filters by charge.\<close>

fun index_loop :: "FlatFilter list \<Rightarrow> (string \<times> FlatFilter list) list \<Rightarrow> (string \<times> FlatFilter list) list" where
  "index_loop [] charges = charges"
| "index_loop (f # fs) charges =
     (let old = (case map_of charges (ff_ChargeID f) of None \<Rightarrow> [] | Some xs \<Rightarrow> xs)
      in index_loop fs (upsert (ff_ChargeID f) (old @ [f]) charges))"

text \<open>The copy of the event for one charge.\<close>

definition charged_copy :: "EnrichedEvent \<Rightarrow> FlatFilter \<Rightarrow> EnrichedEvent" where
  "charged_copy enrichedEvent matchingFilter =
     enrichWithPricingGroupKeys
       (enrichedEvent\<lparr>ee_GroupedBy := [], ee_FlatFilter := Some matchingFilter,
          ee_ChargeID := Some (ff_ChargeID matchingFilter),
          ee_ChargeUpdatedAt := Some (ff_ChargeUpdatedAt matchingFilter),
          ee_ChargeFilterID := ff_ChargeFilterID matchingFilter,
          ee_ChargeFilterUpdatedAt := ff_ChargeFilterUpdatedAt matchingFilter\<rparr>)"

text \<open>The range over the index, its keys in the order given.\<close>

fun charges_loop ::
    "EnrichedEvent \<Rightarrow> (string \<times> FlatFilter list) list \<Rightarrow> string list \<Rightarrow> EnrichedEvent list \<Rightarrow>
     panic + EnrichedEvent list" where
  "charges_loop enrichedEvent charges [] enrichedEvents = Inr enrichedEvents"
| "charges_loop enrichedEvent charges (c # cs) enrichedEvents =
     (case MatchingFilter (case map_of charges c of None \<Rightarrow> [] | Some fs \<Rightarrow> fs) enrichedEvent of
        None \<Rightarrow> Inl index_out_of_range
      | Some f \<Rightarrow> charges_loop enrichedEvent charges cs (enrichedEvents @ [charged_copy enrichedEvent f]))"

definition enrichWithChargeInfo ::
    "surroundings \<Rightarrow> EnrichedEvent \<Rightarrow> panic + EnrichedEvent list result" where
  "enrichWithChargeInfo sr enrichedEvent =
     (if ee_Subscription enrichedEvent = None then Inr (SuccessResult [enrichedEvent])
      else
        (let filtersResult =
               FetchFlatFilters (sr_apiStore sr) (ee_PlanID enrichedEvent) (ee_Code enrichedEvent)
         in if Failure filtersResult then Inr (FailedResult [] (the (Error filtersResult)))
            else if length (Value filtersResult) = 0 then Inr (SuccessResult [enrichedEvent])
            else
              (let charges = index_loop (Value filtersResult) []
               in case charges_loop enrichedEvent charges (sr_range sr (keys charges)) [] of
                    Inl p \<Rightarrow> Inl p
                  | Inr enrichedEvents \<Rightarrow> Inr (SuccessResult enrichedEvents))))"

section \<open>EnrichEvent\<close>

text \<open>The part after the billable metric.\<close>

definition enrich_subscription ::
    "surroundings \<Rightarrow> Event \<Rightarrow> EnrichedEvent \<Rightarrow> panic + EnrichedEvent list result" where
  "enrich_subscription sr event enrichedEvent =
     (let subResult = FetchSubscription (sr_apiStore sr) (ev_OrganizationID event)
            (ev_ExternalSubscriptionID event) (ee_Time enrichedEvent)
      in if Failure subResult \<and> IsCapturable subResult
         then Inr (failedMultiEventsResult subResult ''fetch_subscription'' ''Error fetching subscription'')
         else
           (case Value subResult of
              None \<Rightarrow> enrichWithChargeInfo sr enrichedEvent
            | Some sub \<Rightarrow>
                (case enrichWithSubscription enrichedEvent sub of
                   (enrichSubResult, ev) \<Rightarrow>
                     (if Failure enrichSubResult then Inr (toMultiEventsResult enrichSubResult)
                      else enrichWithChargeInfo sr ev))))"

definition EnrichEvent :: "surroundings \<Rightarrow> Event \<Rightarrow> panic + EnrichedEvent list result \<times> Event" where
  "EnrichEvent sr event =
     (let enrichedEventResult = ToEnrichedEvent (sr_cvt sr) event
      in if Failure enrichedEventResult
         then Inr (failedMultiEventsResult enrichedEventResult ''build_enriched_event''
                     ''Error while converting event to enriched event'', event)
         else
           (let enrichedEvent = the (Value enrichedEventResult);
                bmResult = FetchBillableMetric (sr_apiStore sr) (ev_OrganizationID event) (ev_Code event)
            in if Failure bmResult
               then Inr (failedMultiEventsResult bmResult ''fetch_billable_metric''
                           ''Error fetching billable metric'', event)
               else
                 (case (case Value bmResult of
                          None \<Rightarrow> Inr (SuccessResult (Some enrichedEvent), enrichedEvent)
                        | Some bm \<Rightarrow> enrichWithBillableMetric sr enrichedEvent bm) of
                    Inl p \<Rightarrow> Inl p
                  | Inr (enrichBmResult, ev) \<Rightarrow>
                      (if Failure enrichBmResult
                       then Inr (toMultiEventsResult enrichBmResult, ee_InitialEvent ev)
                       else
                         (case enrich_subscription sr (ee_InitialEvent ev) ev of
                            Inl p \<Rightarrow> Inl p
                          | Inr r \<Rightarrow> Inr (r, ee_InitialEvent ev))))))"

section \<open>The reference\<close>

text \<open>The filters of one charge and the events that a list of charges gives.\<close>

definition charge_filters :: "FlatFilter list \<Rightarrow> string \<Rightarrow> FlatFilter list" where
  "charge_filters filters c = List.filter (\<lambda>f. ff_ChargeID f = c) filters"

definition charge_events :: "EnrichedEvent \<Rightarrow> FlatFilter list \<Rightarrow> string list \<Rightarrow> EnrichedEvent list" where
  "charge_events ev filters cs =
     map (\<lambda>c. charged_copy ev (the (best_filter_spec (charge_filters filters c) ev))) cs"

text \<open>
  An enriched event that still is the given event: its own fields are those of the event, and the
  event behind it differs at most in the shared map.
\<close>

definition stems_from :: "Event \<Rightarrow> EnrichedEvent \<Rightarrow> bool" where
  "stems_from event ee \<longleftrightarrow>
     ee_InitialEvent ee = event\<lparr>ev_Properties := ee_Properties ee\<rparr> \<and>
     ee_OrganizationID ee = ev_OrganizationID event \<and>
     ee_ExternalSubscriptionID ee = ev_ExternalSubscriptionID event \<and>
     ee_TransactionID ee = ev_TransactionID event \<and> ee_Code ee = ev_Code event \<and>
     ee_PreciseTotalAmountCents ee = ev_PreciseTotalAmountCents event \<and>
     ee_Source ee = ev_Source event"

text \<open>The codes of a failed enrichment, with the flags that go with each.\<close>

definition enrichment_failure :: "string \<Rightarrow> bool \<Rightarrow> bool \<Rightarrow> bool" where
  "enrichment_failure code retryable capturable \<longleftrightarrow>
     (code = ''build_enriched_event'' \<and> \<not> retryable \<and> capturable) \<or>
     (code = ''fetch_billable_metric'' \<and> retryable = capturable) \<or>
     (code = ''evaluate_expression'' \<and> \<not> retryable \<and> capturable) \<or>
     (code = ''fetch_subscription'' \<and> retryable \<and> capturable) \<or>
     (code = [] \<and> retryable \<and> capturable)"

section \<open>Lemmas\<close>

lemma failedResult_simps [simp]:
  "Failure (failedResult r c m)" "Error (failedResult r c m) = Some (the (Error r))"
  "IsRetryable (failedResult r c m) = IsRetryable r" "IsCapturable (failedResult r c m) = IsCapturable r"
  "ErrorCode (failedResult r c m) = c" "ErrorMessage (failedResult r c m) = m"
  "Value (failedResult r c m) = None"
  by (simp_all add: failedResult_def result_simps)

lemma failedMultiEventsResult_simps [simp]:
  "Failure (failedMultiEventsResult r c m)" "Error (failedMultiEventsResult r c m) = Some (the (Error r))"
  "IsRetryable (failedMultiEventsResult r c m) = IsRetryable r"
  "IsCapturable (failedMultiEventsResult r c m) = IsCapturable r"
  "ErrorCode (failedMultiEventsResult r c m) = c" "ErrorMessage (failedMultiEventsResult r c m) = m"
  "Value (failedMultiEventsResult r c m) = []"
  by (simp_all add: failedMultiEventsResult_def result_simps)

lemma enrichment_failure_codes:
  "\<not> retryable \<and> capturable \<Longrightarrow> enrichment_failure ''build_enriched_event'' retryable capturable"
  "retryable = capturable \<Longrightarrow> enrichment_failure ''fetch_billable_metric'' retryable capturable"
  "\<not> retryable \<and> capturable \<Longrightarrow> enrichment_failure ''evaluate_expression'' retryable capturable"
  "code \<in> {''fetch_subscription'', []} \<and> retryable \<and> capturable \<Longrightarrow> enrichment_failure code retryable capturable"
  by (simp_all add: enrichment_failure_def)

lemma not_failure_iff: "\<not> Failure r \<longleftrightarrow> Success r"
  by (simp add: result_simps)

lemma ErrorCode_FailedResult [simp]: "ErrorCode (FailedResult z e) = []"
  by (simp add: result_simps)

lemma property_upsert: "property (Some (upsert k v m)) j = (if j = k then v else property (Some m) j)"
  by (auto simp: property_def map_of_upsert)

lemma map_of_grouped_by_loop:
  "map_of (grouped_by_loop ps ks m) k = (if k \<in> set ks then Some (sprint_v (property ps k)) else map_of m k)"
  by (induction ps ks m rule: grouped_by_loop.induct) (auto simp: map_of_upsert)

lemma distinct_grouped_by_loop: "distinct (keys m) \<Longrightarrow> distinct (keys (grouped_by_loop ps ks m))"
  by (induction ps ks m rule: grouped_by_loop.induct) (auto simp: distinct_keys_upsert)

lemma index_loop_of:
  "map_of (index_loop fs charges) c =
   (if map_of charges c = None \<and> charge_filters fs c = [] then None
    else Some ((case map_of charges c of None \<Rightarrow> [] | Some xs \<Rightarrow> xs) @ charge_filters fs c))"
  by (induction fs charges rule: index_loop.induct)
    (auto simp: map_of_upsert charge_filters_def Let_def split: option.splits)

lemma index_loop_keys:
  "set (keys (index_loop fs charges)) = set (keys charges) \<union> ff_ChargeID ` set fs"
  "distinct (keys charges) \<Longrightarrow> distinct (keys (index_loop fs charges))"
  by (induction fs charges rule: index_loop.induct)
    (auto simp: keys_upsert distinct_keys_upsert Let_def split: option.splits)

lemma charge_filters_ne: "c \<in> ff_ChargeID ` set fs \<Longrightarrow> charge_filters fs c \<noteq> []"
  by (auto simp: charge_filters_def filter_empty_conv)

lemma charges_loop_events:
  "set cs \<subseteq> ff_ChargeID ` set fs \<Longrightarrow>
   charges_loop ev (index_loop fs []) cs acc = Inr (acc @ charge_events ev fs cs)"
proof (induction cs arbitrary: acc)
  case Nil
  then show ?case by (simp add: charge_events_def)
next
  case (Cons c cs)
  then have "charge_filters fs c \<noteq> []" by (intro charge_filters_ne) simp
  then obtain f where f: "MatchingFilter (charge_filters fs c) ev = Some f"
    and "map_of (index_loop fs []) c = Some (charge_filters fs c)"
    using MatchingFilter_Some by (fastforce simp: index_loop_of)
  with Cons show ?case by (simp add: charge_events_def MatchingFilter_spec [symmetric])
qed

lemma FetchFlatFilters_simps:
  "db_FindFilters db (flat_filters_query p c) = Inr fs \<Longrightarrow> FetchFlatFilters db p c = SuccessResult fs"
  "db_FindFilters db (flat_filters_query p c) = Inl e \<Longrightarrow> FetchFlatFilters db p c = FailedResult [] e"
  by (simp_all add: FetchFlatFilters_def)

lemma enrichWithChargeInfo_charges:
  assumes "range_ok sr" and "ee_Subscription ev \<noteq> None"
    and "db_FindFilters (sr_apiStore sr) (flat_filters_query (ee_PlanID ev) (ee_Code ev)) = Inr fs"
    and "fs \<noteq> []"
  shows "\<exists>cs. distinct cs \<and> set cs = ff_ChargeID ` set fs \<and>
    enrichWithChargeInfo sr ev = Inr (SuccessResult (charge_events ev fs cs))"
proof -
  let ?cs = "sr_range sr (keys (index_loop fs []))"
  have m: "mset ?cs = mset (keys (index_loop fs []))" using assms(1) by (simp add: range_ok_def)
  have "set ?cs = ff_ChargeID ` set fs"
    using mset_eq_setD [OF m] index_loop_keys(1) [of fs "[]"] by simp
  moreover have "distinct ?cs"
    using mset_eq_imp_distinct_iff [OF m] index_loop_keys(2) [of "[]" fs] by simp
  moreover have "enrichWithChargeInfo sr ev = Inr (SuccessResult (charge_events ev fs ?cs))"
    using assms(2-4) calculation(1)
    by (auto simp: enrichWithChargeInfo_def FetchFlatFilters_simps charges_loop_events)
  ultimately show ?thesis by blast
qed

lemma charged_copy_charge: "ee_ChargeID (charged_copy ev f) = Some (ff_ChargeID f)"
  by (simp add: charged_copy_def enrichWithPricingGroupKeys_def split: option.splits)

lemma best_filter_charge:
  assumes "charge_filters fs c \<noteq> []"
  shows "ff_ChargeID (the (best_filter_spec (charge_filters fs c) ev)) = c"
proof -
  obtain f where f: "MatchingFilter (charge_filters fs c) ev = Some f"
    using MatchingFilter_Some [OF assms] by blast
  have "ff_ChargeID f = c"
    by (rule MatchingFilter_charge [OF f]) (simp add: charge_filters_def)
  with f show ?thesis by (simp add: MatchingFilter_spec)
qed

lemma charge_events_ids:
  "set cs \<subseteq> ff_ChargeID ` set fs \<Longrightarrow> map ee_ChargeID (charge_events ev fs cs) = map Some cs"
  by (auto simp: charge_events_def charged_copy_charge best_filter_charge charge_filters_ne)

lemma stems_from_updates:
  "stems_from event ee \<Longrightarrow> stems_from event (charged_copy ee f)"
  "stems_from event ee \<Longrightarrow> stems_from event (snd (enrichWithSubscription ee sub))"
  by (auto simp: stems_from_def charged_copy_def enrichWithPricingGroupKeys_def
    enrichWithSubscription_def Let_def split: option.splits)

lemma set_property_stems:
  "set_property k v ee = Inr ee' \<Longrightarrow> stems_from event ee \<Longrightarrow> stems_from event ee'"
  by (auto simp: set_property_def stems_from_def Let_def split: option.splits)

lemma evaluateExpression_stems:
  "evaluateExpression sr ee bm = Inr (r, ee') \<Longrightarrow> stems_from event ee \<Longrightarrow> stems_from event ee'"
  by (auto simp: evaluateExpression_def set_property_stems split: if_splits sum.splits option.splits)

lemma evaluateExpression_flags:
  "evaluateExpression sr ee bm = Inr (r, ee') \<Longrightarrow> Failure r \<Longrightarrow> \<not> IsRetryable r \<and> IsCapturable r"
  by (auto simp: evaluateExpression_def split: if_splits sum.splits option.splits)

lemma evaluateExpression_panic:
  "evaluateExpression sr ee bm = Inl p \<Longrightarrow>
   p = nil_map_write \<and> ee_Properties ee = None \<and> bm_Expression bm \<noteq> []"
  by (auto simp: evaluateExpression_def set_property_def Let_def split: if_splits sum.splits option.splits)

lemma enrichWithBillableMetric_stems:
  assumes "enrichWithBillableMetric sr ee bm = Inr (r, ee')" and "stems_from event ee"
  shows "stems_from event ee'"
proof -
  have "stems_from event (ee\<lparr>ee_BillableMetric := b, ee_AggregationType := a\<rparr>)" for a b
    using assms(2) by (simp add: stems_from_def)
  moreover have "stems_from event (x\<lparr>ee_Value := v\<rparr>)" if "stems_from event x" for x v
    using that by (simp add: stems_from_def)
  ultimately show ?thesis
    using assms(1) evaluateExpression_stems
    by (fastforce simp: enrichWithBillableMetric_def Let_def split: if_splits sum.splits)
qed

lemma enrichWithBillableMetric_failure:
  "enrichWithBillableMetric sr ee bm = Inr (r, ee') \<Longrightarrow> Failure r \<Longrightarrow>
   ErrorCode r = ''evaluate_expression'' \<and> \<not> IsRetryable r \<and> IsCapturable r"
  using evaluateExpression_flags
  by (fastforce simp: enrichWithBillableMetric_def Let_def split: if_splits sum.splits)

lemma enrichWithBillableMetric_panic:
  "enrichWithBillableMetric sr ee bm = Inl p \<Longrightarrow>
   p = nil_map_write \<and> ee_Properties ee = None \<and> ee_Source ee \<noteq> HTTP_RUBY \<and> bm_Expression bm \<noteq> []"
  by (auto simp: enrichWithBillableMetric_def Let_def dest!: evaluateExpression_panic
    split: if_splits sum.splits)

lemma ToEnrichedEvent_ok:
  "\<not> Failure (ToEnrichedEvent cvt event) \<Longrightarrow>
   Value (ToEnrichedEvent cvt event) =
     Some ((initial_enriched event)\<lparr>ee_Timestamp := Value (ToFloat64Timestamp (ev_Timestamp event)),
       ee_TimestampStr := format_f (Value (ToFloat64Timestamp (ev_Timestamp event))),
       ee_Time := Value (ToTime cvt (ev_Timestamp event))\<rparr>)"
  by (simp add: ToEnrichedEvent_def Let_def split: if_splits)

lemma ToEnrichedEvent_failure:
  "Failure (ToEnrichedEvent cvt event) \<Longrightarrow>
   \<not> IsRetryable (ToEnrichedEvent cvt event) \<and> IsCapturable (ToEnrichedEvent cvt event)"
  by (simp add: ToEnrichedEvent_def Let_def split: if_splits)

lemma ToEnrichedEvent_stems:
  "\<not> Failure (ToEnrichedEvent cvt event) \<Longrightarrow> stems_from event (the (Value (ToEnrichedEvent cvt event)))"
  by (simp add: ToEnrichedEvent_ok stems_from_def initial_enriched_def)

text \<open>The charge step: it never panics, and what it gives is one of the two shapes of a success.\<close>

lemma enrichWithChargeInfo_total:
  assumes "range_ok sr"
  shows "\<exists>r. enrichWithChargeInfo sr ev = Inr r \<and>
    (Failure r \<longrightarrow> ErrorCode r = [] \<and> IsRetryable r \<and> IsCapturable r) \<and>
    (\<not> Failure r \<longrightarrow> Value r = [ev] \<or>
       ee_Subscription ev \<noteq> None \<and>
       (\<exists>fs cs. cs \<noteq> [] \<and> set cs \<subseteq> ff_ChargeID ` set fs \<and> Value r = charge_events ev fs cs))"
proof (cases "ee_Subscription ev = None")
  case True
  then show ?thesis by (simp add: enrichWithChargeInfo_def)
next
  case sub: False
  show ?thesis
  proof (cases "db_FindFilters (sr_apiStore sr) (flat_filters_query (ee_PlanID ev) (ee_Code ev))")
    case (Inl e)
    then show ?thesis using sub by (auto simp: enrichWithChargeInfo_def FetchFlatFilters_simps)
  next
    case (Inr fs)
    show ?thesis
    proof (cases "fs = []")
      case True
      then show ?thesis using sub Inr by (auto simp: enrichWithChargeInfo_def FetchFlatFilters_simps)
    next
      case False
      from enrichWithChargeInfo_charges [OF assms sub Inr this] obtain cs
        where cs: "set cs = ff_ChargeID ` set fs"
          and r: "enrichWithChargeInfo sr ev = Inr (SuccessResult (charge_events ev fs cs))" by blast
      have "cs \<noteq> []" using cs False by auto
      then have "\<exists>fs' cs'. cs' \<noteq> [] \<and> set cs' \<subseteq> ff_ChargeID ` set fs' \<and>
          charge_events ev fs cs = charge_events ev fs' cs'"
        using cs by (intro exI [of _ fs] exI [of _ cs]) simp
      then show ?thesis using sub r by simp
    qed
  qed
qed

text \<open>The same for the part after the metric; the event it charges may have got a subscription.\<close>

lemma enrich_subscription_total:
  assumes "range_ok sr"
  shows "\<exists>r. enrich_subscription sr event ee = Inr r \<and>
    (Failure r \<longrightarrow> ErrorCode r \<in> {''fetch_subscription'', []} \<and> IsRetryable r \<and> IsCapturable r) \<and>
    (\<not> Failure r \<longrightarrow> (\<exists>ev. (ev = ee \<or> (\<exists>sub. ev = snd (enrichWithSubscription ee sub))) \<and>
       (Value r = [ev] \<or> ee_Subscription ev \<noteq> None \<and>
         (\<exists>fs cs. cs \<noteq> [] \<and> set cs \<subseteq> ff_ChargeID ` set fs \<and> Value r = charge_events ev fs cs))))"
proof -
  let ?r = "FetchSubscription (sr_apiStore sr) (ev_OrganizationID event) (ev_ExternalSubscriptionID event)
    (ee_Time ee)"
  have flags: "Failure ?r \<Longrightarrow> IsCapturable ?r \<Longrightarrow> IsRetryable ?r"
    by (auto simp: FetchSubscription_def failedSubscriptionResult_def Let_def split: sum.splits option.splits if_splits)
  have charge: "\<exists>r. enrichWithChargeInfo sr ev = Inr r \<and>
      (Failure r \<longrightarrow> ErrorCode r \<in> {''fetch_subscription'', []} \<and> IsRetryable r \<and> IsCapturable r) \<and>
      (\<not> Failure r \<longrightarrow> Value r = [ev] \<or> ee_Subscription ev \<noteq> None \<and>
         (\<exists>fs cs. cs \<noteq> [] \<and> set cs \<subseteq> ff_ChargeID ` set fs \<and> Value r = charge_events ev fs cs))" for ev
    using enrichWithChargeInfo_total [OF assms, of ev] by auto
  show ?thesis
  proof (cases "Failure ?r \<and> IsCapturable ?r")
    case True
    then show ?thesis using flags by (simp add: enrich_subscription_def)
  next
    case False
    show ?thesis
    proof (cases "Value ?r")
      case None
      then have "enrich_subscription sr event ee = enrichWithChargeInfo sr ee"
        using False by (auto simp: enrich_subscription_def Let_def)
      then show ?thesis using charge [of ee] by auto
    next
      case (Some sub)
      then have "enrich_subscription sr event ee = enrichWithChargeInfo sr (snd (enrichWithSubscription ee sub))"
        using False by (auto simp: enrich_subscription_def enrichWithSubscription_def Let_def)
      then show ?thesis using charge [of "snd (enrichWithSubscription ee sub)"] by auto
    qed
  qed
qed

lemma enrich_subscription_success:
  assumes "range_ok sr" and "enrich_subscription sr event ee = Inr r" and "\<not> Failure r"
  obtains ev where "ev = ee \<or> (\<exists>sub. ev = snd (enrichWithSubscription ee sub))"
    and "Value r = [ev] \<or> (\<exists>fs cs. cs \<noteq> [] \<and> Value r = charge_events ev fs cs)"
  using enrich_subscription_total [OF assms(1), of event ee] assms(2,3)
  by (metis sum.inject(2))

lemma enrich_subscription_failure:
  assumes "range_ok sr" and "enrich_subscription sr event ee = Inr r" and "Failure r"
  shows "ErrorCode r \<in> {''fetch_subscription'', []} \<and> IsRetryable r \<and> IsCapturable r"
  using enrich_subscription_total [OF assms(1), of event ee] assms(2,3) by (metis sum.inject(2))

text \<open>The event that reaches the subscription step.\<close>

definition metric_step :: "surroundings \<Rightarrow> Event \<Rightarrow> panic + EnrichedEvent option result \<times> EnrichedEvent" where
  "metric_step sr event =
     (let enrichedEvent = the (Value (ToEnrichedEvent (sr_cvt sr) event))
      in case Value (FetchBillableMetric (sr_apiStore sr) (ev_OrganizationID event) (ev_Code event)) of
           None \<Rightarrow> Inr (SuccessResult (Some enrichedEvent), enrichedEvent)
         | Some bm \<Rightarrow> enrichWithBillableMetric sr enrichedEvent bm)"

lemma metric_step_stems:
  "metric_step sr event = Inr (r, ev) \<Longrightarrow> \<not> Failure (ToEnrichedEvent (sr_cvt sr) event) \<Longrightarrow> stems_from event ev"
  by (auto simp: metric_step_def Let_def dest: ToEnrichedEvent_stems enrichWithBillableMetric_stems
    split: option.splits)

lemma metric_step_failure:
  "metric_step sr event = Inr (r, ev) \<Longrightarrow> Failure r \<Longrightarrow>
   ErrorCode r = ''evaluate_expression'' \<and> \<not> IsRetryable r \<and> IsCapturable r"
  by (auto simp: metric_step_def Let_def dest: enrichWithBillableMetric_failure split: option.splits)

lemma EnrichEvent_early:
  "Failure (ToEnrichedEvent (sr_cvt sr) event) \<Longrightarrow>
   EnrichEvent sr event = Inr (failedMultiEventsResult (ToEnrichedEvent (sr_cvt sr) event)
     ''build_enriched_event'' ''Error while converting event to enriched event'', event)"
  "\<not> Failure (ToEnrichedEvent (sr_cvt sr) event) \<Longrightarrow>
   Failure (FetchBillableMetric (sr_apiStore sr) (ev_OrganizationID event) (ev_Code event)) \<Longrightarrow>
   EnrichEvent sr event = Inr (failedMultiEventsResult
     (FetchBillableMetric (sr_apiStore sr) (ev_OrganizationID event) (ev_Code event))
     ''fetch_billable_metric'' ''Error fetching billable metric'', event)"
  by (simp_all add: EnrichEvent_def Let_def)

lemma EnrichEvent_not_early:
  assumes "\<And>r e. EnrichEvent sr event = Inr (r, e) \<Longrightarrow> \<not> Failure r"
  shows "\<not> Failure (ToEnrichedEvent (sr_cvt sr) event)"
    and "\<not> Failure (FetchBillableMetric (sr_apiStore sr) (ev_OrganizationID event) (ev_Code event))"
  using assms EnrichEvent_early [of sr event] by fastforce+

lemma EnrichEvent_steps:
  assumes "\<not> Failure (ToEnrichedEvent (sr_cvt sr) event)"
    and "\<not> Failure (FetchBillableMetric (sr_apiStore sr) (ev_OrganizationID event) (ev_Code event))"
  shows "EnrichEvent sr event =
    (case metric_step sr event of
       Inl p \<Rightarrow> Inl p
     | Inr (r, ev) \<Rightarrow>
         (if Failure r then Inr (toMultiEventsResult r, ee_InitialEvent ev)
          else
            (case enrich_subscription sr (ee_InitialEvent ev) ev of
               Inl p \<Rightarrow> Inl p | Inr r' \<Rightarrow> Inr (r', ee_InitialEvent ev))))"
  using assms by (simp add: EnrichEvent_def metric_step_def Let_def split: option.split)

section \<open>Sample data\<close>

definition sample_metric :: "string \<Rightarrow> BillableMetric" where
  "sample_metric expression =
     \<lparr>bm_ID = ''bm'', bm_OrganizationID = ''org'', bm_Code = ''api'', bm_AggregationType = 1,
      bm_FieldName = ''total'', bm_Expression = expression, bm_CreatedAt = 0, bm_UpdatedAt = 0,
      bm_DeletedAt = None\<rparr>"

text \<open>One subscription with two charges; the expression library answers 42.\<close>

definition sample_surroundings :: "string \<Rightarrow> surroundings" where
  "sample_surroundings expression =
     \<lparr>sr_cvt = (\<lambda>x. 0),
      sr_apiStore = sample_db\<lparr>db_First := (\<lambda>q. Inr (sample_metric expression)),
        db_FindFilters := (\<lambda>q. Inr [sample_filter [(''scheme'', [''visa''])],
                              (sample_filter [])\<lparr>ff_ChargeID := ''other''\<rparr>])\<rparr>,
      sr_Evaluate = (\<lambda>e j. Some ''42''), sr_range = (\<lambda>ks. ks)\<rparr>"

definition sample_raw :: "properties \<Rightarrow> Event" where
  "sample_raw ps =
     zero_event\<lparr>ev_OrganizationID := ''org'', ev_ExternalSubscriptionID := ''ext'', ev_Code := ''api'',
       ev_Properties := ps, ev_Timestamp := GStr ''5''\<rparr>"

lemma sample_range_ok [simp]: "range_ok (sample_surroundings e)"
  by (simp add: range_ok_def sample_surroundings_def)

lemma EnrichEvent_panic:
  assumes "range_ok sr" and "EnrichEvent sr event = Inl p"
  shows "p = nil_map_write \<and> ev_Properties event = None \<and> ev_Source event \<noteq> HTTP_RUBY \<and>
    (\<exists>bm. db_First (sr_apiStore sr) (billable_metric_query (ev_OrganizationID event) (ev_Code event)) = Inr bm \<and>
          bm_Expression bm \<noteq> [])"
proof -
  have ok: "\<not> Failure (ToEnrichedEvent (sr_cvt sr) event)"
    and found: "\<not> Failure (FetchBillableMetric (sr_apiStore sr) (ev_OrganizationID event) (ev_Code event))"
    using EnrichEvent_not_early [of sr event] assms(2) by simp_all
  have "metric_step sr event = Inl p"
  proof (cases "metric_step sr event")
    case (Inr x)
    then show ?thesis
      using assms(2) enrich_subscription_total [OF assms(1), of "ee_InitialEvent (snd x)" "snd x"]
      by (cases x) (auto simp: EnrichEvent_steps [OF ok found] split: if_splits)
  qed (use assms(2) EnrichEvent_steps [OF ok found] in simp)
  then obtain bm where bm: "Value (FetchBillableMetric (sr_apiStore sr) (ev_OrganizationID event) (ev_Code event)) = Some bm"
    and p: "enrichWithBillableMetric sr (the (Value (ToEnrichedEvent (sr_cvt sr) event))) bm = Inl p"
    by (auto simp: metric_step_def Let_def split: option.splits)
  from bm found have "db_First (sr_apiStore sr)
      (billable_metric_query (ev_OrganizationID event) (ev_Code event)) = Inr bm"
    by (auto simp: FetchBillableMetric_def failedBillabmeMetricResult_def Let_def split: sum.splits if_splits)
  with enrichWithBillableMetric_panic [OF p] ok show ?thesis
    by (simp add: ToEnrichedEvent_ok initial_enriched_def)
qed

lemma EnrichEvent_success:
  assumes "range_ok sr" and "EnrichEvent sr event = Inr (r, event')" and "Success r"
  shows "Value r \<noteq> [] \<and> (\<forall>ee \<in> set (Value r). stems_from event ee \<and> ee_InitialEvent ee = event') \<and>
    event' = event\<lparr>ev_Properties := ev_Properties event'\<rparr>"
proof -
  have ok: "\<not> Failure (ToEnrichedEvent (sr_cvt sr) event)"
    and found: "\<not> Failure (FetchBillableMetric (sr_apiStore sr) (ev_OrganizationID event) (ev_Code event))"
    using EnrichEvent_not_early [of sr event] assms(2,3) by (simp_all add: not_failure_iff)
  obtain r' ev where step: "metric_step sr event = Inr (r', ev)" and ok': "\<not> Failure r'"
    and sub: "enrich_subscription sr (ee_InitialEvent ev) ev = Inr r" and event': "event' = ee_InitialEvent ev"
    using assms(2,3) by (auto simp: EnrichEvent_steps [OF ok found] toMultiEventsResult_def not_failure_iff [symmetric]
      split: sum.splits if_splits)
  have ev: "stems_from event ev" by (rule metric_step_stems [OF step ok])
  have "\<not> Failure r" using assms(3) by (simp add: not_failure_iff)
  then obtain ev' where from_ev: "ev' = ev \<or> (\<exists>sub. ev' = snd (enrichWithSubscription ev sub))"
    and v: "Value r = [ev'] \<or> (\<exists>fs cs. cs \<noteq> [] \<and> Value r = charge_events ev' fs cs)"
    by (rule enrich_subscription_success [OF assms(1) sub]) blast
  have ev': "stems_from event ev'" "ee_InitialEvent ev' = event'"
    using from_ev ev event' stems_from_updates(2) [OF ev]
    by (auto simp: enrichWithSubscription_def Let_def)
  have "ee_InitialEvent (charged_copy ev' f) = event'" for f
    using ev'(2) by (simp add: charged_copy_def enrichWithPricingGroupKeys_def split: option.splits)
  with ev' v have "Value r \<noteq> [] \<and> (\<forall>ee \<in> set (Value r). stems_from event ee \<and> ee_InitialEvent ee = event')"
    by (auto simp: charge_events_def stems_from_updates)
  moreover have "event' = event\<lparr>ev_Properties := ev_Properties event'\<rparr>"
    using ev event' by (cases event) (simp add: stems_from_def)
  ultimately show ?thesis by simp
qed

section \<open>Properties\<close>

text \<open>
  C24: enriching never panics unless the event has no properties at all and its metric's custom
  expression gives a value, and then the panic is the write into the \<open>nil\<close> map: the choice of a
  filter never meets an empty slice.
\<close>

theorem enrich_event_panic:
  assumes "range_ok sr" and "EnrichEvent sr event = Inl p"
  shows "p = nil_map_write \<and> ev_Properties event = None \<and> ev_Source event \<noteq> HTTP_RUBY \<and>
    (\<exists>bm. db_First (sr_apiStore sr) (billable_metric_query (ev_OrganizationID event) (ev_Code event)) = Inr bm \<and>
          bm_Expression bm \<noteq> [])"
  using assms by (rule EnrichEvent_panic)

theorem enrich_event_panic_witness:
  "EnrichEvent (sample_surroundings ''a + b'') (sample_raw None) = Inl nil_map_write \<and>
   ev_Properties (sample_raw None) = None"
proof -
  have "EnrichEvent (sample_surroundings ''a + b'') (sample_raw None) = Inl nil_map_write"
    by code_simp
  from this enrich_event_panic [OF sample_range_ok this] show ?thesis by simp
qed

text \<open>
  C22: a successful enrichment gives at least one event (so the caller's index 0 exists), and every
  event it gives still is the raw event: organization, subscription, transaction, code, amount and
  source are unchanged, and the raw event behind it is the one that the caller is left with, which
  differs from the original at most in the properties.
\<close>

theorem enrich_event_success:
  assumes "range_ok sr" and "EnrichEvent sr event = Inr (r, event')" and "Success r"
  shows "Value r \<noteq> [] \<and> (\<forall>ee \<in> set (Value r). stems_from event ee \<and> ee_InitialEvent ee = event') \<and>
    event' = event\<lparr>ev_Properties := ev_Properties event'\<rparr>"
  using assms by (rule EnrichEvent_success)

theorem enrich_event_success_witness:
  "case EnrichEvent (sample_surroundings ''a + b'') (sample_raw (Some [])) of
     Inl p \<Rightarrow> False | Inr (r, event') \<Rightarrow> Value r \<noteq> []"
proof -
  let ?e = "EnrichEvent (sample_surroundings ''a + b'') (sample_raw (Some []))"
  have ok: "case ?e of Inl p \<Rightarrow> False | Inr (r, e) \<Rightarrow> Success r" by code_simp
  then obtain r e where re: "?e = Inr (r, e)" and "Success r" by (auto split: sum.splits prod.splits)
  from enrich_event_success [OF sample_range_ok this] re show ?thesis by simp
qed

text \<open>
  C23: a failed enrichment says where it failed and keeps the flags of that step: a timestamp that
  cannot be read and an expression that cannot be evaluated are final and captured; a metric or
  a subscription that cannot be fetched is retried and captured, and a metric that does not exist
  is neither; filters that cannot be fetched are retried and captured, without a code. It never
  gives events.
\<close>

theorem enrich_event_failure:
  assumes "range_ok sr" and "EnrichEvent sr event = Inr (r, event')" and "Failure r"
  shows "enrichment_failure (ErrorCode r) (IsRetryable r) (IsCapturable r) \<and>
    (\<not> IsCapturable r \<longrightarrow> Error r = Some ErrRecordNotFound)"
proof -
  let ?bm = "FetchBillableMetric (sr_apiStore sr) (ev_OrganizationID event) (ev_Code event)"
  consider (build) "Failure (ToEnrichedEvent (sr_cvt sr) event)"
    | (metric) "\<not> Failure (ToEnrichedEvent (sr_cvt sr) event)" "Failure ?bm"
    | (later) "\<not> Failure (ToEnrichedEvent (sr_cvt sr) event)" "\<not> Failure ?bm" by blast
  then show ?thesis
  proof cases
    case build
    then show ?thesis using assms(2) ToEnrichedEvent_failure [OF build]
      by (auto simp: EnrichEvent_early intro: enrichment_failure_codes(1))
  next
    case metric
    then have "IsRetryable ?bm = IsCapturable ?bm \<and> (\<not> IsCapturable ?bm \<longrightarrow> Error ?bm = Some ErrRecordNotFound)"
      by (auto simp: FetchBillableMetric_def failedBillabmeMetricResult_def Let_def split: sum.splits if_splits)
    then show ?thesis using assms(2) metric
      by (auto simp: EnrichEvent_early intro: enrichment_failure_codes(2))
  next
    case later
    show ?thesis
    proof (cases "metric_step sr event")
      case (Inl p)
      then show ?thesis using assms(2) by (simp add: EnrichEvent_steps [OF later])
    next
      case (Inr x)
      obtain r' ev where x: "x = (r', ev)" by (cases x)
      show ?thesis
      proof (cases "Failure r'")
        case True
        then show ?thesis using assms(2) Inr x metric_step_failure [of sr event r' ev]
          by (auto simp: EnrichEvent_steps [OF later] toMultiEventsResult_def intro: enrichment_failure_codes(3))
      next
        case False
        then have "enrich_subscription sr (ee_InitialEvent ev) ev = Inr r"
          using assms(2) Inr x by (simp add: EnrichEvent_steps [OF later] split: sum.splits)
        from enrich_subscription_failure [OF assms(1) this assms(3)]
        show ?thesis by (simp add: enrichment_failure_codes(4))
      qed
    qed
  qed
qed

theorem enrich_event_failure_witness:
  "case EnrichEvent (sample_surroundings []) ((sample_raw None)\<lparr>ev_Timestamp := GStr ''soon''\<rparr>) of
     Inl p \<Rightarrow> False
   | Inr (r, event') \<Rightarrow> enrichment_failure (ErrorCode r) (IsRetryable r) (IsCapturable r) \<and> IsCapturable r"
proof -
  let ?e = "EnrichEvent (sample_surroundings []) ((sample_raw None)\<lparr>ev_Timestamp := GStr ''soon''\<rparr>)"
  have ok: "case ?e of Inl p \<Rightarrow> False | Inr (r, e) \<Rightarrow> Failure r \<and> Error r \<noteq> Some ErrRecordNotFound" by code_simp
  then obtain r e where re: "?e = Inr (r, e)" and f: "Failure r" and c: "Error r \<noteq> Some ErrRecordNotFound"
    by (auto split: sum.splits prod.splits)
  from enrich_event_failure [OF sample_range_ok re f] c re show ?thesis by auto
qed

text \<open>
  C20: with a subscription and filters, the event is billed once per charge, whatever order the map
  of charges is met in: the charges of the events are exactly the charges of the filters, none
  twice, and each event is a copy that carries the filter chosen among that charge's filters alone.
\<close>

theorem enrich_once_per_charge:
  assumes "range_ok sr" and "ee_Subscription ev \<noteq> None"
    and "db_FindFilters (sr_apiStore sr) (flat_filters_query (ee_PlanID ev) (ee_Code ev)) = Inr fs"
    and "fs \<noteq> []"
  shows "\<exists>cs. distinct cs \<and> set cs = ff_ChargeID ` set fs \<and>
    enrichWithChargeInfo sr ev = Inr (SuccessResult (map (\<lambda>c.
      charged_copy ev (the (best_filter_spec (charge_filters fs c) ev))) cs)) \<and>
    map (\<lambda>c. ee_ChargeID (charged_copy ev (the (best_filter_spec (charge_filters fs c) ev)))) cs = map Some cs"
proof -
  from enrichWithChargeInfo_charges [OF assms] obtain cs
    where "distinct cs" and cs: "set cs = ff_ChargeID ` set fs"
      and "enrichWithChargeInfo sr ev = Inr (SuccessResult (charge_events ev fs cs))" by blast
  then show ?thesis
    using charge_events_ids [of cs fs ev] by (intro exI [of _ cs]) (simp add: charge_events_def comp_def)
qed

theorem enrich_once_per_charge_witness:
  "\<exists>evs. enrichWithChargeInfo (sample_surroundings [])
       (sample_event\<lparr>ee_Subscription := Some (row_Subscription (sample_subscription ''s'' 0 None))\<rparr>) =
       Inr (SuccessResult evs) \<and> length evs = 2 \<and> set (map ee_ChargeID evs) = {Some ''charge'', Some ''other''}"
proof -
  let ?ev = "sample_event\<lparr>ee_Subscription := Some (row_Subscription (sample_subscription ''s'' 0 None))\<rparr>"
  let ?fs = "[sample_filter [(''scheme'', [''visa''])], (sample_filter [])\<lparr>ff_ChargeID := ''other''\<rparr>]"
  have "db_FindFilters (sr_apiStore (sample_surroundings []))
      (flat_filters_query (ee_PlanID ?ev) (ee_Code ?ev)) = Inr ?fs"
    by (simp add: sample_surroundings_def)
  from enrich_once_per_charge [OF sample_range_ok _ this] obtain cs evs
    where cs: "distinct cs" "set cs = ff_ChargeID ` set ?fs"
      and run: "enrichWithChargeInfo (sample_surroundings []) ?ev = Inr (SuccessResult evs)"
      and ids: "map ee_ChargeID evs = map Some cs"
    by (fastforce simp: comp_def)
  have "set cs = {''charge'', ''other''}" using cs(2) by (simp add: sample_filter_def)
  moreover then have "length cs = 2" using distinct_card [OF cs(1)] by simp
  ultimately show ?thesis using run map_eq_imp_length_eq [OF ids] by (intro exI [of _ evs]) (simp add: ids image_set [symmetric])
qed

text \<open>
  The copy for a charge groups by exactly the pricing group keys of its filter, each with the
  event's property as \<open>%v\<close> prints it (\<open><nil>\<close> when it is missing), and carries the charge and the
  filter with their dates; the value and the properties are those of the event.
\<close>

theorem charged_copy_groups:
  "map_of (ee_GroupedBy (charged_copy ev f)) k =
     (if k \<in> set (case ff_PricingGroupKeys f of None \<Rightarrow> [] | Some ks \<Rightarrow> ks)
      then Some (sprint_v (property (ee_Properties ev) k)) else None) \<and>
   distinct (keys (ee_GroupedBy (charged_copy ev f))) \<and>
   ee_FlatFilter (charged_copy ev f) = Some f \<and>
   ee_ChargeID (charged_copy ev f) = Some (ff_ChargeID f) \<and>
   ee_ChargeUpdatedAt (charged_copy ev f) = Some (ff_ChargeUpdatedAt f) \<and>
   ee_ChargeFilterID (charged_copy ev f) = ff_ChargeFilterID f \<and>
   ee_ChargeFilterUpdatedAt (charged_copy ev f) = ff_ChargeFilterUpdatedAt f \<and>
   ee_Value (charged_copy ev f) = ee_Value ev \<and> ee_Properties (charged_copy ev f) = ee_Properties ev"
  by (simp add: charged_copy_def enrichWithPricingGroupKeys_def map_of_grouped_by_loop
    distinct_grouped_by_loop split: option.split)

text \<open>
  An event without an active subscription is kept: when the database has none, the event goes
  on as it is after its metric, alone, with no subscription and no charge.
\<close>

theorem enrich_without_subscription:
  assumes "db_FindSubscription (sr_apiStore sr) (subscription_query (ev_OrganizationID event)
             (ev_ExternalSubscriptionID event) (ee_Time ee)) = Inr None"
    and "ee_Subscription ee = None"
  shows "enrich_subscription sr event ee = Inr (SuccessResult [ee])"
proof -
  have "Value (FetchSubscription (sr_apiStore sr) (ev_OrganizationID event)
      (ev_ExternalSubscriptionID event) (ee_Time ee)) = None"
    and "\<not> IsCapturable (FetchSubscription (sr_apiStore sr) (ev_OrganizationID event)
      (ev_ExternalSubscriptionID event) (ee_Time ee))"
    using assms(1) fetch_not_found_flags
    by (simp_all add: FetchSubscription_def failedSubscriptionResult_def)
  with assms(2) show ?thesis by (simp add: enrich_subscription_def enrichWithChargeInfo_def Let_def)
qed

theorem enrich_without_subscription_witness:
  "enrich_subscription ((sample_surroundings [])\<lparr>sr_apiStore := sample_db\<lparr>db_FindSubscription := \<lambda>q. Inr None\<rparr>\<rparr>)
     (sample_raw None) sample_event = Inr (SuccessResult [sample_event])"
  by (rule enrich_without_subscription) (simp_all add: sample_event_def initial_enriched_def)

end
