(* ===== verification/Producers.thy ===== *)
theory Producers
  imports Enrichment
begin

text \<open>
  \<open>config/kafka/producer.go\<close> and \<open>processors/events_processor/event_producer_service.go\<close>: how events
  leave for the Kafka topics. An operation takes the effects its goroutine had so far and gives
  them back with its own at the end.
\<close>

section \<open>The Kafka producer\<close>

text \<open>\<open>MessageProducer\<close>: its two methods. A message is its key and its value, \<open>nil\<close> is \<open>None\<close>.\<close>

type_synonym produce = "string option \<Rightarrow> string option \<Rightarrow> effect list \<Rightarrow> bool \<times> effect list"

record MessageProducer =
  mp_Produce :: produce
  mp_GetTopic :: string

definition Producer_Produce :: "replies \<Rightarrow> string \<Rightarrow> produce" where
  "Producer_Produce rp topic key val log =
     (case call rp (ProduceSync topic key val) log of
        (Some e, log') \<Rightarrow>
          (False, CaptureError (Some e)
             (log' @ [LogError ''record had a produce error while synchronously producing'']))
      | (None, log') \<Rightarrow> (True, log'))"

definition Producer_GetTopic :: "string \<Rightarrow> string" where
  "Producer_GetTopic topic = topic"

definition NewProducer :: "replies \<Rightarrow> string \<Rightarrow> MessageProducer" where
  "NewProducer rp topic = \<lparr>mp_Produce = Producer_Produce rp topic, mp_GetTopic = Producer_GetTopic topic\<rparr>"

section \<open>The producer service\<close>

record EventProducerService =
  eps_enrichedProducer :: MessageProducer
  eps_enrichedExpendedProducer :: MessageProducer
  eps_inAdvanceProducer :: MessageProducer
  eps_deadLetterProducer :: MessageProducer

text \<open>\<open>now\<close> is the time that the call reads.\<close>

definition failed_event :: "gotime \<Rightarrow> Event \<Rightarrow> 'a result \<Rightarrow> FailedEvent" where
  "failed_event now event errorResult =
     \<lparr>fe_Event = event, fe_InitialErrorMessage = ErrorMsg errorResult,
      fe_ErrorMessage = ErrorMessage errorResult, fe_ErrorCode = ErrorCode errorResult,
      fe_FailedAt = now\<rparr>"

definition ProduceToDeadLetterQueue ::
    "EventProducerService \<Rightarrow> gotime \<Rightarrow> Event \<Rightarrow> 'a result \<Rightarrow> effect list \<Rightarrow> effect list" where
  "ProduceToDeadLetterQueue eps now event errorResult log =
     (let (eventJson, log1) =
            (case marshal_failed (failed_event now event errorResult) of
               Inl e \<Rightarrow> (None, CaptureError (Some e)
                          (log @ [LogError ''error while marshaling failed event with error details'']))
             | Inr s \<Rightarrow> (Some s, log));
          (pushed, log2) = mp_Produce (eps_deadLetterProducer eps) None eventJson log1
      in if \<not> pushed
         then CaptureErrorResultWithExtra errorResult ''event''
                (log2 @ [LogError ''error while pushing to dead letter topic''])
         else log2)"

definition push_failure :: "MessageProducer \<Rightarrow> bool result" where
  "push_failure producer = FailedBoolResult (''Failed to push to '' @ mp_GetTopic producer @ '' topic'')"

definition produceEvent ::
    "EventProducerService \<Rightarrow> gotime \<Rightarrow> EnrichedEvent \<Rightarrow> string \<Rightarrow> MessageProducer \<Rightarrow> effect list \<Rightarrow>
     goerror option \<times> effect list" where
  "produceEvent eps now event msgKey producer log =
     (case marshal_enriched event of
        Inl e \<Rightarrow> (Some e, log)
      | Inr eventJson \<Rightarrow>
          (let (pushed, log1) = mp_Produce producer (Some msgKey) (Some eventJson) log
           in (None,
               if \<not> pushed
               then ProduceToDeadLetterQueue eps now (ee_InitialEvent event) (push_failure producer) log1
               else log1)))"

text \<open>The end of the three producing methods: an event that has no JSON is reported.\<close>

definition report_marshaling :: "string \<Rightarrow> goerror option \<times> effect list \<Rightarrow> effect list" where
  "report_marshaling message r =
     (case r of (None, log) \<Rightarrow> log
      | (Some e, log) \<Rightarrow> CaptureError (Some e) (log @ [LogError message]))"

definition event_key :: "EnrichedEvent \<Rightarrow> string" where
  "event_key event =
     ee_OrganizationID event @ ''-'' @ ee_ExternalSubscriptionID event @ ''-'' @ ee_Code event"

definition ProduceEnrichedEvent ::
    "EventProducerService \<Rightarrow> gotime \<Rightarrow> EnrichedEvent \<Rightarrow> effect list \<Rightarrow> effect list" where
  "ProduceEnrichedEvent eps now event log =
     report_marshaling ''error while marshaling enriched events''
       (produceEvent eps now event (event_key event) (eps_enrichedProducer eps) log)"

fun grouped_by_text :: "(string \<times> string) list \<Rightarrow> string list \<Rightarrow> string \<Rightarrow> string" where
  "grouped_by_text m [] groupedBy = groupedBy"
| "grouped_by_text m (key # ks) groupedBy =
     grouped_by_text m ks
       ((if groupedBy \<noteq> [] then groupedBy @ ''|'' else groupedBy) @ key @ ''/'' @
        (case map_of m key of None \<Rightarrow> [] | Some v \<Rightarrow> v))"

definition expanded_key :: "EnrichedEvent \<Rightarrow> string" where
  "expanded_key event =
     (let chargeID = (case ee_ChargeID event of None \<Rightarrow> [] | Some c \<Rightarrow> c);
          chargeFilterID = (case ee_ChargeFilterID event of None \<Rightarrow> [] | Some c \<Rightarrow> c);
          groupKeys = sort (keys (ee_GroupedBy event));
          groupedBy = grouped_by_text (ee_GroupedBy event) groupKeys []
      in ee_OrganizationID event @ ''-'' @ ee_ExternalSubscriptionID event @ ''-'' @ ee_Code event @ ''-'' @
         chargeID @ ''-'' @ chargeFilterID @ ''-'' @ groupedBy)"

definition ProduceEnrichedExpandedEvent ::
    "EventProducerService \<Rightarrow> gotime \<Rightarrow> EnrichedEvent \<Rightarrow> effect list \<Rightarrow> effect list" where
  "ProduceEnrichedExpandedEvent eps now event log =
     report_marshaling ''error while marshaling enriched expended events''
       (produceEvent eps now event (expanded_key event) (eps_enrichedExpendedProducer eps) log)"

definition ProduceChargedInAdvanceEvent ::
    "EventProducerService \<Rightarrow> gotime \<Rightarrow> EnrichedEvent \<Rightarrow> effect list \<Rightarrow> effect list" where
  "ProduceChargedInAdvanceEvent eps now event log =
     report_marshaling ''error while marshaling charged in advance events''
       (produceEvent eps now event (event_key event) (eps_inAdvanceProducer eps) log)"

section \<open>The interface MessageProducer\<close>

text \<open>Reports go to the log or the error tracker; pushes are the records sent to Kafka.\<close>

fun is_report :: "effect \<Rightarrow> bool" where
  "is_report (LogError m) = True"
| "is_report (CaptureException c m x e) = True"
| "is_report _ = False"

fun is_push :: "effect \<Rightarrow> bool" where
  "is_push (ProduceSync t k v) = True"
| "is_push _ = False"

definition pushes :: "effect list \<Rightarrow> effect list" where
  "pushes log = filter is_push log"

lemma pushes_simps [simp]:
  "pushes [] = []" "pushes (xs @ ys) = pushes xs @ pushes ys"
  "pushes (e # es) = (if is_push e then e # pushes es else pushes es)"
  by (simp_all add: pushes_def)

lemma pushes_reports: "\<forall>e \<in> set es. is_report e \<Longrightarrow> pushes es = []"
  by (induction es) (auto elim: is_report.elims)

lemma Capture_reports [simp]:
  "pushes (CaptureError e log) = pushes log"
  "pushes (CaptureErrorResultWithExtra r x log) = pushes log"
  by (simp_all add: CaptureError_def CaptureErrorResultWithExtra_def)

text \<open>
  What the service relies on: one message gives one record on the producer's topic, as it was given,
  then reports only; there are none, and the answer is true, just when the record is accepted.
\<close>

locale message_producer =
  fixes produce :: produce and topic :: string and accepts :: "effect list \<Rightarrow> effect \<Rightarrow> bool"
  assumes produce_log: "\<exists>reports. snd (produce key val log) = log @ ProduceSync topic key val # reports \<and>
      (\<forall>e \<in> set reports. is_report e) \<and> (fst (produce key val log) \<longleftrightarrow> reports = [])"
    and produce_accepts: "fst (produce key val log) \<longleftrightarrow> accepts log (ProduceSync topic key val)"
begin

lemma produce_pushes:
  "produce key val log = (ok, log') \<Longrightarrow> pushes log' = pushes log @ [ProduceSync topic key val]"
  using produce_log [of key val log] by (auto simp: pushes_reports)

lemma produce_extends: "produce key val log = (ok, log') \<Longrightarrow> \<exists>es. log' = log @ es"
  using produce_log [of key val log] by auto

lemma produce_ok: "produce key val log = (True, log') \<Longrightarrow> log' = log @ [ProduceSync topic key val]"
  using produce_log [of key val log] by auto

lemma produce_answer: "produce key val log = (ok, log') \<Longrightarrow> ok = accepts log (ProduceSync topic key val)"
  using produce_accepts [of key val log] by simp

end

text \<open>The value of a dead letter; it is \<open>nil\<close> when even the failed event has no JSON.\<close>

definition dead_letter :: "gotime \<Rightarrow> Event \<Rightarrow> 'a result \<Rightarrow> string option" where
  "dead_letter now event r =
     (case marshal_failed (failed_event now event r) of Inl e \<Rightarrow> None | Inr s \<Rightarrow> Some s)"

text \<open>A producer beside the producer of the dead letter queue.\<close>

locale dead_letters =
  main: message_producer produce topic accepts + dead: message_producer dproduce dtopic daccepts
  for produce :: produce and topic :: string and accepts :: "effect list \<Rightarrow> effect \<Rightarrow> bool"
    and dproduce :: produce and dtopic :: string and daccepts :: "effect list \<Rightarrow> effect \<Rightarrow> bool" +
  fixes eps :: EventProducerService
  assumes dead_letter_producer: "mp_Produce (eps_deadLetterProducer eps) = dproduce"
begin

lemma dead_letter_pushes:
  "pushes (ProduceToDeadLetterQueue eps now event r log) =
   pushes log @ [ProduceSync dtopic None (dead_letter now event r)]"
  using dead.produce_pushes
  by (auto simp: ProduceToDeadLetterQueue_def dead_letter_def Let_def dead_letter_producer
    split: sum.split prod.split)

lemma dead_letter_extends: "\<exists>es. ProduceToDeadLetterQueue eps now event r log = log @ es"
  using dead.produce_extends
  by (fastforce simp: ProduceToDeadLetterQueue_def Let_def dead_letter_producer CaptureError_def
    CaptureErrorResultWithExtra_def split: sum.split prod.split)

lemma produceEvent_pushes:
  assumes "marshal_enriched event = Inr json" and "mp_Produce p = produce"
  shows "fst (produceEvent eps now event key p log) = None"
    and "pushes (snd (produceEvent eps now event key p log)) =
      pushes log @ ProduceSync topic (Some key) (Some json) #
      (if accepts log (ProduceSync topic (Some key) (Some json)) then []
       else [ProduceSync dtopic None (dead_letter now (ee_InitialEvent event) (push_failure p))])"
proof -
  obtain ok log' where p: "produce (Some key) (Some json) log = (ok, log')" by fastforce
  show "fst (produceEvent eps now event key p log) = None"
    by (simp add: produceEvent_def assms p)
  show "pushes (snd (produceEvent eps now event key p log)) =
      pushes log @ ProduceSync topic (Some key) (Some json) #
      (if accepts log (ProduceSync topic (Some key) (Some json)) then []
       else [ProduceSync dtopic None (dead_letter now (ee_InitialEvent event) (push_failure p))])"
    using main.produce_pushes [OF p] main.produce_answer [OF p]
    by (simp add: produceEvent_def assms p dead_letter_pushes)
qed

end

lemma produceEvent_unmarshalable:
  "marshal_enriched event = Inl e \<Longrightarrow> produceEvent eps now event key p log = (Some e, log)"
  by (simp add: produceEvent_def)

section \<open>The producers of the program\<close>

text \<open>The four producers that \<open>main_processor.go\<close> starts, on the topics of the configuration.\<close>

record topics =
  tp_enriched :: string
  tp_expanded :: string
  tp_in_advance :: string
  tp_dead_letter :: string

definition NewEventProducerService :: "replies \<Rightarrow> topics \<Rightarrow> EventProducerService" where
  "NewEventProducerService rp tps =
     \<lparr>eps_enrichedProducer = NewProducer rp (tp_enriched tps),
      eps_enrichedExpendedProducer = NewProducer rp (tp_expanded tps),
      eps_inAdvanceProducer = NewProducer rp (tp_in_advance tps),
      eps_deadLetterProducer = NewProducer rp (tp_dead_letter tps)\<rparr>"

interpretation kafka: message_producer "Producer_Produce rp topic" topic "\<lambda>log e. rp log e = None" for rp topic
  by unfold_locales (auto simp: Producer_Produce_def call_def CaptureError_def split: option.split)

interpretation letters: dead_letters "Producer_Produce rp topic" topic "\<lambda>log e. rp log e = None"
  "Producer_Produce rp (tp_dead_letter tps)" "tp_dead_letter tps" "\<lambda>log e. rp log e = None"
  "NewEventProducerService rp tps" for rp topic tps
  by unfold_locales (simp add: NewEventProducerService_def NewProducer_def)

text \<open>What one produced event puts on the topics.\<close>

definition event_pushes ::
    "replies \<Rightarrow> topics \<Rightarrow> gotime \<Rightarrow> EnrichedEvent \<Rightarrow> string \<Rightarrow> string \<Rightarrow> effect list \<Rightarrow> effect list" where
  "event_pushes rp tps now event topic key log =
     (case marshal_enriched event of
        Inl e \<Rightarrow> []
      | Inr json \<Rightarrow>
          ProduceSync topic (Some key) (Some json) #
          (if rp log (ProduceSync topic (Some key) (Some json)) = None then []
           else [ProduceSync (tp_dead_letter tps) None
                  (dead_letter now (ee_InitialEvent event)
                    (FailedBoolResult (''Failed to push to '' @ topic @ '' topic'')))]))"

lemma report_marshaling_pushes [simp]: "pushes (report_marshaling m r) = pushes (snd r)"
  by (auto simp: report_marshaling_def split: prod.split option.split)

lemma produceEvent_event_pushes:
  "pushes (snd (produceEvent (NewEventProducerService rp tps) now event key (NewProducer rp topic) log)) =
   pushes log @ event_pushes rp tps now event topic key log"
proof (cases "marshal_enriched event")
  case (Inl e)
  then show ?thesis by (simp add: produceEvent_unmarshalable event_pushes_def)
next
  case (Inr json)
  show ?thesis
    by (simp add: letters.produceEvent_pushes(2) [OF Inr] Inr event_pushes_def NewProducer_def push_failure_def
      Producer_GetTopic_def)
qed

lemma marshal_enriched_non_finite:
  assumes "\<not> (\<exists>s m e. ee_Timestamp event = FFin s m e)"
  shows "\<exists>error. marshal_enriched event = Inl error"
proof -
  obtain error where "marshal_float (ee_Timestamp event) = Inl error"
    using assms by (cases "ee_Timestamp event") (auto simp: marshal_float_def)
  then have "\<exists>e. json_enriched event = Inl e"
    unfolding json_enriched_def by (intro struct_of_Inl [of "''timestamp''" error]) simp
  then show ?thesis by (auto simp: marshal_enriched_def)
qed

lemma grouped_by_text_join:
  "grouped_by_text m ks acc =
   (if ks = [] then acc
    else (if acc = [] then [] else acc @ ''|'') @
      join ''|'' (map (\<lambda>k. k @ ''/'' @ (case map_of m k of None \<Rightarrow> [] | Some v \<Rightarrow> v)) ks))"
proof (induction m ks acc rule: grouped_by_text.induct)
  case (2 m k ks acc)
  then show ?case by (cases ks) simp_all
qed simp

lemma map_of_mset:
  assumes "distinct (keys m)" and "mset m = mset m'"
  shows "map_of m = map_of m'"
proof -
  have "distinct (map fst m')"
    using assms mset_eq_imp_distinct_iff [of "keys m" "keys m'"] by (simp add: keys_def)
  then show ?thesis using assms mset_eq_setD [OF assms(2)] by (intro map_of_eqI) (auto simp: keys_def intro: map_of_eq_Some_iff)
qed

lemma dead_letter_shape:
  "\<exists>before after. ProduceToDeadLetterQueue (NewEventProducerService rp tps) now event r log =
       log @ before @ ProduceSync (tp_dead_letter tps) None (dead_letter now event r) # after \<and>
     (\<forall>e \<in> set (before @ after). is_report e) \<and>
     (before = [] \<longleftrightarrow> dead_letter now event r \<noteq> None) \<and>
     (after = [] \<longleftrightarrow>
        rp (log @ before) (ProduceSync (tp_dead_letter tps) None (dead_letter now event r)) = None) \<and>
     (after \<noteq> [] \<longrightarrow> last after = CaptureException (ErrorCode r) (ErrorMessage r) ''event'' (Error r))"
proof -
  let ?m = "marshal_failed (failed_event now event r)"
  define before where "before = (case ?m of
      Inl e \<Rightarrow> [LogError ''error while marshaling failed event with error details'', CaptureException [] [] [] (Some e)]
    | Inr s \<Rightarrow> [])"
  let ?sent = "ProduceSync (tp_dead_letter tps) None (dead_letter now event r)"
  let ?after = "case rp (log @ before) ?sent of
      Some e \<Rightarrow> [LogError ''record had a produce error while synchronously producing'',
                 CaptureException [] [] [] (Some e), LogError ''error while pushing to dead letter topic'',
                 CaptureException (ErrorCode r) (ErrorMessage r) ''event'' (Error r)]
    | None \<Rightarrow> []"
  have "ProduceToDeadLetterQueue (NewEventProducerService rp tps) now event r log = log @ before @ ?sent # ?after"
    unfolding before_def
    by (cases ?m) (auto simp: ProduceToDeadLetterQueue_def NewEventProducerService_def NewProducer_def
      Producer_Produce_def call_def CaptureError_def CaptureErrorResultWithExtra_def dead_letter_def
      split: option.split)
  moreover have "before = [] \<longleftrightarrow> dead_letter now event r \<noteq> None" "\<forall>e \<in> set before. is_report e"
    by (auto simp: before_def dead_letter_def split: sum.split)
  ultimately show ?thesis
    by - (rule exI [of _ before], rule exI [of _ ?after], auto split: option.split)
qed

text \<open>What the producing calls do: pushes and reports.\<close>

definition is_send :: "effect \<Rightarrow> bool" where
  "is_send e \<longleftrightarrow> is_push e \<or> is_report e"

lemma is_send_simps [simp]:
  "is_send (ProduceSync topic key val)" "is_send (LogError m)" "is_send (CaptureException c m x e)"
  "\<not> is_send (SAdd name member)" "\<not> is_send (ExpireKeyIn k n')" "\<not> is_send (MarkProcessed i)"
  by (simp_all add: is_send_def)

lemma dead_letter_sends:
  "\<exists>es. ProduceToDeadLetterQueue (NewEventProducerService rp tps) now event r log = log @ es \<and>
     (\<forall>e \<in> set es. is_send e) \<and> pushes es = [ProduceSync (tp_dead_letter tps) None (dead_letter now event r)]"
proof -
  obtain before after where shape: "ProduceToDeadLetterQueue (NewEventProducerService rp tps) now event r log =
      log @ before @ ProduceSync (tp_dead_letter tps) None (dead_letter now event r) # after"
    and reports: "\<forall>e \<in> set (before @ after). is_report e"
    using dead_letter_shape [of rp tps now event r log] by blast
  then show ?thesis by (intro exI) (auto simp: pushes_reports is_send_def)
qed

lemma produceEvent_sends:
  "\<exists>es. snd (produceEvent (NewEventProducerService rp tps) now event key (NewProducer rp topic) log) = log @ es \<and>
     (\<forall>e \<in> set es. is_send e)"
proof (cases "marshal_enriched event")
  case (Inl e)
  then show ?thesis by (simp add: produceEvent_unmarshalable)
next
  case (Inr json)
  obtain ok es where p: "Producer_Produce rp topic (Some key) (Some json) log = (ok, log @ es)"
    and es: "\<forall>e \<in> set es. is_send e"
    using kafka.produce_log [of rp topic "Some key" "Some json" log]
    by (cases "Producer_Produce rp topic (Some key) (Some json) log") (fastforce simp: is_send_def)
  obtain es' where "ProduceToDeadLetterQueue (NewEventProducerService rp tps) now (ee_InitialEvent event)
      (push_failure (NewProducer rp topic)) (log @ es) = (log @ es) @ es'" and "\<forall>e \<in> set es'. is_send e"
    using dead_letter_sends by blast
  with p es show ?thesis
    by (auto simp: produceEvent_def Inr NewProducer_def)
qed

lemma produced_pushes:
  "pushes (ProduceEnrichedEvent (NewEventProducerService rp tps) now event log) =
     pushes log @ event_pushes rp tps now event (tp_enriched tps) (event_key event) log \<and>
   pushes (ProduceEnrichedExpandedEvent (NewEventProducerService rp tps) now event log) =
     pushes log @ event_pushes rp tps now event (tp_expanded tps) (expanded_key event) log \<and>
   pushes (ProduceChargedInAdvanceEvent (NewEventProducerService rp tps) now event log) =
     pushes log @ event_pushes rp tps now event (tp_in_advance tps) (event_key event) log"
proof -
  have "eps_enrichedProducer (NewEventProducerService rp tps) = NewProducer rp (tp_enriched tps)"
    "eps_enrichedExpendedProducer (NewEventProducerService rp tps) = NewProducer rp (tp_expanded tps)"
    "eps_inAdvanceProducer (NewEventProducerService rp tps) = NewProducer rp (tp_in_advance tps)"
    by (simp_all add: NewEventProducerService_def)
  then show ?thesis
    by (simp add: ProduceEnrichedEvent_def ProduceEnrichedExpandedEvent_def ProduceChargedInAdvanceEvent_def
      produceEvent_event_pushes)
qed

lemma produced_sends:
  "e \<in> set (ProduceEnrichedEvent (NewEventProducerService rp tps) now event log) \<Longrightarrow> e \<in> set log \<or> is_send e"
  "e \<in> set (ProduceEnrichedExpandedEvent (NewEventProducerService rp tps) now event log) \<Longrightarrow> e \<in> set log \<or> is_send e"
  "e \<in> set (ProduceChargedInAdvanceEvent (NewEventProducerService rp tps) now event log) \<Longrightarrow> e \<in> set log \<or> is_send e"
proof -
  have "e \<in> set (report_marshaling m (produceEvent (NewEventProducerService rp tps) now event key (NewProducer rp topic) log)) \<Longrightarrow>
      e \<in> set log \<or> is_send e" for m key topic
    using produceEvent_sends [of rp tps now event key topic log]
    by (cases "produceEvent (NewEventProducerService rp tps) now event key (NewProducer rp topic) log")
      (auto simp: report_marshaling_def CaptureError_def split: option.splits)
  moreover have "eps_enrichedProducer (NewEventProducerService rp tps) = NewProducer rp (tp_enriched tps)"
    "eps_enrichedExpendedProducer (NewEventProducerService rp tps) = NewProducer rp (tp_expanded tps)"
    "eps_inAdvanceProducer (NewEventProducerService rp tps) = NewProducer rp (tp_in_advance tps)"
    by (simp_all add: NewEventProducerService_def)
  ultimately show
    "e \<in> set (ProduceEnrichedEvent (NewEventProducerService rp tps) now event log) \<Longrightarrow> e \<in> set log \<or> is_send e"
    "e \<in> set (ProduceEnrichedExpandedEvent (NewEventProducerService rp tps) now event log) \<Longrightarrow> e \<in> set log \<or> is_send e"
    "e \<in> set (ProduceChargedInAdvanceEvent (NewEventProducerService rp tps) now event log) \<Longrightarrow> e \<in> set log \<or> is_send e"
    unfolding ProduceEnrichedEvent_def ProduceEnrichedExpandedEvent_def ProduceChargedInAdvanceEvent_def
    by metis+
qed

section \<open>Properties\<close>

text \<open>
  C26: each producing method sends one record to its own topic, the event's JSON under its key, and
  when the topic refuses it exactly one record more, without a key, to the dead letter queue, which
  carries the raw event. An event that has no JSON is sent nowhere, not even to the dead letter
  queue.
\<close>

theorem produced_records:
  "pushes (ProduceEnrichedEvent (NewEventProducerService rp tps) now event log) =
     pushes log @ event_pushes rp tps now event (tp_enriched tps) (event_key event) log \<and>
   pushes (ProduceEnrichedExpandedEvent (NewEventProducerService rp tps) now event log) =
     pushes log @ event_pushes rp tps now event (tp_expanded tps) (expanded_key event) log \<and>
   pushes (ProduceChargedInAdvanceEvent (NewEventProducerService rp tps) now event log) =
     pushes log @ event_pushes rp tps now event (tp_in_advance tps) (event_key event) log"
  by (rule produced_pushes)

text \<open>
  The key of an expanded event does not depend on the order in which Go's map gives the groups:
  two events that differ in that order only have the same key, and the group part is the sorted
  list of key and value pairs.
\<close>

theorem expanded_key_order:
  assumes "distinct (keys (ee_GroupedBy event))" and "mset (ee_GroupedBy event) = mset m"
  shows "expanded_key (event\<lparr>ee_GroupedBy := m\<rparr>) = expanded_key event \<and>
    expanded_key event = ee_OrganizationID event @ ''-'' @ ee_ExternalSubscriptionID event @ ''-'' @
      ee_Code event @ ''-'' @ (case ee_ChargeID event of None \<Rightarrow> [] | Some c \<Rightarrow> c) @ ''-'' @
      (case ee_ChargeFilterID event of None \<Rightarrow> [] | Some c \<Rightarrow> c) @ ''-'' @
      join ''|'' (map (\<lambda>k. k @ ''/'' @ the (map_of m k)) (sort (keys m)))"
proof -
  have m: "map_of (ee_GroupedBy event) = map_of m" by (rule map_of_mset [OF assms])
  have "mset (keys (ee_GroupedBy event)) = mset (keys m)" using assms(2) by (simp add: keys_def)
  then have k: "sort (keys (ee_GroupedBy event)) = sort (keys m)"
    by (metis mset_sort properties_for_sort sorted_sort)
  have "(case map_of m k of None \<Rightarrow> [] | Some v \<Rightarrow> v) = the (map_of m k)" if "k \<in> set (keys m)" for k
    using that by (auto simp: keys_def split: option.split dest: weak_map_of_SomeI)
  then have "join ''|'' (map (\<lambda>k. k @ ''/'' @ (case map_of m k of None \<Rightarrow> [] | Some v \<Rightarrow> v)) (sort (keys m))) =
      join ''|'' (map (\<lambda>k. k @ ''/'' @ the (map_of m k)) (sort (keys m)))"
    by (intro arg_cong [of _ _ "join ''|''"] map_cong) simp_all
  then show ?thesis
    by (simp add: expanded_key_def k m grouped_by_text_join Let_def)
qed

theorem expanded_key_order_witness:
  "expanded_key (sample_event\<lparr>ee_GroupedBy := [(''b'', ''2''), (''a'', ''1'')]\<rparr>) =
   expanded_key (sample_event\<lparr>ee_GroupedBy := [(''a'', ''1''), (''b'', ''2'')]\<rparr>)"
proof -
  let ?e = "sample_event\<lparr>ee_GroupedBy := [(''a'', ''1''), (''b'', ''2'')]\<rparr>"
  have "distinct (keys (ee_GroupedBy ?e))" by (simp add: keys_def)
  moreover have "mset (ee_GroupedBy ?e) = mset [(''b'', ''2''), (''a'', ''1'')]" by simp
  ultimately show ?thesis using expanded_key_order [of ?e "[(''b'', ''2''), (''a'', ''1'')]"] by simp
qed

text \<open>
  C27: a failed event always goes to the dead letter queue as one record without a key, also when its
  JSON cannot be made (the record has no value then). What is reported before it is that failure,
  what is reported after it is that the queue refused the record, and then the original failure is
  captured once more.
\<close>

theorem dead_letter_record:
  "\<exists>before after. ProduceToDeadLetterQueue (NewEventProducerService rp tps) now event r log =
       log @ before @ ProduceSync (tp_dead_letter tps) None (dead_letter now event r) # after \<and>
     (\<forall>e \<in> set (before @ after). is_report e) \<and>
     (before = [] \<longleftrightarrow> dead_letter now event r \<noteq> None) \<and>
     (after = [] \<longleftrightarrow>
        rp (log @ before) (ProduceSync (tp_dead_letter tps) None (dead_letter now event r)) = None) \<and>
     (after \<noteq> [] \<longrightarrow> last after = CaptureException (ErrorCode r) (ErrorMessage r) ''event'' (Error r))"
  by (rule dead_letter_shape)

theorem dead_letter_record_witness:
  "\<exists>before after. ProduceToDeadLetterQueue
       (NewEventProducerService (\<lambda>log e. Some ''down'') \<lparr>tp_enriched = ''e'', tp_expanded = ''x'',
          tp_in_advance = ''a'', tp_dead_letter = ''d''\<rparr>) 0 zero_event (FailedBoolResult ''lost'') [] =
     before @ ProduceSync ''d'' None (dead_letter 0 zero_event (FailedBoolResult ''lost'')) # after \<and>
     after \<noteq> [] \<and> last after = CaptureException [] [] ''event'' (Some ''lost'')"
proof -
  let ?t = "\<lparr>tp_enriched = ''e'', tp_expanded = ''x'', tp_in_advance = ''a'', tp_dead_letter = ''d''\<rparr>"
  obtain before after where "ProduceToDeadLetterQueue (NewEventProducerService (\<lambda>log e. Some ''down'') ?t) 0
      zero_event (FailedBoolResult ''lost'') [] =
      before @ ProduceSync ''d'' None (dead_letter 0 zero_event (FailedBoolResult ''lost'')) # after"
    and "after \<noteq> []" and "last after = CaptureException (ErrorCode (FailedBoolResult ''lost''))
      (ErrorMessage (FailedBoolResult ''lost'')) ''event'' (Error (FailedBoolResult ''lost''))"
    using dead_letter_record [of "\<lambda>log e. Some ''down''" ?t 0 zero_event "FailedBoolResult ''lost''" "[]"] by auto
  then show ?thesis
    by - (rule exI [of _ before], rule exI [of _ after], simp add: result_simps)
qed

text \<open>
  C40: an event whose timestamp is not a number or infinite (the texts NaN and Inf pass both readings
  of the timestamp) has no JSON, so that none of the producing methods sends anything, to no topic
  and not to the dead letter queue: the loss is only reported.
\<close>

theorem non_finite_event_not_produced:
  assumes "\<not> (\<exists>s m e. ee_Timestamp event = FFin s m e)"
  shows "\<exists>error. ProduceEnrichedEvent eps now event log =
      log @ [LogError ''error while marshaling enriched events'', CaptureException [] [] [] (Some error)] \<and>
    ProduceEnrichedExpandedEvent eps now event log =
      log @ [LogError ''error while marshaling enriched expended events'', CaptureException [] [] [] (Some error)] \<and>
    ProduceChargedInAdvanceEvent eps now event log =
      log @ [LogError ''error while marshaling charged in advance events'', CaptureException [] [] [] (Some error)]"
proof -
  obtain error where "marshal_enriched event = Inl error"
    using marshal_enriched_non_finite [OF assms] by blast
  then show ?thesis
    by (simp add: ProduceEnrichedEvent_def ProduceEnrichedExpandedEvent_def ProduceChargedInAdvanceEvent_def
      produceEvent_unmarshalable report_marshaling_def CaptureError_def)
qed

theorem non_finite_event_not_produced_witness:
  "case ToEnrichedEvent (\<lambda>x. 0) (sample_raw None \<lparr>ev_Timestamp := GStr ''NaN''\<rparr>) of
     r \<Rightarrow> Success r \<and> pushes (ProduceEnrichedEvent
       (NewEventProducerService (\<lambda>log e. None) \<lparr>tp_enriched = ''e'', tp_expanded = ''x'',
          tp_in_advance = ''a'', tp_dead_letter = ''d''\<rparr>) 0 (the (Value r)) []) = []"
proof -
  let ?ev = "sample_raw None \<lparr>ev_Timestamp := GStr ''NaN''\<rparr>"
  have "Success (ToEnrichedEvent (\<lambda>x. 0) ?ev) \<and>
      ee_Timestamp (the (Value (ToEnrichedEvent (\<lambda>x. 0) ?ev))) = FNaN" by code_simp
  then show ?thesis
    using non_finite_event_not_produced [of "the (Value (ToEnrichedEvent (\<lambda>x. 0) ?ev))"
      "NewEventProducerService (\<lambda>log e. None) \<lparr>tp_enriched = ''e'', tp_expanded = ''x'',
        tp_in_advance = ''a'', tp_dead_letter = ''d''\<rparr>" 0 "[]"] by auto
qed

end
