(* ===== verification/Services.thy ===== *)
theory Services
  imports Producers
begin

text \<open>
  \<open>processors/events_processor/subscription_refresh_service.go\<close> and \<open>cache_service.go\<close>: the flag
  that asks for a refresh of a subscription, and the expiry of its cached usage.
\<close>

definition refresh_flag :: "EnrichedEvent \<Rightarrow> string" where
  "refresh_flag event = ee_OrganizationID event @ '':'' @ ee_SubscriptionID event"

definition FlagSubscriptionRefresh :: "flagger \<Rightarrow> EnrichedEvent \<Rightarrow> effect list \<Rightarrow> bool result \<times> effect list" where
  "FlagSubscriptionRefresh flag event log =
     (case flag (refresh_flag event) log of
        (Some e, log') \<Rightarrow> (FailedBoolResult e, log')
      | (None, log') \<Rightarrow> (SuccessResult True, log'))"

fun ExpireCache :: "cacher \<Rightarrow> EnrichedEvent list \<Rightarrow> effect list \<Rightarrow> effect list" where
  "ExpireCache expire [] log = log"
| "ExpireCache expire (event # events) log =
     (case ee_FlatFilter event of
        None \<Rightarrow> ExpireCache expire events log
      | Some ff \<Rightarrow>
          (let (cacheResult, log1) = ChargeCache_Expire expire ff (ee_SubscriptionID event) log
           in ExpireCache expire events
                (if Failure cacheResult then CaptureError (Error cacheResult) log1 else log1)))"

section \<open>Lemmas\<close>

fun is_expiry :: "effect \<Rightarrow> bool" where
  "is_expiry (ExpireKeyIn k t) = True"
| "is_expiry _ = False"

fun is_flag :: "effect \<Rightarrow> bool" where
  "is_flag (SAdd name v) = True"
| "is_flag _ = False"

text \<open>The keys that the cached usage of a list of events has.\<close>

definition usage_keys :: "EnrichedEvent list \<Rightarrow> string list" where
  "usage_keys events =
     List.map_filter (\<lambda>ev. map_option (\<lambda>ff. charge_cache_key ff (ee_SubscriptionID ev)) (ee_FlatFilter ev)) events"

lemma FlagSubscriptionRefresh_effects:
  "FlagSubscriptionRefresh (FlagStore_Flag rp name) event log =
   (case rp log (SAdd name (refresh_flag event)) of Some e \<Rightarrow> FailedBoolResult e | None \<Rightarrow> SuccessResult True,
    log @ [SAdd name (refresh_flag event)])"
  by (simp add: FlagSubscriptionRefresh_def FlagStore_Flag_def call_def split: option.split)

lemma ExpireCache_only:
  "\<exists>es. ExpireCache (CacheStore_ExpireKey rp) events log = log @ es \<and>
     (\<forall>e \<in> set es. is_report e \<or> is_expiry e) \<and>
     filter is_expiry es = map (\<lambda>k. ExpireKeyIn k EXPIRATION_TIME) (usage_keys events)"
proof (induction events arbitrary: log)
  case Nil
  then show ?case by (simp add: usage_keys_def)
next
  case (Cons event events)
  show ?case
  proof (cases "ee_FlatFilter event")
    case None
    then show ?thesis using Cons by (simp add: usage_keys_def)
  next
    case (Some ff)
    let ?k = "charge_cache_key ff (ee_SubscriptionID event)"
    obtain r where r: "ChargeCache_Expire (CacheStore_ExpireKey rp) ff (ee_SubscriptionID event) log =
        (r, log @ [ExpireKeyIn ?k EXPIRATION_TIME])"
      using ChargeCache_Expire_log by (metis prod.collapse)
    define rep where "rep = (if Failure r then [CaptureException [] [] [] (Error r)] else [])"
    have rep: "\<forall>e \<in> set rep. is_report e \<and> \<not> is_expiry e" by (simp add: rep_def)
    obtain es where es: "ExpireCache (CacheStore_ExpireKey rp) events
        ((log @ [ExpireKeyIn ?k EXPIRATION_TIME]) @ rep) = ((log @ [ExpireKeyIn ?k EXPIRATION_TIME]) @ rep) @ es"
      "\<forall>e \<in> set es. is_report e \<or> is_expiry e"
      "filter is_expiry es = map (\<lambda>k. ExpireKeyIn k EXPIRATION_TIME) (usage_keys events)"
      using Cons by blast
    have "ExpireCache (CacheStore_ExpireKey rp) (event # events) log =
        log @ (ExpireKeyIn ?k EXPIRATION_TIME # rep @ es)"
      using es(1) by (auto simp: Some r rep_def CaptureError_def)
    moreover have "filter is_expiry (ExpireKeyIn ?k EXPIRATION_TIME # rep @ es) =
        map (\<lambda>k. ExpireKeyIn k EXPIRATION_TIME) (usage_keys (event # events))"
      using rep es(3) by (simp add: usage_keys_def Some filter_empty_conv)
    ultimately show ?thesis using rep es(2) by fastforce
  qed
qed

lemma ExpireCache_pushes [simp]:
  "pushes (ExpireCache (CacheStore_ExpireKey rp) events log) = pushes log"
proof -
  obtain es where "ExpireCache (CacheStore_ExpireKey rp) events log = log @ es"
    and "\<forall>e \<in> set es. is_report e \<or> is_expiry e" using ExpireCache_only by blast
  moreover from this(2) have "pushes es = []"
    by (induction es) (auto elim: is_report.elims is_expiry.elims)
  ultimately show ?thesis by simp
qed

section \<open>Properties\<close>

text \<open>
  Expiring the cache gives one EXPIRE of five seconds per event that carries a filter, on the key
  of that filter and the event's subscription, in the order of the events; a key that cannot be
  expired is reported and the others are still expired.
\<close>

theorem expire_cache_keys:
  "\<exists>es. ExpireCache (CacheStore_ExpireKey rp) events log = log @ es \<and>
     (\<forall>e \<in> set es. is_report e \<or> is_expiry e) \<and>
     filter is_expiry es =
       map (\<lambda>ev. ExpireKeyIn (charge_cache_key (the (ee_FlatFilter ev)) (ee_SubscriptionID ev)) (5 * second))
         (filter (\<lambda>ev. ee_FlatFilter ev \<noteq> None) events)"
proof -
  have "map (\<lambda>k. ExpireKeyIn k EXPIRATION_TIME) (usage_keys events) =
      map (\<lambda>ev. ExpireKeyIn (charge_cache_key (the (ee_FlatFilter ev)) (ee_SubscriptionID ev)) (5 * second))
         (filter (\<lambda>ev. ee_FlatFilter ev \<noteq> None) events)"
    by (induction events) (auto simp: usage_keys_def EXPIRATION_TIME_def)
  then show ?thesis using ExpireCache_only [of rp events log] by auto
qed

theorem expire_cache_keys_witness:
  "\<exists>es. ExpireCache (CacheStore_ExpireKey (\<lambda>log e. Some ''down'')) [sample_event\<lparr>ee_FlatFilter := Some (sample_filter [])\<rparr>,
       sample_event] [] = es \<and>
     filter is_expiry es = [ExpireKeyIn (charge_cache_key (sample_filter []) []) (5 * second)]"
proof -
  let ?evs = "[sample_event\<lparr>ee_FlatFilter := Some (sample_filter [])\<rparr>, sample_event]"
  have "ee_SubscriptionID sample_event = []" "ee_FlatFilter sample_event = None"
    by (simp_all add: sample_event_def initial_enriched_def)
  then show ?thesis using expire_cache_keys [of "\<lambda>log e. Some ''down''" ?evs "[]"] by auto
qed

end
