(* ===== verification/Processor.thy ===== *)
theory Processor
  imports Services
begin

text \<open>
  \<open>processors/events_processor/processor.go\<close>: one event is enriched, its producing calls are spawned
  as goroutines, its subscription is flagged and its cached usage expired; a batch of records is
  processed with one goroutine per record. Goroutines are lists of effects, and a schedule says
  how they interleave, so that a statement for every schedule holds for every interleaving.
\<close>

section \<open>Records and their surroundings\<close>

text \<open>The fields of \<open>kgo.Record\<close> that the code reads.\<close>

record kgo_record =
  rec_Key :: string
  rec_Value :: string
  rec_Offset :: int

text \<open>
  What happens around the goroutine of one record: the replies of Kafka and Redis and the clock, for
  the goroutine itself (0) and for its k-th child (k), the clock where the age of the event is taken,
  the schedule of the children, and the text of the error when the JSON of the record is refused.
\<close>

record world =
  w_surroundings :: surroundings
  w_replies :: "nat \<Rightarrow> replies"
  w_now :: "nat \<Rightarrow> gotime"
  w_checked_at :: gotime
  w_schedule :: "nat list"
  w_unmarshal_error :: goerror

section \<open>One event\<close>

text \<open>The calls that are spawned.\<close>

datatype task =
    Enriched EnrichedEvent
  | EnrichedExpanded EnrichedEvent
  | ChargedInAdvance EnrichedEvent

fun run_task :: "EventProducerService \<Rightarrow> gotime \<Rightarrow> task \<Rightarrow> effect list" where
  "run_task eps now (Enriched ev) = ProduceEnrichedEvent eps now ev []"
| "run_task eps now (EnrichedExpanded ev) = ProduceEnrichedExpandedEvent eps now ev []"
| "run_task eps now (ChargedInAdvance ev) = ProduceChargedInAdvanceEvent eps now ev []"

definition expanded_tasks :: "EnrichedEvent list \<Rightarrow> task list" where
  "expanded_tasks enrichedEvents = map EnrichedExpanded (filter (\<lambda>ev. ee_ChargeID ev \<noteq> None) enrichedEvents)"

text \<open>The loop with its break.\<close>

fun pay_in_advance :: "EnrichedEvent list \<Rightarrow> bool" where
  "pay_in_advance [] = False"
| "pay_in_advance (ev # evs) =
     (case ee_FlatFilter ev of
        None \<Rightarrow> pay_in_advance evs
      | Some ff \<Rightarrow> if ff_PayInAdvance ff then True else pay_in_advance evs)"

text \<open>
  The outcome of \<open>processEvent\<close>: its result, the raw event after it, the children in the order in
  which they are spawned, and the effects of the goroutine itself.
\<close>

record outcome =
  out_result :: "EnrichedEvent option result"
  out_event :: Event
  out_tasks :: "task list"
  out_log :: "effect list"

definition refreshed :: string where
  "refreshed = ''subscription_refreshed''"

definition processEvent_body :: "replies \<Rightarrow> surroundings \<Rightarrow> Event \<Rightarrow> panic + outcome" where
  "processEvent_body rp sr event =
     (case EnrichEvent sr event of
        Inl p \<Rightarrow> Inl p
      | Inr (enrichedEventResult, event') \<Rightarrow>
          (if Failure enrichedEventResult
           then Inr \<lparr>out_result = failedResult enrichedEventResult (ErrorCode enrichedEventResult)
                                   (ErrorMessage enrichedEventResult),
                     out_event = event', out_tasks = [], out_log = []\<rparr>
           else
             (case Value enrichedEventResult of
                [] \<Rightarrow> Inl index_out_of_range
              | enrichedEvent # others \<Rightarrow>
                  (let enrichedEvents = enrichedEvent # others;
                       tasks = Enriched enrichedEvent # expanded_tasks enrichedEvents
                   in if ee_Subscription enrichedEvent \<noteq> None \<and> NotAPIPostProcessed event' then
                        (let tasks' = tasks @ (if pay_in_advance enrichedEvents
                                               then [ChargedInAdvance enrichedEvent] else []);
                             (flagResult, log) = FlagSubscriptionRefresh (FlagStore_Flag rp refreshed) enrichedEvent []
                         in if Failure flagResult
                            then Inr \<lparr>out_result = failedResult flagResult ''flag_subscription_refresh''
                                                    ''Error flagging subscription refresh'',
                                      out_event = event', out_tasks = tasks', out_log = log\<rparr>
                            else Inr \<lparr>out_result = SuccessResult (Some enrichedEvent), out_event = event',
                                      out_tasks = tasks',
                                      out_log = ExpireCache (CacheStore_ExpireKey rp) enrichedEvents log\<rparr>)
                      else Inr \<lparr>out_result = SuccessResult (Some enrichedEvent), out_event = event',
                                out_tasks = tasks, out_log = []\<rparr>))))"

text \<open>The logs of the children, the k-th with its own replies and clock.\<close>

definition child_logs :: "topics \<Rightarrow> world \<Rightarrow> task list \<Rightarrow> effect list list" where
  "child_logs tps w tasks =
     map (\<lambda>(k, t). run_task (NewEventProducerService (w_replies w k) tps) (w_now w k) t)
       (zip [1..<Suc (length tasks)] tasks)"

text \<open>\<open>processEvent\<close> returns after its deferred \<open>Wait\<close>: every child has finished.\<close>

definition processEvent ::
    "topics \<Rightarrow> world \<Rightarrow> Event \<Rightarrow> panic + EnrichedEvent option result \<times> Event \<times> effect list" where
  "processEvent tps w event =
     (case processEvent_body (w_replies w 0) (w_surroundings w) event of
        Inl p \<Rightarrow> Inl p
      | Inr out \<Rightarrow>
          Inr (out_result out, out_event out,
               merge_logs (w_schedule w) (out_log out # child_logs tps w (out_tasks out))))"

section \<open>A batch of records\<close>

definition twelve_hours :: int where
  "twelve_hours = 12 * 3600 * second"

text \<open>
  The goroutine of record \<open>i\<close>. The effects of its children are those of \<open>processEvent\<close>; the replies
  to what it does itself afterwards depend on all effects before them.
\<close>

definition process_record :: "topics \<Rightarrow> world \<Rightarrow> nat \<Rightarrow> kgo_record \<Rightarrow> panic + effect list" where
  "process_record tps w i record =
     (case unmarshal_event (sr_cvt (w_surroundings w)) (rec_Value record) of
        None \<Rightarrow>
          Inr (CaptureError (Some (w_unmarshal_error w)) [LogError ''Error unmarshalling message''] @ [MarkProcessed i])
      | Some event \<Rightarrow>
          (case processEvent tps w event of
             Inl p \<Rightarrow> Inl p
           | Inr (result, event', log) \<Rightarrow>
               (if Failure result then
                  (let log1 = log @ [LogError (ErrorMessage result)];
                       log2 = (if IsCapturable result then CaptureErrorResultWithExtra result ''event'' log1
                               else log1)
                   in if IsRetryable result \<and>
                         time_sub (w_checked_at w) (ev_IngestedAt event') < twelve_hours
                      then Inr log2
                      else Inr (ProduceToDeadLetterQueue (NewEventProducerService (w_replies w 0) tps)
                                  (w_now w 0) event' result log2 @ [MarkProcessed i]))
                else Inr (log @ [MarkProcessed i]))))"

text \<open>The processed records, in the order in which the goroutines appended them.\<close>

definition processed_of :: "kgo_record list \<Rightarrow> effect list \<Rightarrow> kgo_record list" where
  "processed_of records log =
     List.map_filter (\<lambda>e. case e of MarkProcessed i \<Rightarrow> Some (records ! i) | _ \<Rightarrow> None) log"

text \<open>\<open>worlds i\<close> surrounds record \<open>i\<close>; a panic of one goroutine is a panic of the whole.\<close>

definition ProcessEvents ::
    "topics \<Rightarrow> (nat \<Rightarrow> world) \<Rightarrow> nat list \<Rightarrow> kgo_record list \<Rightarrow> panic + kgo_record list \<times> effect list" where
  "ProcessEvents tps worlds schedule records =
     (case sequence_sum (map (\<lambda>i. process_record tps (worlds i) i (records ! i)) [0..<length records]) of
        Inl p \<Rightarrow> Inl p
      | Inr logs \<Rightarrow>
          (let log = merge_logs schedule logs in Inr (processed_of records log, log)))"

section \<open>Lemmas\<close>

definition task_pushes :: "replies \<Rightarrow> topics \<Rightarrow> gotime \<Rightarrow> task \<Rightarrow> effect list" where
  "task_pushes rp tps now t =
     (case t of
        Enriched ev \<Rightarrow> event_pushes rp tps now ev (tp_enriched tps) (event_key ev) []
      | EnrichedExpanded ev \<Rightarrow> event_pushes rp tps now ev (tp_expanded tps) (expanded_key ev) []
      | ChargedInAdvance ev \<Rightarrow> event_pushes rp tps now ev (tp_in_advance tps) (event_key ev) [])"

lemma run_task_pushes: "pushes (run_task (NewEventProducerService rp tps) now t) = task_pushes rp tps now t"
  by (cases t) (simp_all add: task_pushes_def produced_pushes)

lemma run_task_sends: "e \<in> set (run_task (NewEventProducerService rp tps) now t) \<Longrightarrow> is_send e"
  by (cases t) (auto dest: produced_sends)

lemma child_logs_sends: "log \<in> set (child_logs tps w tasks) \<Longrightarrow> e \<in> set log \<Longrightarrow> is_send e"
  by (auto simp: child_logs_def dest: run_task_sends)

text \<open>The own effects of the goroutine of an event: the flag and expiries.\<close>

lemma processEvent_body_log:
  assumes "processEvent_body rp sr event = Inr out" and "e \<in> set (out_log out)"
  shows "is_flag e \<or> is_expiry e \<or> is_report e"
proof -
  have "is_flag e \<or> is_expiry e \<or> is_report e"
    if "e \<in> set (ExpireCache (CacheStore_ExpireKey rp) evs [SAdd refreshed k])" for evs k
    using ExpireCache_only [of rp evs "[SAdd refreshed k]"] that by auto
  then show ?thesis
    using assms by (auto simp: processEvent_body_def FlagSubscriptionRefresh_effects Let_def
      simp del: ExpireCache.simps pay_in_advance.simps
      split: sum.splits prod.splits if_splits list.splits option.splits)
qed

lemma pushes_none: "(\<And>e. e \<in> set es \<Longrightarrow> is_flag e \<or> is_expiry e \<or> is_report e) \<Longrightarrow> pushes es = []"
proof -
  have "\<not> is_push e" if "is_flag e \<or> is_expiry e \<or> is_report e" for e using that by (cases e) simp_all
  then show "(\<And>e. e \<in> set es \<Longrightarrow> is_flag e \<or> is_expiry e \<or> is_report e) \<Longrightarrow> pushes es = []"
    by (simp add: pushes_def filter_empty_conv)
qed

text \<open>What the goroutines of one event do together, whatever the schedule.\<close>

lemma processEvent_marks:
  "processEvent tps w event = Inr (result, event', log) \<Longrightarrow> MarkProcessed i \<notin> set log"
  using child_logs_sends [of _ tps w _ "MarkProcessed i"] processEvent_body_log [of _ _ _ _ "MarkProcessed i"]
  by (fastforce simp: processEvent_def interleave split: sum.splits)

lemma pushes_mset: "mset (pushes xs) = filter_mset is_push (mset xs)"
  by (simp add: pushes_def)

lemma pushes_merge: "mset (pushes (merge_logs sch ts)) = (\<Sum>xs \<leftarrow> ts. mset (pushes xs))"
proof -
  have "filter_mset P (\<Sum>xs \<leftarrow> ts. mset xs) = (\<Sum>xs \<leftarrow> ts. filter_mset P (mset xs))" for P
    by (induction ts) simp_all
  then show ?thesis by (simp add: pushes_mset interleave)
qed

definition tasks_pushes :: "topics \<Rightarrow> world \<Rightarrow> task list \<Rightarrow> effect list" where
  "tasks_pushes tps w tasks =
     concat (map (\<lambda>(k, t). task_pushes (w_replies w k) tps (w_now w k) t) (zip [1..<Suc (length tasks)] tasks))"

lemma processEvent_pushes:
  assumes "processEvent_body (w_replies w 0) (w_surroundings w) event = Inr out"
  shows "\<exists>log. processEvent tps w event = Inr (out_result out, out_event out, log) \<and>
    mset (pushes log) = mset (tasks_pushes tps w (out_tasks out))"
proof -
  have "pushes (out_log out) = []" by (rule pushes_none) (rule processEvent_body_log [OF assms])
  moreover have "(\<Sum>xs \<leftarrow> child_logs tps w tasks. mset (pushes xs)) = mset (tasks_pushes tps w tasks)" for tasks
    unfolding child_logs_def tasks_pushes_def
    by (simp add: mset_concat comp_def case_prod_unfold run_task_pushes)
  ultimately show ?thesis by (simp add: processEvent_def assms pushes_merge)
qed

section \<open>The reference for a batch\<close>

text \<open>
  A failure of \<open>processEvent\<close> that may be retried: a retryable failure of the enrichment, or a flag
  that Redis refuses.
\<close>

definition retryable_failure :: "world \<Rightarrow> Event \<Rightarrow> bool" where
  "retryable_failure w event \<longleftrightarrow>
     (case EnrichEvent (w_surroundings w) event of
        Inl p \<Rightarrow> False
      | Inr (r, event') \<Rightarrow>
          (if Failure r then IsRetryable r
           else
             (case Value r of
                [] \<Rightarrow> False
              | ee # others \<Rightarrow>
                  ee_Subscription ee \<noteq> None \<and> NotAPIPostProcessed event' \<and>
                  w_replies w 0 [] (SAdd refreshed (refresh_flag ee)) \<noteq> None)))"

text \<open>The records that are kept from being committed.\<close>

definition withheld :: "world \<Rightarrow> kgo_record \<Rightarrow> bool" where
  "withheld w record \<longleftrightarrow>
     (case unmarshal_event (sr_cvt (w_surroundings w)) (rec_Value record) of
        None \<Rightarrow> False
      | Some event \<Rightarrow>
          retryable_failure w event \<and> time_sub (w_checked_at w) (ev_IngestedAt event) < twelve_hours)"

definition marks :: "effect list \<Rightarrow> nat list" where
  "marks log = List.map_filter (\<lambda>e. case e of MarkProcessed i \<Rightarrow> Some i | _ \<Rightarrow> None) log"

lemma marks_simps [simp]:
  "marks [] = []" "marks (MarkProcessed i # es) = i # marks es"
  "marks (xs @ ys) = marks xs @ marks ys"
  by (simp_all add: marks_def) (induction xs, auto split: option.split)

lemma marks_none: "(\<And>i. MarkProcessed i \<notin> set log) \<Longrightarrow> marks log = []"
  by (induction log) (auto simp: marks_def split: effect.split)

lemma processed_of_marks: "processed_of records log = map ((!) records) (marks log)"
  by (induction log) (auto simp: processed_of_def marks_def split: option.split effect.split)

lemma marks_merge: "mset (marks (merge_logs sch ts)) = (\<Sum>xs \<leftarrow> ts. mset (marks xs))"
proof -
  have m: "mset (marks xs) =
      image_mset (\<lambda>e. case e of MarkProcessed i \<Rightarrow> i | _ \<Rightarrow> 0)
        (filter_mset (\<lambda>e. \<exists>i. e = MarkProcessed i) (mset xs))" for xs
    by (induction xs) (auto simp: marks_def split: effect.split)
  have "image_mset f (filter_mset P (\<Sum>xs \<leftarrow> ts. mset xs)) =
      (\<Sum>xs \<leftarrow> ts. image_mset f (filter_mset P (mset xs)))" for f :: "effect \<Rightarrow> nat" and P
    by (induction ts) simp_all
  then show ?thesis by (simp add: m interleave)
qed

text \<open>A failed \<open>processEvent\<close>: which failures are retryable, and that the ingestion time is kept.\<close>

lemma EnrichEvent_IngestedAt:
  assumes "EnrichEvent sr event = Inr (r, event')"
  shows "ev_IngestedAt event' = ev_IngestedAt event"
proof (cases "Failure (ToEnrichedEvent (sr_cvt sr) event) \<or>
    Failure (FetchBillableMetric (sr_apiStore sr) (ev_OrganizationID event) (ev_Code event))")
  case True
  then show ?thesis using assms EnrichEvent_early [of sr event] by auto
next
  case False
  then obtain r' ev where "metric_step sr event = Inr (r', ev)" and "event' = ee_InitialEvent ev"
    using assms by (auto simp: EnrichEvent_steps split: sum.splits if_splits)
  then show ?thesis using metric_step_stems [of sr event r' ev] False by (auto simp: stems_from_def)
qed

lemma processEvent_failure:
  assumes "processEvent tps w event = Inr (result, event', log)"
  shows "Failure result \<and> IsRetryable result \<longleftrightarrow> retryable_failure w event"
    and "ev_IngestedAt event' = ev_IngestedAt event"
proof -
  obtain out where out: "processEvent_body (w_replies w 0) (w_surroundings w) event = Inr out"
    and "result = out_result out" and "event' = out_event out"
    using assms by (auto simp: processEvent_def split: sum.splits)
  then show "Failure result \<and> IsRetryable result \<longleftrightarrow> retryable_failure w event"
    by (auto simp: processEvent_body_def retryable_failure_def FlagSubscriptionRefresh_effects Let_def
      simp del: ExpireCache.simps pay_in_advance.simps
      split: sum.splits prod.splits if_splits list.splits option.splits)
  show "ev_IngestedAt event' = ev_IngestedAt event"
    using out \<open>event' = out_event out\<close> EnrichEvent_IngestedAt [of "w_surroundings w" event]
    by (auto simp: processEvent_body_def Let_def
      simp del: ExpireCache.simps pay_in_advance.simps
      split: sum.splits prod.splits if_splits list.splits)
qed

lemma marks_reports [simp]:
  "marks [LogError m] = []" "marks (CaptureErrorResultWithExtra r x log) = marks log"
  "marks (CaptureError er log) = marks log"
  "marks (ProduceToDeadLetterQueue (NewEventProducerService rp tps) now event r log) = marks log"
proof -
  obtain es where "ProduceToDeadLetterQueue (NewEventProducerService rp tps) now event r log = log @ es"
    and es: "\<forall>e \<in> set es. is_send e" using dead_letter_sends by blast
  moreover have "marks es = []" by (rule marks_none) (use es in auto)
  ultimately show "marks (ProduceToDeadLetterQueue (NewEventProducerService rp tps) now event r log) = marks log"
    by simp
qed (simp_all add: marks_none CaptureErrorResultWithExtra_def CaptureError_def)

text \<open>The goroutine of one record marks it, once, just when it is not withheld.\<close>

lemma process_record_marks:
  assumes "process_record tps w i record = Inr log"
  shows "marks log = (if withheld w record then [] else [i])"
proof (cases "unmarshal_event (sr_cvt (w_surroundings w)) (rec_Value record)")
  case None
  then show ?thesis using assms by (auto simp: process_record_def withheld_def)
next
  case (Some event)
  then obtain result event' plog where p: "processEvent tps w event = Inr (result, event', plog)"
    using assms by (auto simp: process_record_def split: sum.splits)
  have "marks plog = []" by (rule marks_none) (rule processEvent_marks [OF p])
  then show ?thesis
    using assms processEvent_failure [OF p]
    by (auto simp: process_record_def withheld_def Some p Let_def split: if_splits)
qed

lemma sequence_sum_map_Inr: "sequence_sum (map Inr xs) = Inr xs"
  by (induction xs) simp_all

lemma sequence_sum_Inr: "sequence_sum rs = Inr xs \<longleftrightarrow> rs = map Inr xs"
  by (induction rs arbitrary: xs rule: sequence_sum.induct) (auto simp: sequence_sum_map_Inr split: sum.splits)

lemma ProcessEvents_logs:
  assumes "ProcessEvents tps worlds schedule records = Inr (processed, log)"
  obtains logs where "length logs = length records" and "log = merge_logs schedule logs"
    and "processed = map ((!) records) (marks log)"
    and "\<And>i. i < length records \<Longrightarrow> process_record tps (worlds i) i (records ! i) = Inr (logs ! i)"
proof -
  obtain logs where logs: "map (\<lambda>i. process_record tps (worlds i) i (records ! i)) [0..<length records] = map Inr logs"
    and "log = merge_logs schedule logs" and "processed = map ((!) records) (marks log)"
    using assms by (auto simp: ProcessEvents_def sequence_sum_Inr processed_of_marks Let_def split: sum.splits)
  moreover have len: "length logs = length records" using logs by (metis length_map length_upt diff_zero)
  moreover have "process_record tps (worlds i) i (records ! i) = Inr (logs ! i)" if "i < length records" for i
    using arg_cong [OF logs, of "\<lambda>xs. xs ! i"] that len by simp
  ultimately show thesis using that by blast
qed

lemma ProcessEvents_marks:
  assumes "ProcessEvents tps worlds schedule records = Inr (processed, log)"
  shows "mset (marks log) = mset (filter (\<lambda>i. \<not> withheld (worlds i) (records ! i)) [0..<length records])"
proof -
  obtain logs where len: "length logs = length records" and log: "log = merge_logs schedule logs"
    and each: "\<And>i. i < length records \<Longrightarrow> process_record tps (worlds i) i (records ! i) = Inr (logs ! i)"
    using ProcessEvents_logs [OF assms] by metis
  have "marks (logs ! i) = (if withheld (worlds i) (records ! i) then [] else [i])" if "i < length records" for i
    by (rule process_record_marks [OF each [OF that]])
  then have "map (\<lambda>i. mset (marks (logs ! i))) [0..<length records] =
      map (\<lambda>i. if withheld (worlds i) (records ! i) then {#} else {#i#}) [0..<length records]"
    by simp
  moreover have "map (\<lambda>xs. mset (marks xs)) logs = map (\<lambda>i. mset (marks (logs ! i))) [0..<length records]"
    by (rule nth_equalityI) (simp_all add: len)
  moreover have "(\<Sum>i \<leftarrow> is. if P i then {#} else {#i#}) = mset (filter (\<lambda>i. \<not> P i) is)"
    for P and "is" :: "nat list"
    by (induction "is") simp_all
  ultimately show ?thesis by (simp only: log marks_merge)
qed

text \<open>Effects that only the first of several goroutines has keep its order.\<close>

lemma merge_logs_filter_first:
  "(\<And>t e. t \<in> set ts \<Longrightarrow> e \<in> set t \<Longrightarrow> \<not> P e) \<Longrightarrow>
   filter P (merge_logs sch (main # ts)) = filter P main"
proof (induction sch "main # ts" arbitrary: main ts rule: merge_logs.induct)
  case 1
  then have "filter P (concat ts) = []" by (auto simp: filter_empty_conv)
  then show ?case by simp
next
  case (2 i "is")
  show ?case
  proof (cases "i < length (main # ts) \<and> (main # ts) ! i \<noteq> []")
    case False
    have "filter P (merge_logs is (main # ts)) = filter P main" by (rule 2(2) [OF False]) (rule 2(3))
    then show ?thesis using False by (simp only: merge_logs.simps if_False)
  next
    case True
    show ?thesis
    proof (cases i)
      case 0
      have "filter P (merge_logs is (tl main # ts)) = filter P (tl main)"
        by (rule 2(1) [OF True]) (simp_all add: 0 2(3))
      then show ?thesis using True 0 by (cases main) auto
    next
      case (Suc j)
      then have j: "ts ! j \<in> set ts" "ts ! j \<noteq> []" using True by auto
      have rest: "\<not> P e" if "t \<in> set (ts[j := tl (ts ! j)])" "e \<in> set t" for t e
        using that j set_update_subset_insert [of ts j "tl (ts ! j)"] 2(3) by (metis insertE list.set_sel(2) subsetD)
      have "filter P (merge_logs is (main # ts[j := tl (ts ! j)])) = filter P main"
        by (rule 2(1) [OF True]) (simp_all add: Suc rest)
      moreover have "\<not> P (hd (ts ! j))" using 2(3) j by simp
      ultimately show ?thesis using True Suc by simp
    qed
  qed
qed

text \<open>The calls and Redis commands of an event, as a function of its enriched events.\<close>

definition refreshes :: "Event \<Rightarrow> EnrichedEvent list \<Rightarrow> bool" where
  "refreshes event evs \<longleftrightarrow> ee_Subscription (hd evs) \<noteq> None \<and> NotAPIPostProcessed event"

definition event_tasks :: "Event \<Rightarrow> EnrichedEvent list \<Rightarrow> task list" where
  "event_tasks event evs =
     Enriched (hd evs) # map EnrichedExpanded (filter (\<lambda>ev. ee_ChargeID ev \<noteq> None) evs) @
     (if refreshes event evs \<and> (\<exists>ev \<in> set evs. \<exists>ff. ee_FlatFilter ev = Some ff \<and> ff_PayInAdvance ff)
      then [ChargedInAdvance (hd evs)] else [])"

definition redis_commands :: "replies \<Rightarrow> Event \<Rightarrow> EnrichedEvent list \<Rightarrow> effect list" where
  "redis_commands rp event evs =
     (let flag = SAdd refreshed (refresh_flag (hd evs))
      in if \<not> refreshes event evs then []
         else if rp [] flag \<noteq> None then [flag]
         else flag # map (\<lambda>k. ExpireKeyIn k EXPIRATION_TIME) (usage_keys evs))"

lemma pay_in_advance_iff: "pay_in_advance evs \<longleftrightarrow> (\<exists>ev \<in> set evs. \<exists>ff. ee_FlatFilter ev = Some ff \<and> ff_PayInAdvance ff)"
  by (induction evs) (auto split: option.splits)

lemma processEvent_body_enriched:
  assumes "EnrichEvent sr event = Inr (r, event')" and "Success r" and "Value r \<noteq> []"
  shows "\<exists>out. processEvent_body rp sr event = Inr out \<and> out_event out = event' \<and>
    out_tasks out = event_tasks event' (Value r) \<and>
    filter (\<lambda>e. is_flag e \<or> is_expiry e) (out_log out) = redis_commands rp event' (Value r) \<and>
    (Success (out_result out) \<longleftrightarrow>
       \<not> (refreshes event' (Value r) \<and> rp [] (SAdd refreshed (refresh_flag (hd (Value r)))) \<noteq> None)) \<and>
    (Failure (out_result out) \<longrightarrow> ErrorCode (out_result out) = ''flag_subscription_refresh'' \<and>
       IsRetryable (out_result out) \<and> IsCapturable (out_result out))"
proof -
  obtain ee others where v: "Value r = ee # others" using assms(3) by (cases "Value r") auto
  obtain es where es: "ExpireCache (CacheStore_ExpireKey rp) (Value r) [SAdd refreshed (refresh_flag ee)] =
      [SAdd refreshed (refresh_flag ee)] @ es" "\<forall>e \<in> set es. is_report e \<or> is_expiry e"
    "filter is_expiry es = map (\<lambda>k. ExpireKeyIn k EXPIRATION_TIME) (usage_keys (Value r))"
    using ExpireCache_only by blast
  have "is_flag e \<or> is_expiry e \<longleftrightarrow> is_expiry e" if "e \<in> set es" for e
    using es(2) that by (cases e) auto
  then have f: "filter (\<lambda>e. is_flag e \<or> is_expiry e) es = filter is_expiry es" by (rule filter_cong [OF refl])
  have nf: "\<not> Failure r" using assms(2) by (simp add: not_failure_iff)
  have fs: "Success x \<longleftrightarrow> \<not> Failure x" for x :: "EnrichedEvent option result" by (simp add: result_simps)
  show ?thesis
    using es(1) f es(3) unfolding v
    by (simp add: processEvent_body_def assms(1) nf v FlagSubscriptionRefresh_effects refreshes_def
      event_tasks_def redis_commands_def expanded_tasks_def pay_in_advance_iff fs Let_def
      del: ExpireCache.simps pay_in_advance.simps split: option.split) blast
qed

lemma processEvent_enriched:
  assumes "EnrichEvent (w_surroundings w) event = Inr (r, event')" and "Success r" and "Value r \<noteq> []"
  shows "\<exists>result log. processEvent tps w event = Inr (result, event', log) \<and>
    mset (pushes log) = mset (tasks_pushes tps w (event_tasks event' (Value r))) \<and>
    filter (\<lambda>e. is_flag e \<or> is_expiry e) log = redis_commands (w_replies w 0) event' (Value r) \<and>
    (Success result \<longleftrightarrow> \<not> (refreshes event' (Value r) \<and>
       w_replies w 0 [] (SAdd refreshed (refresh_flag (hd (Value r)))) \<noteq> None)) \<and>
    (Failure result \<longrightarrow> ErrorCode result = ''flag_subscription_refresh'' \<and> IsRetryable result \<and> IsCapturable result)"
proof -
  obtain out where out: "processEvent_body (w_replies w 0) (w_surroundings w) event = Inr out"
    and e: "out_event out = event'" and t: "out_tasks out = event_tasks event' (Value r)"
    and f: "filter (\<lambda>e. is_flag e \<or> is_expiry e) (out_log out) = redis_commands (w_replies w 0) event' (Value r)"
    and rest: "(Success (out_result out) \<longleftrightarrow> \<not> (refreshes event' (Value r) \<and>
       w_replies w 0 [] (SAdd refreshed (refresh_flag (hd (Value r)))) \<noteq> None)) \<and>
     (Failure (out_result out) \<longrightarrow> ErrorCode (out_result out) = ''flag_subscription_refresh'' \<and>
       IsRetryable (out_result out) \<and> IsCapturable (out_result out))"
    using processEvent_body_enriched [OF assms, of "w_replies w 0"] by blast
  obtain log where log: "processEvent tps w event = Inr (out_result out, out_event out, log)"
    and p: "mset (pushes log) = mset (tasks_pushes tps w (out_tasks out))"
    using processEvent_pushes [OF out] by blast
  have "\<not> (is_flag x \<or> is_expiry x)" if "ts \<in> set (child_logs tps w (out_tasks out))" "x \<in> set ts" for ts x
    using child_logs_sends [OF that] by (cases x) auto
  then have "filter (\<lambda>e. is_flag e \<or> is_expiry e) log = filter (\<lambda>e. is_flag e \<or> is_expiry e) (out_log out)"
    using log merge_logs_filter_first [of "child_logs tps w (out_tasks out)" "\<lambda>e. is_flag e \<or> is_expiry e"]
    by (auto simp: processEvent_def out)
  with log p e t f rest show ?thesis by auto
qed

lemma process_record_panic:
  assumes "process_record tps w i record = Inl p" and "range_ok (w_surroundings w)"
  shows "\<exists>event. unmarshal_event (sr_cvt (w_surroundings w)) (rec_Value record) = Some event \<and>
    ev_Properties event = None \<and> p = nil_map_write"
proof -
  obtain event where event: "unmarshal_event (sr_cvt (w_surroundings w)) (rec_Value record) = Some event"
    and "processEvent tps w event = Inl p"
    using assms(1) by (auto simp: process_record_def Let_def split: option.splits sum.splits if_splits)
  then have body: "processEvent_body (w_replies w 0) (w_surroundings w) event = Inl p"
    by (auto simp: processEvent_def split: sum.splits)
  have "EnrichEvent (w_surroundings w) event = Inl p"
  proof (cases "EnrichEvent (w_surroundings w) event")
    case (Inr x)
    obtain r event' where x: "x = (r, event')" by (cases x)
    have "\<not> Failure r"
    proof
      assume "Failure r"
      with body Inr x show False by (simp add: processEvent_body_def)
    qed
    then have "Value r \<noteq> []" "Success r"
      using EnrichEvent_success [OF assms(2)] Inr x by (auto simp: not_failure_iff)
    from processEvent_body_enriched [OF Inr [unfolded x] this(2,1), of "w_replies w 0"] body
    show ?thesis by auto
  qed (use body in \<open>simp add: processEvent_body_def\<close>)
  with event EnrichEvent_panic [OF assms(2)] show ?thesis by blast
qed

lemma sequence_sum_error: "sequence_sum rs = Inl p \<Longrightarrow> Inl p \<in> set rs"
  by (induction rs rule: sequence_sum.induct) (auto split: sum.splits)

section \<open>Sample data\<close>

definition sample_bytes :: string where
  "sample_bytes =
     render (JObj [(''organization_id'', JStr ''org''), (''external_subscription_id'', JStr ''ext''),
       (''code'', JStr ''api''), (''properties'', JObj [(''scheme'', JStr ''visa'')]),
       (''timestamp'', JNum ''5''), (''ingested_at'', JStr ''1970-01-01T00:00:00'')])"

definition sample_record :: "string \<Rightarrow> int \<Rightarrow> kgo_record" where
  "sample_record val offset = \<lparr>rec_Key = ''k'', rec_Value = val, rec_Offset = offset\<rparr>"

definition sample_topics :: topics where
  "sample_topics = \<lparr>tp_enriched = ''enriched'', tp_expanded = ''expanded'', tp_in_advance = ''in_advance'',
     tp_dead_letter = ''dead_letter''\<rparr>"

text \<open>All services answer, except that Redis refuses the flag when told so.\<close>

definition sample_world :: "string \<Rightarrow> bool \<Rightarrow> world" where
  "sample_world expression refuse =
     \<lparr>w_surroundings = sample_surroundings expression,
      w_replies = (\<lambda>k log e. if refuse \<and> is_flag e then Some ''redis'' else None),
      w_now = (\<lambda>k. 0), w_checked_at = 0, w_schedule = [2, 0, 1], w_unmarshal_error = ''bad''\<rparr>"

definition sample_decoded :: Event where
  "sample_decoded =
     zero_event\<lparr>ev_OrganizationID := ''org'', ev_ExternalSubscriptionID := ''ext'', ev_Code := ''api'',
       ev_Properties := Some [(''scheme'', GStr ''visa'')], ev_Timestamp := GNum (float_of_int 5),
       ev_IngestedAt := 0\<rparr>"

lemma sample_unmarshal: "unmarshal_event cvt sample_bytes = Some sample_decoded"
  by code_simp

lemma sample_world_simps [simp]:
  "w_surroundings (sample_world e refuse) = sample_surroundings e"
  "sr_cvt (sample_surroundings e) = (\<lambda>x. 0)"
  by (simp_all add: sample_world_def sample_surroundings_def)

lemma sample_enriched:
  "case EnrichEvent (sample_surroundings []) sample_decoded of
     Inl p \<Rightarrow> False
   | Inr (r, event') \<Rightarrow> event' = sample_decoded \<and> Success r \<and> Value r \<noteq> [] \<and>
       refreshes event' (Value r)"
  by code_simp

lemma sample_process:
  obtains r where "EnrichEvent (w_surroundings (sample_world [] refuse)) sample_decoded = Inr (r, sample_decoded)"
    and "Success r" and "Value r \<noteq> []" and "refreshes sample_decoded (Value r)"
  using sample_enriched by (auto split: sum.splits prod.splits)

lemma sample_not_withheld: "\<not> withheld (sample_world [] False) (sample_record sample_bytes o1)"
proof -
  obtain r where "EnrichEvent (w_surroundings (sample_world [] False)) sample_decoded = Inr (r, sample_decoded)"
    and "Success r" and "Value r \<noteq> []" by (rule sample_process)
  moreover from this(2) have "\<not> Failure r" by (simp add: not_failure_iff)
  ultimately show ?thesis
    by (cases "Value r") (simp_all add: withheld_def sample_record_def sample_unmarshal retryable_failure_def
      sample_world_def)
qed

lemma ProcessEvents_handled:
  assumes "ProcessEvents tps worlds schedule records = Inr (processed, log)"
    and "i < length records" and "\<not> withheld (worlds i) (records ! i)"
  shows "case unmarshal_event (sr_cvt (w_surroundings (worlds i))) (rec_Value (records ! i)) of
      None \<Rightarrow> CaptureException [] [] [] (Some (w_unmarshal_error (worlds i))) \<in> set log
    | Some event \<Rightarrow> \<exists>result event' own. processEvent tps (worlds i) event = Inr (result, event', own) \<and>
        set own \<subseteq> set log \<and>
        (Success result \<or> ProduceSync (tp_dead_letter tps) None
           (dead_letter (w_now (worlds i) 0) event' result) \<in> set log)"
proof -
  let ?w = "worlds i"
  obtain logs where len: "length logs = length records" and log: "log = merge_logs schedule logs"
    and each: "\<And>i. i < length records \<Longrightarrow> process_record tps (worlds i) i (records ! i) = Inr (logs ! i)"
    using ProcessEvents_logs [OF assms(1)] by metis
  have sub: "set (logs ! i) \<subseteq> set log" using assms(2) len log by (auto simp: interleave intro!: bexI [of _ "logs ! i"])
  have p: "process_record tps ?w i (records ! i) = Inr (logs ! i)" by (rule each [OF assms(2)])
  show ?thesis
  proof (cases "unmarshal_event (sr_cvt (w_surroundings ?w)) (rec_Value (records ! i))")
    case None
    then have "logs ! i = [LogError ''Error unmarshalling message'',
        CaptureException [] [] [] (Some (w_unmarshal_error ?w)), MarkProcessed i]"
      using p by (simp add: process_record_def CaptureError_def)
    with None sub show ?thesis by simp
  next
    case (Some event)
    then obtain result event' own where e: "processEvent tps ?w event = Inr (result, event', own)"
      using p by (auto simp: process_record_def split: sum.splits)
    show ?thesis
    proof (cases "Failure result")
      case False
      then have "own @ [MarkProcessed i] = logs ! i" using p e Some by (simp add: process_record_def)
      then have "set own \<subseteq> set log" using sub by (metis le_sup_iff order_trans set_append)
      with False e Some show ?thesis by (simp add: not_failure_iff)
    next
      case True
      then have old: "\<not> (IsRetryable result \<and> time_sub (w_checked_at ?w) (ev_IngestedAt event') < twelve_hours)"
        using assms(3) processEvent_failure [OF e] by (auto simp: withheld_def Some)
      define l where "l = (if IsCapturable result
        then CaptureErrorResultWithExtra result ''event'' (own @ [LogError (ErrorMessage result)])
        else own @ [LogError (ErrorMessage result)])"
      have "process_record tps ?w i (records ! i) = Inr (ProduceToDeadLetterQueue
          (NewEventProducerService (w_replies ?w 0) tps) (w_now ?w 0) event' result l @ [MarkProcessed i])"
        using old by (auto simp: process_record_def Some e True l_def Let_def)
      then have "logs ! i = ProduceToDeadLetterQueue (NewEventProducerService (w_replies ?w 0) tps) (w_now ?w 0)
          event' result l @ [MarkProcessed i]"
        using p by simp
      moreover obtain es where "ProduceToDeadLetterQueue (NewEventProducerService (w_replies ?w 0) tps) (w_now ?w 0)
          event' result l = l @ es"
        and es: "pushes es = [ProduceSync (tp_dead_letter tps) None (dead_letter (w_now ?w 0) event' result)]"
        using dead_letter_sends by blast
      moreover have "ProduceSync (tp_dead_letter tps) None (dead_letter (w_now ?w 0) event' result) \<in> set es"
        using arg_cong [OF es, of set] by (auto simp: pushes_def)
      moreover have "set own \<subseteq> set l" by (auto simp: l_def CaptureErrorResultWithExtra_def)
      ultimately show ?thesis using Some e sub by auto
    qed
  qed
qed

lemma ProcessEvents_total:
  assumes "\<forall>i < length records. range_ok (w_surroundings (worlds i))"
    and "\<forall>i < length records. \<forall>event.
      unmarshal_event (sr_cvt (w_surroundings (worlds i))) (rec_Value (records ! i)) = Some event \<longrightarrow>
      ev_Properties event \<noteq> None"
  shows "\<exists>processed log. ProcessEvents tps worlds schedule records = Inr (processed, log)"
proof (cases "ProcessEvents tps worlds schedule records")
  case (Inl p)
  then have "Inl p \<in> set (map (\<lambda>i. process_record tps (worlds i) i (records ! i)) [0..<length records])"
    by (intro sequence_sum_error) (auto simp: ProcessEvents_def Let_def split: sum.splits)
  then obtain i where "i < length records" and "process_record tps (worlds i) i (records ! i) = Inl p"
    by force
  with process_record_panic [of tps "worlds i" i "records ! i" p] assms show ?thesis by auto
next
  case (Inr x)
  then show ?thesis by (cases x) simp
qed

lemma sample_withheld: "withheld (sample_world [] True) (sample_record sample_bytes n)"
proof -
  obtain r where e: "EnrichEvent (w_surroundings (sample_world [] True)) sample_decoded = Inr (r, sample_decoded)"
    and r: "Success r" "Value r \<noteq> []" and f: "refreshes sample_decoded (Value r)" by (rule sample_process)
  then have "\<not> Failure r" by (simp add: not_failure_iff)
  then have "retryable_failure (sample_world [] True) sample_decoded"
    using e f r(2) by (cases "Value r") (simp_all add: retryable_failure_def refreshes_def sample_world_def)
  moreover have "time_sub (w_checked_at (sample_world [] True)) (ev_IngestedAt sample_decoded) < twelve_hours"
    by (simp add: sample_world_def sample_decoded_def time_sub_def twelve_hours_def second_def)
  ultimately show ?thesis by (simp add: withheld_def sample_record_def sample_unmarshal)
qed

lemma sample_returns:
  assumes "\<forall>r \<in> set records. rec_Value r = sample_bytes"
  shows "\<exists>processed log. ProcessEvents sample_topics (\<lambda>i. sample_world [] (P i)) schedule records = Inr (processed, log)"
  by (rule ProcessEvents_total) (use assms in \<open>auto simp: sample_unmarshal sample_decoded_def\<close>)

section \<open>Properties\<close>

text \<open>
  C25: a batch never panics as long as no readable event in it lacks its properties: every goroutine
  runs to its end, whatever the services answer and however they interleave.
\<close>

theorem process_events_returns:
  assumes "\<forall>i < length records. range_ok (w_surroundings (worlds i))"
    and "\<forall>i < length records. \<forall>event.
      unmarshal_event (sr_cvt (w_surroundings (worlds i))) (rec_Value (records ! i)) = Some event \<longrightarrow>
      ev_Properties event \<noteq> None"
  shows "\<exists>processed log. ProcessEvents tps worlds schedule records = Inr (processed, log)"
  using assms by (rule ProcessEvents_total)

theorem process_events_returns_witness:
  "\<exists>processed log. ProcessEvents sample_topics (\<lambda>i. sample_world [] False) [1, 0]
     [sample_record sample_bytes 7, sample_record ''not json'' 8] = Inr (processed, log)"
proof (rule process_events_returns)
  have "unmarshal_event (\<lambda>x. 0) ''not json'' = None" by code_simp
  then show "\<forall>i < length [sample_record sample_bytes 7, sample_record ''not json'' 8]. \<forall>event.
      unmarshal_event (sr_cvt (w_surroundings (sample_world [] False)))
        (rec_Value ([sample_record sample_bytes 7, sample_record ''not json'' 8] ! i)) = Some event \<longrightarrow>
      ev_Properties event \<noteq> None"
    by (auto simp: less_Suc_eq sample_record_def sample_unmarshal sample_decoded_def)
qed simp

text \<open>
  C14: the records that a batch gives back as processed are, each once, exactly the records that are
  not withheld. Withheld are the readable events that fail in a way that may be retried (a metric,
  subscription or filters that could not be fetched, a flag that Redis refuses) while they are
  younger than twelve hours.
\<close>

theorem process_events_processed:
  assumes "ProcessEvents tps worlds schedule records = Inr (processed, log)"
  shows "mset processed =
    mset (map ((!) records) (filter (\<lambda>i. \<not> withheld (worlds i) (records ! i)) [0..<length records]))"
proof -
  obtain logs where "processed = map ((!) records) (marks log)"
    using ProcessEvents_logs [OF assms] by metis
  then show ?thesis using ProcessEvents_marks [OF assms] by (metis mset_map)
qed

theorem process_events_processed_witness:
  "\<exists>log. ProcessEvents sample_topics (\<lambda>i. sample_world [] False) [] [sample_record sample_bytes 7] =
     Inr ([sample_record sample_bytes 7], log)"
proof -
  have "\<exists>x. ProcessEvents sample_topics (\<lambda>i. sample_world [] False) [] [sample_record sample_bytes 7] = Inr x"
  proof (cases "ProcessEvents sample_topics (\<lambda>i. sample_world [] False) [] [sample_record sample_bytes 7]")
    case (Inl p)
    then have "process_record sample_topics (sample_world [] False) 0 (sample_record sample_bytes 7) = Inl p"
      by (auto simp: ProcessEvents_def Let_def split: sum.splits dest!: sequence_sum_error)
    from process_record_panic [OF this] show ?thesis
      by (simp add: sample_record_def sample_unmarshal sample_decoded_def)
  qed simp
  then obtain processed log where
    p: "ProcessEvents sample_topics (\<lambda>i. sample_world [] False) [] [sample_record sample_bytes 7] = Inr (processed, log)"
    by auto
  from process_events_processed [OF p] have "mset processed = {#sample_record sample_bytes 7#}"
    by (simp add: sample_not_withheld)
  then have "processed = [sample_record sample_bytes 7]" by simp
  with p show ?thesis by simp
qed

text \<open>
  No record is given back as processed without having been handled: its JSON was refused and the
  refusal captured, or the event went through \<open>processEvent\<close> with success, or its failure was put
  on the dead letter queue with the event as it is after the failure.
\<close>

theorem processed_records_handled:
  assumes "ProcessEvents tps worlds schedule records = Inr (processed, log)"
    and "i < length records" and "\<not> withheld (worlds i) (records ! i)"
  shows "case unmarshal_event (sr_cvt (w_surroundings (worlds i))) (rec_Value (records ! i)) of
      None \<Rightarrow> CaptureException [] [] [] (Some (w_unmarshal_error (worlds i))) \<in> set log
    | Some event \<Rightarrow> \<exists>result event' own. processEvent tps (worlds i) event = Inr (result, event', own) \<and>
        set own \<subseteq> set log \<and>
        (Success result \<or> ProduceSync (tp_dead_letter tps) None
           (dead_letter (w_now (worlds i) 0) event' result) \<in> set log)"
  using assms by (rule ProcessEvents_handled)

theorem processed_records_handled_witness:
  "case ProcessEvents sample_topics (\<lambda>i. sample_world [] False) [] [sample_record ''not json'' 8] of
     Inl p \<Rightarrow> False
   | Inr (processed, log) \<Rightarrow> CaptureException [] [] [] (Some ''bad'') \<in> set log"
proof -
  let ?r = "sample_record ''not json'' 8"
  have none: "unmarshal_event (sr_cvt (w_surroundings (sample_world [] False))) (rec_Value ?r) = None"
    by code_simp
  then obtain processed log where
    p: "ProcessEvents sample_topics (\<lambda>i. sample_world [] False) [] [?r] = Inr (processed, log)"
    by (simp add: ProcessEvents_def process_record_def Let_def)
  from processed_records_handled [OF p, of 0] none show ?thesis
    by (simp add: p withheld_def) (simp add: sample_world_def)
qed

text \<open>
  C21: an event that could be enriched is published exactly once per purpose, whatever the schedule:
  one enriched record, one expanded record per event with a charge, and one in advance record just
  when the subscription is to be refreshed and one of the chosen filters is paid in advance; beside
  these only the dead letters of refused records leave the process. The Redis commands come in the
  order flag, then expiries, and only for an event with a subscription that the API has not
  processed itself.
\<close>

theorem event_published:
  assumes "EnrichEvent (w_surroundings w) event = Inr (r, event')" and "Success r" and "Value r \<noteq> []"
  shows "\<exists>result log. processEvent tps w event = Inr (result, event', log) \<and>
    mset (pushes log) = mset (tasks_pushes tps w (event_tasks event' (Value r))) \<and>
    filter (\<lambda>e. is_flag e \<or> is_expiry e) log = redis_commands (w_replies w 0) event' (Value r)"
  using processEvent_enriched [OF assms, of tps] by blast

theorem event_published_witness:
  "\<exists>result log. processEvent sample_topics (sample_world [] False) sample_decoded = Inr (result, sample_decoded, log) \<and>
     (\<exists>es. filter (\<lambda>e. is_flag e \<or> is_expiry e) log = SAdd refreshed (''org'' @ '':'' @ ''sub1'') # es)"
proof -
  obtain r where e: "EnrichEvent (w_surroundings (sample_world [] False)) sample_decoded = Inr (r, sample_decoded)"
    and r: "Success r" "Value r \<noteq> []" and f: "refreshes sample_decoded (Value r)" by (rule sample_process)
  have "case EnrichEvent (sample_surroundings []) sample_decoded of
      Inl p \<Rightarrow> False | Inr (r, e) \<Rightarrow> refresh_flag (hd (Value r)) = ''org'' @ '':'' @ ''sub1''"
    by code_simp
  then have k: "refresh_flag (hd (Value r)) = ''org'' @ '':'' @ ''sub1''" using e by simp
  from event_published [OF e r, of sample_topics] f k show ?thesis
    by (auto simp: redis_commands_def Let_def sample_world_def)
qed

text \<open>
  An event whose flag Redis refuses is withheld and will be consumed again although its records
  have already been sent: processing is at least once, the retry publishes them a second time. Its
  cached usage is not expired.
\<close>

theorem refused_flag_republishes:
  assumes "unmarshal_event (sr_cvt (w_surroundings w)) (rec_Value record) = Some event"
    and "EnrichEvent (w_surroundings w) event = Inr (r, event')" and "Success r" and "Value r \<noteq> []"
    and "refreshes event' (Value r)"
    and "w_replies w 0 [] (SAdd refreshed (refresh_flag (hd (Value r)))) \<noteq> None"
    and "time_sub (w_checked_at w) (ev_IngestedAt event) < twelve_hours"
  shows "withheld w record \<and> (\<exists>log. process_record tps w i record = Inr log \<and>
    mset (pushes log) = mset (tasks_pushes tps w (event_tasks event' (Value r))) \<and>
    filter is_expiry log = [])"
proof -
  obtain result plog where p: "processEvent tps w event = Inr (result, event', plog)"
    and pushed: "mset (pushes plog) = mset (tasks_pushes tps w (event_tasks event' (Value r)))"
    and redis: "filter (\<lambda>e. is_flag e \<or> is_expiry e) plog = [SAdd refreshed (refresh_flag (hd (Value r)))]"
    and failed: "Failure result" "IsRetryable result" "IsCapturable result"
    using processEvent_enriched [OF assms(2-4), of tps] assms(5,6)
    by (auto simp: redis_commands_def Let_def not_failure_iff [symmetric])
  have age: "time_sub (w_checked_at w) (ev_IngestedAt event') < twelve_hours"
    using processEvent_failure(2) [OF p] assms(7) by simp
  have "filter is_expiry (filter (\<lambda>e. is_flag e \<or> is_expiry e) plog) = []" by (simp add: redis)
  then have "filter is_expiry plog = []" by (auto simp: filter_empty_conv)
  moreover have "withheld w record"
    using assms(1,7) processEvent_failure(1) [OF p] failed by (simp add: withheld_def)
  moreover have "process_record tps w i record =
      Inr (CaptureErrorResultWithExtra result ''event'' (plog @ [LogError (ErrorMessage result)]))"
    using assms(1) p failed age by (simp add: process_record_def)
  ultimately show ?thesis using pushed by (simp add: CaptureErrorResultWithExtra_def)
qed

theorem refused_flag_republishes_witness:
  "withheld (sample_world [] True) (sample_record sample_bytes 7)"
proof -
  obtain r where e: "EnrichEvent (w_surroundings (sample_world [] True)) sample_decoded = Inr (r, sample_decoded)"
    and r: "Success r" "Value r \<noteq> []" and f: "refreshes sample_decoded (Value r)" by (rule sample_process)
  have "unmarshal_event (sr_cvt (w_surroundings (sample_world [] True))) (rec_Value (sample_record sample_bytes 7)) =
      Some sample_decoded"
    by (simp add: sample_record_def sample_unmarshal)
  moreover have "w_replies (sample_world [] True) 0 [] (SAdd refreshed (refresh_flag (hd (Value r)))) \<noteq> None"
    by (simp add: sample_world_def)
  moreover have "time_sub (w_checked_at (sample_world [] True)) (ev_IngestedAt sample_decoded) < twelve_hours"
    by (simp add: sample_world_def sample_decoded_def time_sub_def twelve_hours_def second_def)
  ultimately show ?thesis using refused_flag_republishes [OF _ e r f] by blast
qed

text \<open>
  An event without an ingestion time is never retried: its time is the zero time of Go, so that
  its age is beyond twelve hours at any moment after the year 1, and each of its failures goes to
  the dead letter queue at once.
\<close>

theorem no_ingestion_time_no_retry:
  assumes "unmarshal_event (sr_cvt (w_surroundings w)) (rec_Value record) = Some event"
    and "ev_IngestedAt event = zero_time" and "zero_time + twelve_hours \<le> w_checked_at w"
  shows "\<not> withheld w record"
proof -
  have "twelve_hours \<le> time_sub (w_checked_at w) (ev_IngestedAt event)"
    using assms(2,3) by (simp add: time_sub_def twelve_hours_def second_def)
  with assms(1) show ?thesis by (simp add: withheld_def)
qed

theorem no_ingestion_time_no_retry_witness:
  "\<not> withheld (sample_world [] True) (sample_record ''{}'' 7)"
proof -
  have "unmarshal_event (\<lambda>x. 0) ''{}'' = Some zero_event" by code_simp
  moreover have "zero_time + twelve_hours \<le> 0" by code_simp
  ultimately show ?thesis
    by (intro no_ingestion_time_no_retry [of _ _ zero_event])
      (simp_all add: sample_record_def, simp_all add: zero_event_def sample_world_def)
qed

end
