(* ===== verification/Commit.thy ===== *)
theory Commit
  imports Processor
begin

text \<open>
  The committing part of \<open>config/kafka/consumer.go\<close>: which records of a batch are handed to the
  Kafka client's \<open>CommitRecords\<close> after the batch was processed. A \<open>nil\<close> record is \<open>None\<close>.
\<close>

section \<open>The record to commit\<close>

definition MaxInt64 :: int where
  "MaxInt64 = 2 ^ 63 - 1"

definition record_key :: "kgo_record \<Rightarrow> string" where
  "record_key record = rec_Key record @ ''-'' @ show_int (rec_Offset record)"

text \<open>The three loops of \<open>findMaxCommitableRecord\<close>.\<close>

fun processed_loop :: "kgo_record list \<Rightarrow> (string \<times> bool) list \<Rightarrow> (string \<times> bool) list" where
  "processed_loop [] processedMap = processedMap"
| "processed_loop (r # rs) processedMap = processed_loop rs (upsert (record_key r) True processedMap)"

definition is_processed :: "(string \<times> bool) list \<Rightarrow> kgo_record \<Rightarrow> bool" where
  "is_processed processedMap r = (case map_of processedMap (record_key r) of None \<Rightarrow> False | Some b \<Rightarrow> b)"

fun min_loop :: "(string \<times> bool) list \<Rightarrow> kgo_record list \<Rightarrow> int \<Rightarrow> bool \<Rightarrow> int" where
  "min_loop processedMap [] minUnprocessedOffset foundUnprocessed = minUnprocessedOffset"
| "min_loop processedMap (r # rs) minUnprocessedOffset foundUnprocessed =
     (if \<not> is_processed processedMap r then
        (if \<not> foundUnprocessed \<or> rec_Offset r < minUnprocessedOffset
         then min_loop processedMap rs (rec_Offset r) True
         else min_loop processedMap rs minUnprocessedOffset foundUnprocessed)
      else min_loop processedMap rs minUnprocessedOffset foundUnprocessed)"

fun max_loop :: "int \<Rightarrow> kgo_record list \<Rightarrow> kgo_record option \<Rightarrow> kgo_record option" where
  "max_loop minUnprocessedOffset [] maxRecord = maxRecord"
| "max_loop minUnprocessedOffset (r # rs) maxRecord =
     max_loop minUnprocessedOffset rs
       (if rec_Offset r < minUnprocessedOffset \<and>
           (case maxRecord of None \<Rightarrow> True | Some m \<Rightarrow> rec_Offset m < rec_Offset r)
        then Some r else maxRecord)"

definition findMaxCommitableRecord :: "kgo_record list \<Rightarrow> kgo_record list \<Rightarrow> kgo_record option" where
  "findMaxCommitableRecord processedRecords records =
     max_loop (min_loop (processed_loop processedRecords []) records MaxInt64 False) processedRecords None"

section \<open>Processing and committing a batch\<close>

definition commitable :: "kgo_record list \<Rightarrow> kgo_record list \<Rightarrow> kgo_record option list" where
  "commitable processedRecords records =
     (if length processedRecords \<noteq> length records
      then [findMaxCommitableRecord processedRecords records]
      else map Some records)"

text \<open>
  The fields of \<open>PartitionConsumer\<close> that its methods read besides its channels.
  \<open>processRecords\<close> is the callback of the consumer group and \<open>commit\<close> the client's answer to
  \<open>CommitRecords\<close>, an error or none, or its panic; the result is what was handed to it, and the effects.
  The error message reads the last record of the batch, which panics on an empty one.
\<close>

record PartitionConsumer =
  pc_topic :: string
  pc_partition :: int

definition commit_error_text :: "PartitionConsumer \<Rightarrow> goerror \<Rightarrow> kgo_record \<Rightarrow> string" where
  "commit_error_text pc e record =
     ''Error when committing offets to kafka. Error: '' @ e @ '' topic: '' @ pc_topic pc @
     '' partition: '' @ show_int (pc_partition pc) @ '' offset: '' @
     show_int (wrap64 (rec_Offset record + 1)) @ [CHR 0x0A]"

definition processRecordsAndCommit ::
    "PartitionConsumer \<Rightarrow> (kgo_record list \<Rightarrow> panic + kgo_record list \<times> effect list) \<Rightarrow> 
     (kgo_record option list \<Rightarrow> panic + goerror option) \<Rightarrow> kgo_record list \<Rightarrow> panic + kgo_record option list \<times> effect list" where
  "processRecordsAndCommit pc processRecords commit records =
     (case processRecords records of
        Inl p \<Rightarrow> Inl p
      | Inr (processedRecords, log) \<Rightarrow>
          (let commitableRecords = commitable processedRecords records
           in case commit commitableRecords of
                Inl p \<Rightarrow> Inl p
              | Inr None \<Rightarrow> Inr (commitableRecords, log)
              | Inr (Some e) \<Rightarrow>
                  (if records = [] then Inl index_out_of_range
                   else Inr (commitableRecords,
                          CaptureError (Some e) (log @ [LogError (commit_error_text pc e (last records))])))))"

section \<open>The reference\<close>

text \<open>The records of a batch that are not processed, as the code tells them apart: by key and offset.\<close>

definition unprocessed :: "kgo_record list \<Rightarrow> kgo_record list \<Rightarrow> kgo_record set" where
  "unprocessed processed records = {r \<in> set records. record_key r \<notin> record_key ` set processed}"

text \<open>A record that lies below every unprocessed one.\<close>

definition below_unprocessed :: "kgo_record list \<Rightarrow> kgo_record list \<Rightarrow> kgo_record \<Rightarrow> bool" where
  "below_unprocessed processed records m \<longleftrightarrow>
     (\<forall>r \<in> unprocessed processed records. rec_Offset m < rec_Offset r)"

text \<open>
  What \<open>CommitRecords\<close> documents: the group continues one past the highest offset among the records
  of the partition; a group that has committed \<open>offset\<close> is never given a record before it again.
\<close>

fun committed_offset :: "kgo_record option list \<Rightarrow> int option" where
  "committed_offset [] = None"
| "committed_offset (None # rs) = committed_offset rs"
| "committed_offset (Some r # rs) =
     (case committed_offset rs of None \<Rightarrow> Some (rec_Offset r + 1)
      | Some c \<Rightarrow> Some (max (rec_Offset r + 1) c))"

section \<open>Lemmas\<close>

lemma processed_loop_of:
  "map_of (processed_loop rs m) k = (if k \<in> record_key ` set rs then Some True else map_of m k)"
  by (induction rs m rule: processed_loop.induct) (auto simp: map_of_upsert)

lemma is_processed_iff: "is_processed (processed_loop rs []) r \<longleftrightarrow> record_key r \<in> record_key ` set rs"
  by (simp add: is_processed_def processed_loop_of)

lemma min_loop_le:
  "(r \<in> set rs \<and> \<not> is_processed pm r \<longrightarrow> min_loop pm rs m found \<le> rec_Offset r) \<and>
   (found \<longrightarrow> min_loop pm rs m found \<le> m)"
  by (induction pm rs m found rule: min_loop.induct) (auto simp: not_less)

lemma min_loop_in:
  "min_loop pm rs m found = m \<or> (\<exists>r \<in> set rs. \<not> is_processed pm r \<and> min_loop pm rs m found = rec_Offset r)"
  by (induction pm rs m found rule: min_loop.induct) auto

lemma min_loop_found:
  "\<exists>r \<in> set rs. \<not> is_processed pm r \<Longrightarrow>
   (\<exists>r \<in> set rs. \<not> is_processed pm r \<and> min_loop pm rs m False = rec_Offset r)"
proof (induction rs)
  case Nil
  then show ?case by simp
next
  case (Cons r rs)
  then show ?case using min_loop_in [of pm rs "rec_Offset r" True] by auto
qed

lemma max_loop_spec:
  "max_loop lim rs best = Some m \<longrightarrow>
     (m \<in> set rs \<and> rec_Offset m < lim \<or> best = Some m) \<and>
     (\<forall>r \<in> set rs. rec_Offset r < lim \<longrightarrow> rec_Offset r \<le> rec_Offset m) \<and>
     (\<forall>b. best = Some b \<longrightarrow> rec_Offset b \<le> rec_Offset m)"
  by (induction lim rs best rule: max_loop.induct) (fastforce split: if_splits option.splits)+

lemma max_loop_None: "max_loop lim rs best = None \<longleftrightarrow> best = None \<and> (\<forall>r \<in> set rs. lim \<le> rec_Offset r)"
  by (induction lim rs best rule: max_loop.induct) (auto split: option.splits)

lemma findMax_min:
  defines "lim \<equiv> \<lambda>processed records. min_loop (processed_loop processed []) records MaxInt64 False"
  shows "r \<in> unprocessed processed records \<Longrightarrow> lim processed records \<le> rec_Offset r"
    and "unprocessed processed records \<noteq> {} \<Longrightarrow>
      \<exists>r \<in> unprocessed processed records. lim processed records = rec_Offset r"
    and "unprocessed processed records = {} \<Longrightarrow> lim processed records = MaxInt64"
proof -
  let ?pm = "processed_loop processed []"
  have un: "unprocessed processed records = {r \<in> set records. \<not> is_processed ?pm r}"
    by (auto simp: unprocessed_def is_processed_iff)
  show "r \<in> unprocessed processed records \<Longrightarrow> lim processed records \<le> rec_Offset r"
    using min_loop_le [of r records ?pm MaxInt64 False] by (auto simp: lim_def un)
  show "unprocessed processed records \<noteq> {} \<Longrightarrow>
      \<exists>r \<in> unprocessed processed records. lim processed records = rec_Offset r"
    using min_loop_found [of records ?pm MaxInt64] by (auto simp: lim_def un)
  show "unprocessed processed records = {} \<Longrightarrow> lim processed records = MaxInt64"
    using min_loop_in [of ?pm records MaxInt64 False] by (auto simp: lim_def un)
qed

lemma below_iff:
  assumes "\<forall>r \<in> set processed. rec_Offset r < MaxInt64" and "m \<in> set processed"
  shows "rec_Offset m < min_loop (processed_loop processed []) records MaxInt64 False \<longleftrightarrow>
    below_unprocessed processed records m"
  using findMax_min [where processed = processed and records = records] assms
  by (cases "unprocessed processed records = {}") (fastforce simp: below_unprocessed_def)+

lemma findMax_Some:
  assumes "\<forall>r \<in> set processed. rec_Offset r < MaxInt64" and "findMaxCommitableRecord processed records = Some m"
  shows "m \<in> set processed" and "below_unprocessed processed records m"
    and "\<And>p. p \<in> set processed \<Longrightarrow> below_unprocessed processed records p \<Longrightarrow> rec_Offset p \<le> rec_Offset m"
proof -
  let ?lim = "min_loop (processed_loop processed []) records MaxInt64 False"
  have spec: "m \<in> set processed \<and> rec_Offset m < ?lim"
    "\<forall>p \<in> set processed. rec_Offset p < ?lim \<longrightarrow> rec_Offset p \<le> rec_Offset m"
    using max_loop_spec [of ?lim processed None m] assms(2) by (simp_all add: findMaxCommitableRecord_def)
  then show "m \<in> set processed" "below_unprocessed processed records m"
    and "\<And>p. p \<in> set processed \<Longrightarrow> below_unprocessed processed records p \<Longrightarrow> rec_Offset p \<le> rec_Offset m"
    using below_iff [OF assms(1)] by auto
qed

lemma findMax_None:
  assumes "\<forall>r \<in> set processed. rec_Offset r < MaxInt64"
  shows "findMaxCommitableRecord processed records = None \<longleftrightarrow>
    (\<forall>p \<in> set processed. \<not> below_unprocessed processed records p)"
  using below_iff [OF assms] by (auto simp: findMaxCommitableRecord_def max_loop_None not_less [symmetric])

text \<open>Within a partition the offset alone tells records apart, so that the text key does, too.\<close>

lemma record_key_inj:
  assumes "record_key r = record_key s" and "0 \<le> rec_Offset r" and "0 \<le> rec_Offset s"
  shows "rec_Offset r = rec_Offset s"
proof -
  have digits: "takeWhile (\<lambda>c. c \<noteq> CHR ''-'') (rev (record_key r)) = rev (show_nat (rec_Offset r))"
    if "0 \<le> rec_Offset r" for r
  proof -
    have "\<forall>c \<in> set (show_nat (rec_Offset r)). c \<noteq> CHR ''-''" using minus_not_in_show_nat by metis
    then show ?thesis using that by (simp add: record_key_def show_int_def takeWhile_tail)
  qed
  have "show_nat (rec_Offset r) = show_nat (rec_Offset s)"
    using digits [OF assms(2)] digits [OF assms(3)] assms(1) by simp
  then show ?thesis using show_nat_inj assms(2,3) by blast
qed

text \<open>What a partition gives: offsets that differ and fit 64 bits.\<close>

definition partition_batch :: "kgo_record list \<Rightarrow> bool" where
  "partition_batch records \<longleftrightarrow>
     distinct (map rec_Offset records) \<and> (\<forall>r \<in> set records. 0 \<le> rec_Offset r \<and> rec_Offset r < MaxInt64)"

lemma unprocessed_batch:
  assumes "partition_batch records" and "set processed \<subseteq> set records"
  shows "unprocessed processed records = set records - set processed"
proof -
  have "r = s" if "r \<in> set records" "s \<in> set processed" "record_key r = record_key s" for r s
  proof -
    have s: "s \<in> set records" using that assms(2) by blast
    have "rec_Offset r = rec_Offset s"
      using record_key_inj [OF that(3)] assms(1) that(1) s by (auto simp: partition_batch_def)
    then show ?thesis using assms(1) that(1) s by (auto simp: partition_batch_def distinct_map dest: inj_onD)
  qed
  then show ?thesis by (auto simp: unprocessed_def)
qed

lemma committed_offset_bound:
  "committed_offset rs = Some c \<Longrightarrow> \<exists>r. Some r \<in> set rs \<and> c = rec_Offset r + 1"
proof (induction rs arbitrary: c rule: committed_offset.induct)
  case (3 r rs)
  show ?case
  proof (cases "committed_offset rs")
    case None
    with 3(2) show ?thesis by (intro exI [of _ r]) simp
  next
    case (Some d)
    then show ?thesis using 3(1) [OF Some] 3(2) by (auto simp: max_def split: if_splits)
  qed
qed auto

lemma committed_offset_le: "Some r \<in> set rs \<Longrightarrow> \<exists>c. committed_offset rs = Some c \<and> rec_Offset r < c"
proof (induction rs rule: committed_offset.induct)
  case (3 s rs)
  then show ?case by (cases "committed_offset rs") (auto split: option.splits)
qed auto

text \<open>Nothing unprocessed is committed.\<close>

lemma commitable_safe:
  assumes "partition_batch records" and "set processed \<subseteq> set records" and "distinct processed"
    and "Some m \<in> set (commitable processed records)" and "r \<in> set records" and "r \<notin> set processed"
  shows "m \<in> set processed \<and> rec_Offset m < rec_Offset r"
proof -
  have "length processed \<noteq> length records"
  proof
    assume "length processed = length records"
    moreover have "distinct records" using assms(1) by (auto simp: partition_batch_def distinct_map)
    ultimately have "set processed = set records"
      using assms(2,3) by (metis card_subset_eq distinct_card finite_set)
    with assms(5,6) show False by blast
  qed
  then have m: "findMaxCommitableRecord processed records = Some m"
    using assms(4) by (simp add: commitable_def)
  have lt: "\<forall>r \<in> set processed. rec_Offset r < MaxInt64"
    using assms(1,2) by (auto simp: partition_batch_def)
  from findMax_Some [OF lt m] show ?thesis
    using unprocessed_batch [OF assms(1,2)] assms(5,6) by (auto simp: below_unprocessed_def)
qed

text \<open>The processed records of a batch are different records of the batch.\<close>

lemma ProcessEvents_batch:
  assumes "ProcessEvents tps worlds schedule records = Inr (processed, log)" and "partition_batch records"
  shows "set processed \<subseteq> set records" and "distinct processed"
    and "i < length records \<Longrightarrow> records ! i \<in> set processed \<longleftrightarrow> \<not> withheld (worlds i) (records ! i)"
proof -
  have d: "distinct records" using assms(2) by (auto simp: partition_batch_def distinct_map)
  have marks: "mset (marks log) = mset (filter (\<lambda>i. \<not> withheld (worlds i) (records ! i)) [0..<length records])"
    by (rule ProcessEvents_marks [OF assms(1)])
  have p: "processed = map ((!) records) (marks log)" using ProcessEvents_logs [OF assms(1)] by metis
  have set: "set (marks log) = {i. i < length records \<and> \<not> withheld (worlds i) (records ! i)}"
    using mset_eq_setD [OF marks] by auto
  have "distinct (marks log)" using mset_eq_imp_distinct_iff [OF marks] by simp
  moreover have "inj_on ((!) records) (set (marks log))"
    using d set by (auto simp: inj_on_def nth_eq_iff_index_eq)
  ultimately show "distinct processed" by (simp add: p distinct_map)
  show "set processed \<subseteq> set records" by (auto simp: p set)
  show "i < length records \<Longrightarrow> records ! i \<in> set processed \<longleftrightarrow> \<not> withheld (worlds i) (records ! i)"
    using d by (auto simp: p set nth_eq_iff_index_eq)
qed

lemma processRecordsAndCommit_handed:
  assumes "processRecordsAndCommit pc process commit records = Inr (handed, log)"
  obtains processed log0 where "process records = Inr (processed, log0)"
    and "handed = commitable processed records" and "set log0 \<subseteq> set log" and "marks log = marks log0"
  using assms by (fastforce simp: processRecordsAndCommit_def CaptureError_def Let_def marks_none
    split: sum.splits option.splits if_splits)

text \<open>The records that are processed are the ones marked in the effects of the batch.\<close>

lemma marked_iff:
  assumes "processRecordsAndCommit pc (ProcessEvents tps worlds schedule) commit records = Inr (handed, log)"
    and "i < length records"
  shows "MarkProcessed i \<in> set log \<longleftrightarrow> \<not> withheld (worlds i) (records ! i)"
proof -
  obtain processed log0 where p: "ProcessEvents tps worlds schedule records = Inr (processed, log0)"
    and m: "marks log = marks log0" using processRecordsAndCommit_handed [OF assms(1)] by metis
  have "MarkProcessed i \<in> set log \<longleftrightarrow> i \<in> set (marks log)"
    by (induction log) (auto simp: marks_def split: effect.split)
  also have "\<dots> \<longleftrightarrow> i \<in> set (filter (\<lambda>i. \<not> withheld (worlds i) (records ! i)) [0..<length records])"
    using mset_eq_setD [OF ProcessEvents_marks [OF p]] m by simp
  finally show ?thesis using assms(2) by simp
qed

text \<open>A committed record is processed, and so is everything below it.\<close>

lemma committed_processed:
  assumes "partition_batch records" and "set processed \<subseteq> set records" and "distinct processed"
    and "committed_offset (commitable processed records) = Some c" and "r \<in> set records" and "rec_Offset r < c"
  shows "r \<in> set processed"
proof (rule ccontr)
  assume "r \<notin> set processed"
  moreover obtain m where "Some m \<in> set (commitable processed records)" and "c = rec_Offset m + 1"
    using committed_offset_bound [OF assms(4)] by blast
  ultimately show False using commitable_safe [OF assms(1-3) _ assms(5)] assms(6) by fastforce
qed

section \<open>The interface ProcessRecords\<close>

text \<open>
  What the consumer relies on of its callback \<open>ProcessRecords\<close>: it gives back records of the batch, each
  once, and exactly those that it does not keep for a retry.
\<close>

locale batch_processor =
  fixes process :: "kgo_record list \<Rightarrow> panic + kgo_record list \<times> effect list"
    and kept :: "nat \<Rightarrow> kgo_record \<Rightarrow> bool"
  assumes within: "process records = Inr (processed, log) \<Longrightarrow> partition_batch records \<Longrightarrow>
      set processed \<subseteq> set records \<and> distinct processed"
    and processed_iff: "process records = Inr (processed, log) \<Longrightarrow> partition_batch records \<Longrightarrow>
      i < length records \<Longrightarrow> records ! i \<in> set processed \<longleftrightarrow> \<not> kept i (records ! i)"
begin

lemma commits_processed:
  assumes "processRecordsAndCommit pc process commit records = Inr (handed, log)" and "partition_batch records"
    and "committed_offset handed = Some c" and "i < length records" and "rec_Offset (records ! i) < c"
  shows "\<not> kept i (records ! i) \<and>
    (\<exists>processed log0. process records = Inr (processed, log0) \<and> records ! i \<in> set processed \<and> set log0 \<subseteq> set log)"
proof -
  obtain processed log0 where p: "process records = Inr (processed, log0)"
    and h: "handed = commitable processed records" and sub: "set log0 \<subseteq> set log"
    using processRecordsAndCommit_handed [OF assms(1)] by metis
  have "records ! i \<in> set processed"
    using committed_processed [OF assms(2) conjunct1 [OF within [OF p assms(2)]]
      conjunct2 [OF within [OF p assms(2)]], of c "records ! i"] assms(3-5) h by simp
  then show ?thesis using processed_iff [OF p assms(2,4)] p sub by blast
qed

lemma commits_stop:
  assumes "processRecordsAndCommit pc process commit records = Inr (handed, log)" and "partition_batch records"
    and "committed_offset handed = Some c" and "i < length records" and "kept i (records ! i)"
  shows "c \<le> rec_Offset (records ! i)"
  using commits_processed [OF assms(1-4)] assms(5) by (meson not_le)

lemma commits_progress:
  assumes "processRecordsAndCommit pc process commit records = Inr (handed, log)"
    and "partition_batch records" and "i < length records"
    and "\<forall>j < length records. kept j (records ! j) \<longrightarrow> rec_Offset (records ! i) < rec_Offset (records ! j)"
  shows "\<exists>c. committed_offset handed = Some c \<and> rec_Offset (records ! i) < c"
proof -
  let ?r = "records ! i"
  obtain processed log0 where p: "process records = Inr (processed, log0)"
    and h: "handed = commitable processed records" using processRecordsAndCommit_handed [OF assms(1)] by metis
  note batch = conjunct1 [OF within [OF p assms(2)]]
  have "\<not> kept i ?r" using assms(3,4) by blast
  then have r: "?r \<in> set processed" using processed_iff [OF p assms(2,3)] by simp
  have "s \<in> set processed" if "s \<in> set records" "\<not> rec_Offset ?r < rec_Offset s" for s
    using that assms(4) processed_iff [OF p assms(2)] by (metis in_set_conv_nth)
  then have below: "below_unprocessed processed records ?r"
    unfolding below_unprocessed_def unprocessed_batch [OF assms(2) batch] by blast
  have lt: "\<forall>r \<in> set processed. rec_Offset r < MaxInt64"
    using assms(2) batch by (auto simp: partition_batch_def)
  have "\<exists>m. Some m \<in> set handed \<and> rec_Offset ?r \<le> rec_Offset m"
  proof (cases "length processed = length records")
    case True
    then show ?thesis using assms(3) by (intro exI [of _ ?r]) (simp add: h commitable_def)
  next
    case False
    with findMax_None [OF lt, of records] findMax_Some(3) [OF lt _ r below] r below
    show ?thesis by (cases "findMaxCommitableRecord processed records") (auto simp: h commitable_def)
  qed
  then show ?thesis using committed_offset_le by force
qed

end

text \<open>The processor is such a callback: it keeps the records it withholds.\<close>

interpretation events: batch_processor "ProcessEvents tps worlds schedule" "\<lambda>i r. withheld (worlds i) r"
  for tps worlds schedule
  by unfold_locales (use ProcessEvents_batch in blast)+

lemmas commit_progress_lemma = events.commits_progress

section \<open>Sample data\<close>

definition sample_pc :: PartitionConsumer where
  "sample_pc = \<lparr>pc_topic = ''raw'', pc_partition = 0\<rparr>"

text \<open>One batch of the sample event at some offsets; Redis refuses the flags of the records chosen.\<close>

definition sample_commit :: "(nat \<Rightarrow> bool) \<Rightarrow> int list \<Rightarrow> panic + kgo_record option list \<times> effect list" where
  "sample_commit refuse offsets =
     processRecordsAndCommit sample_pc (ProcessEvents sample_topics (\<lambda>i. sample_world [] (refuse i)) [])
       (\<lambda>handed. Inr None) (map (sample_record sample_bytes) offsets)"

lemma sample_record_simps [simp]:
  "rec_Offset (sample_record v n) = n" "rec_Value (sample_record v n) = v"
  by (simp_all add: sample_record_def)

lemma sample_commit_returns: "\<exists>handed log. sample_commit refuse offsets = Inr (handed, log)"
proof -
  have "\<forall>r \<in> set (map (sample_record sample_bytes) offsets). rec_Value r = sample_bytes"
    by (auto simp: sample_record_def)
  from sample_returns [OF this, of refuse "[]"] show ?thesis
    by (auto simp: sample_commit_def processRecordsAndCommit_def Let_def)
qed

lemma sample_batch:
  "distinct offsets \<Longrightarrow> \<forall>n \<in> set offsets. 0 \<le> n \<and> n < MaxInt64 \<Longrightarrow>
   partition_batch (map (sample_record sample_bytes) offsets)"
  by (auto simp: partition_batch_def sample_record_def comp_def)

lemma sample_withheld_iff: "withheld (sample_world [] b) (sample_record sample_bytes n) = b"
  by (cases b) (simp_all add: sample_withheld sample_not_withheld)

section \<open>Properties\<close>

text \<open>
  C15: the record found is a processed one that lies below every unprocessed record of the batch, and
  it is the highest such record; no record (a \<open>nil\<close> pointer) is found just when every processed
  record lies above an unprocessed one.
\<close>

theorem find_max_commitable:
  assumes "\<forall>r \<in> set processed. rec_Offset r < MaxInt64"
  shows "case findMaxCommitableRecord processed records of
      None \<Rightarrow> \<forall>p \<in> set processed. \<not> below_unprocessed processed records p
    | Some m \<Rightarrow> m \<in> set processed \<and> below_unprocessed processed records m \<and>
        (\<forall>p \<in> set processed. below_unprocessed processed records p \<longrightarrow> rec_Offset p \<le> rec_Offset m)"
  using findMax_None [OF assms] findMax_Some [OF assms] by (auto split: option.split)

theorem find_max_commitable_witness:
  "findMaxCommitableRecord [sample_record ''a'' 5, sample_record ''c'' 7]
     [sample_record ''a'' 5, sample_record ''b'' 6, sample_record ''c'' 7] = Some (sample_record ''a'' 5)"
proof -
  let ?p = "[sample_record ''a'' 5, sample_record ''c'' 7]"
  let ?r = "[sample_record ''a'' 5, sample_record ''b'' 6, sample_record ''c'' 7]"
  have "case findMaxCommitableRecord ?p ?r of
      None \<Rightarrow> \<forall>p \<in> set ?p. \<not> below_unprocessed ?p ?r p
    | Some m \<Rightarrow> m \<in> set ?p \<and> below_unprocessed ?p ?r m \<and>
        (\<forall>p \<in> set ?p. below_unprocessed ?p ?r p \<longrightarrow> rec_Offset p \<le> rec_Offset m)"
    by (rule find_max_commitable) (simp add: sample_record_def MaxInt64_def)
  moreover have keys: "record_key (sample_record ''a'' 5) = ''k-5''" "record_key (sample_record ''b'' 6) = ''k-6''"
    "record_key (sample_record ''c'' 7) = ''k-7''" by code_simp+
  then have un: "unprocessed ?p ?r = {sample_record ''b'' 6}" by (auto simp: unprocessed_def)
  moreover have "below_unprocessed ?p ?r (sample_record ''a'' 5)" "\<not> below_unprocessed ?p ?r (sample_record ''c'' 7)"
    unfolding below_unprocessed_def un by (simp_all add: sample_record_def)
  ultimately show ?thesis by (auto split: option.splits)
qed

end
