(* ===== verification/Consumer_Group.thy ===== *)
theory Consumer_Group
  imports Commit
begin

text \<open>
  The life cycle of \<open>config/kafka/consumer.go\<close>: partitions are assigned and lost by the callbacks of
  the Kafka client, a poll loop hands fetched batches to one goroutine per partition, and a shutdown
  ends them all. The goroutines (the client's callbacks, the poll loop, the main goroutine in
  \<open>Start\<close>, one consumer per partition) are program counters of one state, and a step is one of
  them moving, so that every interleaving is a sequence of steps.
\<close>

section \<open>State\<close>

record TopicPartition =
  tp_topic :: string
  tp_partition :: int

text \<open>
  Where \<open>consume\<close> stands: in its select, in \<open>processRecordsAndCommit\<close> with a batch, or after its
  return, which closes \<open>done\<close>.
\<close>

datatype consume_point =
    Selecting
  | Working "kgo_record list"
  | Returned

text \<open>The channels of a partition consumer: is \<open>quit\<close> closed, has the \<open>sync.Once\<close> been used.\<close>

record consumer = PartitionConsumer +
  pc_quit :: bool
  pc_closing :: bool
  pc_point :: consume_point

text \<open>
  The callbacks are run one after the other by the client: \<open>assigned\<close> with the partitions it still
  has to add, \<open>lost\<close> with those it still has to remove and the consumers it will wait for.
\<close>

datatype callback =
    NoCallback
  | Assigning "TopicPartition list"
  | Losing "TopicPartition list" "nat list"

text \<open>
  The poll loop: in front of its select; with the fetches of \<open>PollRecords\<close>, before the test of the
  context; in the iteration over the partitions; stopped.
\<close>

type_synonym fetches = "(TopicPartition \<times> kgo_record list) list"

datatype poller =
    Polling
  | Fetched fetches
  | Sending fetches
  | Stopped

text \<open>
  \<open>Start\<close>: waiting for the context; in \<open>gracefulShutdown\<close> with the consumers whose \<open>quit\<close> is still to be
  closed and those that are waited for; in the client's \<open>Close\<close>; returned.
\<close>

datatype main_point =
    Waiting
  | Shutting "nat list" "nat list"
  | Closing
  | Closed

text \<open>
  Pointers to partition consumers are indexes into \<open>cg_heap\<close>. There are two contexts: \<open>cg_ctx_done\<close>
  is the one of \<open>Start\<close> and the poll loop, which \<open>main\<close> cancels; \<open>cg_client_done\<close> is the one that the
  client passes to its callbacks and \<open>assigned\<close> to the consumers, which is only cancelled when
  the client is closed. \<open>cg_blocked\<close> (a poll has returned
  records and \<open>AllowRebalance\<close> has not been called since) and \<open>cg_owned\<close> (the partitions the client
  has told the group to have) are the client's; \<open>cg_delivered\<close> and \<open>cg_commits\<close> record the batches
  sent to the consumers and what they handed to \<open>CommitRecords\<close>, with the effects of the batch.
\<close>

record ConsumerGroup =
  cg_consumers :: "(TopicPartition \<times> nat) list"
  cg_heap :: "consumer list"
  cg_ctx_done :: bool
  cg_client_done :: bool
  cg_callback :: callback
  cg_poller :: poller
  cg_main :: main_point
  cg_blocked :: bool
  cg_owned :: "TopicPartition set"
  cg_delivered :: "(nat \<times> kgo_record list) list"
  cg_commits :: "(nat \<times> kgo_record list \<times> kgo_record option list \<times> effect list) list"
  cg_panic :: "panic option"

definition NewConsumerGroup :: ConsumerGroup where
  "NewConsumerGroup =
     \<lparr>cg_consumers = [], cg_heap = [], cg_ctx_done = False, cg_client_done = False, cg_callback = NoCallback,
      cg_poller = Polling, cg_main = Waiting, cg_blocked = False, cg_owned = {}, cg_delivered = [],
      cg_commits = [], cg_panic = None\<rparr>"

section \<open>Operations\<close>

definition consumer_tp :: "consumer \<Rightarrow> TopicPartition" where
  "consumer_tp pc = \<lparr>tp_topic = pc_topic pc, tp_partition = pc_partition pc\<rparr>"

text \<open>\<open>closeQuitChannel\<close>: closing a channel twice panics, which the \<open>sync.Once\<close> prevents.\<close>

definition close_of_closed :: panic where
  "close_of_closed = ''close of closed channel''"

definition closeQuitChannel :: "consumer \<Rightarrow> panic + consumer" where
  "closeQuitChannel pc =
     (if pc_closing pc then Inr pc
      else if pc_quit pc then Inl close_of_closed
      else Inr (pc\<lparr>pc_closing := True, pc_quit := True\<rparr>))"

text \<open>One round of the loops of \<open>assigned\<close>: a new consumer, in the map and running.\<close>

definition new_consumer :: "TopicPartition \<Rightarrow> consumer" where
  "new_consumer tp =
     \<lparr>pc_topic = tp_topic tp, pc_partition = tp_partition tp, pc_quit = False, pc_closing = False,
      pc_point = Selecting\<rparr>"

definition assign_one :: "TopicPartition \<Rightarrow> ConsumerGroup \<Rightarrow> ConsumerGroup" where
  "assign_one tp cg =
     cg\<lparr>cg_consumers := upsert tp (length (cg_heap cg)) (cg_consumers cg),
        cg_heap := cg_heap cg @ [new_consumer tp]\<rparr>"

text \<open>
  One round of the loops of \<open>lost\<close>: look up, delete, close \<open>quit\<close>; the pointer is waited for later. The
  lookup of a partition that is not in the map gives \<open>nil\<close>, and closing its channel panics.
\<close>

definition nil_dereference :: panic where
  "nil_dereference = ''invalid memory address or nil pointer dereference''"

definition lose_one :: "TopicPartition \<Rightarrow> ConsumerGroup \<Rightarrow> panic + ConsumerGroup \<times> nat" where
  "lose_one tp cg =
     (case map_of (cg_consumers cg) tp of
        None \<Rightarrow> Inl nil_dereference
      | Some ident \<Rightarrow>
          (case closeQuitChannel (cg_heap cg ! ident) of
             Inl p \<Rightarrow> Inl p
           | Inr pc \<Rightarrow>
               Inr (cg\<lparr>cg_consumers := filter (\<lambda>(k, v). k \<noteq> tp) (cg_consumers cg),
                       cg_heap := (cg_heap cg)[ident := pc]\<rparr>, ident)))"

text \<open>The body of the goroutine that \<open>gracefulShutdown\<close> starts for a consumer, up to its wait.\<close>

definition shut_one :: "nat \<Rightarrow> ConsumerGroup \<Rightarrow> panic + ConsumerGroup" where
  "shut_one ident cg =
     (case closeQuitChannel (cg_heap cg ! ident) of
        Inl p \<Rightarrow> Inl p
      | Inr pc \<Rightarrow> Inr (cg\<lparr>cg_heap := (cg_heap cg)[ident := pc]\<rparr>))"

definition set_point :: "nat \<Rightarrow> consume_point \<Rightarrow> ConsumerGroup \<Rightarrow> ConsumerGroup" where
  "set_point ident p cg = cg\<lparr>cg_heap := (cg_heap cg)[ident := (cg_heap cg ! ident)\<lparr>pc_point := p\<rparr>]\<rparr>"

definition point :: "ConsumerGroup \<Rightarrow> nat \<Rightarrow> consume_point" where
  "point cg ident = pc_point (cg_heap cg ! ident)"

text \<open>All the given consumers have closed their \<open>done\<close> channel.\<close>

definition all_done :: "ConsumerGroup \<Rightarrow> nat list \<Rightarrow> bool" where
  "all_done cg idents \<longleftrightarrow> (\<forall>ident \<in> set idents. point cg ident = Returned)"

text \<open>
  The callback \<open>processRecords\<close> and the client's answers to \<open>CommitRecords\<close> may differ from batch to
  batch: the steps take a set of pairs of them.
\<close>

type_synonym handlers =
  "((kgo_record list \<Rightarrow> panic + kgo_record list \<times> effect list) \<times> (kgo_record option list \<Rightarrow> panic + goerror option)) set"

section \<open>Steps\<close>

text \<open>
  One rule per move. The guards on \<open>cg_blocked\<close> and on the callback are what \<open>BlockRebalanceOnPoll\<close>
  documents: no callback runs between a poll that returned records and the next
  \<open>AllowRebalance\<close>, and a poll does not return records while a callback runs. \<open>Close\<close> leaves the
  group: it loses the partitions that are left and, as documented, does not allow rebalances itself.
\<close>

inductive move :: "handlers \<Rightarrow> ConsumerGroup \<Rightarrow> ConsumerGroup \<Rightarrow> bool" for hs where
  cancel: "\<not> cg_ctx_done cg \<Longrightarrow> move hs cg (cg\<lparr>cg_ctx_done := True\<rparr>)"

| client_cancel: "cg_main cg = Closing \<Longrightarrow> move hs cg (cg\<lparr>cg_client_done := True\<rparr>)"

| assigned_start: "cg_callback cg = NoCallback \<Longrightarrow> \<not> cg_blocked cg \<Longrightarrow> cg_main cg \<noteq> Closed \<Longrightarrow>
    distinct tps \<Longrightarrow> set tps \<inter> cg_owned cg = {} \<Longrightarrow>
    move hs cg (cg\<lparr>cg_callback := Assigning tps, cg_owned := cg_owned cg \<union> set tps\<rparr>)"
| assigned_one: "cg_callback cg = Assigning (tp # tps) \<Longrightarrow>
    move hs cg ((assign_one tp cg)\<lparr>cg_callback := Assigning tps\<rparr>)"
| assigned_end: "cg_callback cg = Assigning [] \<Longrightarrow> move hs cg (cg\<lparr>cg_callback := NoCallback\<rparr>)"

| lost_start: "cg_callback cg = NoCallback \<Longrightarrow> \<not> cg_blocked cg \<Longrightarrow> cg_main cg \<noteq> Closed \<Longrightarrow>
    distinct tps \<Longrightarrow> set tps \<subseteq> cg_owned cg \<Longrightarrow>
    move hs cg (cg\<lparr>cg_callback := Losing tps [], cg_owned := cg_owned cg - set tps\<rparr>)"
| lost_one: "cg_callback cg = Losing (tp # tps) idents \<Longrightarrow> lose_one tp cg = Inr (cg', ident) \<Longrightarrow>
    move hs cg (cg'\<lparr>cg_callback := Losing tps (ident # idents)\<rparr>)"
| lost_panic: "cg_callback cg = Losing (tp # tps) idents \<Longrightarrow> lose_one tp cg = Inl p \<Longrightarrow>
    move hs cg (cg\<lparr>cg_panic := Some p\<rparr>)"
| lost_end: "cg_callback cg = Losing [] idents \<Longrightarrow> all_done cg idents \<Longrightarrow>
    move hs cg (cg\<lparr>cg_callback := NoCallback\<rparr>)"

| poll_stop: "cg_poller cg = Polling \<Longrightarrow> cg_ctx_done cg \<or> cg_main cg = Closed \<Longrightarrow>
    move hs cg (cg\<lparr>cg_poller := Stopped\<rparr>)"
| poll_fetch: "cg_poller cg = Polling \<Longrightarrow> \<not> cg_ctx_done cg \<Longrightarrow> cg_callback cg = NoCallback \<Longrightarrow> fs \<noteq> [] \<Longrightarrow>
    move hs cg (cg\<lparr>cg_poller := Fetched fs, cg_blocked := True\<rparr>)"
| poll_error: "cg_poller cg = Polling \<Longrightarrow> move hs cg (cg\<lparr>cg_panic := Some e\<rparr>)"
| poll_cancelled: "cg_poller cg = Fetched fs \<Longrightarrow> cg_ctx_done cg \<Longrightarrow> move hs cg (cg\<lparr>cg_poller := Stopped\<rparr>)"
| poll_each: "cg_poller cg = Fetched fs \<Longrightarrow> \<not> cg_ctx_done cg \<Longrightarrow> move hs cg (cg\<lparr>cg_poller := Sending fs\<rparr>)"
| send: "cg_poller cg = Sending ((tp, records) # fs) \<Longrightarrow> map_of (cg_consumers cg) tp = Some ident \<Longrightarrow>
    point cg ident = Selecting \<Longrightarrow>
    move hs cg ((set_point ident (Working records) cg)\<lparr>cg_poller := Sending fs,
      cg_delivered := cg_delivered cg @ [(ident, records)]\<rparr>)"
| send_unknown: "cg_poller cg = Sending ((tp, records) # fs) \<Longrightarrow> map_of (cg_consumers cg) tp = None \<Longrightarrow>
    move hs cg (cg\<lparr>cg_poller := Sending fs\<rparr>)"
| send_cancelled: "cg_poller cg = Sending ((tp, records) # fs) \<Longrightarrow> map_of (cg_consumers cg) tp \<noteq> None \<Longrightarrow>
    cg_ctx_done cg \<Longrightarrow> move hs cg (cg\<lparr>cg_poller := Sending fs\<rparr>)"
| poll_allow: "cg_poller cg = Sending [] \<Longrightarrow> move hs cg (cg\<lparr>cg_poller := Polling, cg_blocked := False\<rparr>)"

| consume_quit: "ident < length (cg_heap cg) \<Longrightarrow> point cg ident = Selecting \<Longrightarrow>
    pc_quit (cg_heap cg ! ident) \<or> cg_client_done cg \<Longrightarrow> move hs cg (set_point ident Returned cg)"
| consume_work: "ident < length (cg_heap cg) \<Longrightarrow> point cg ident = Working records \<Longrightarrow> (process, commit) \<in> hs \<Longrightarrow>
    processRecordsAndCommit (PartitionConsumer.truncate (cg_heap cg ! ident)) process commit records =
      Inr (handed, log) \<Longrightarrow>
    move hs cg ((set_point ident Selecting cg)\<lparr>cg_commits := cg_commits cg @ [(ident, records, handed, log)]\<rparr>)"
| consume_panic: "ident < length (cg_heap cg) \<Longrightarrow> point cg ident = Working records \<Longrightarrow> (process, commit) \<in> hs \<Longrightarrow>
    processRecordsAndCommit (PartitionConsumer.truncate (cg_heap cg ! ident)) process commit records = Inl p \<Longrightarrow>
    move hs cg (cg\<lparr>cg_panic := Some p\<rparr>)"

| shutdown_start: "cg_main cg = Waiting \<Longrightarrow> cg_ctx_done cg \<Longrightarrow>
    move hs cg (cg\<lparr>cg_main := Shutting (map snd (cg_consumers cg)) []\<rparr>)"
| shutdown_one: "cg_main cg = Shutting idents waits \<Longrightarrow> ident \<in> set idents \<Longrightarrow> shut_one ident cg = Inr cg' \<Longrightarrow>
    move hs cg (cg'\<lparr>cg_main := Shutting (remove1 ident idents) (ident # waits)\<rparr>)"
| shutdown_panic: "cg_main cg = Shutting idents waits \<Longrightarrow> ident \<in> set idents \<Longrightarrow> shut_one ident cg = Inl p \<Longrightarrow>
    move hs cg (cg\<lparr>cg_panic := Some p\<rparr>)"
| shutdown_end: "cg_main cg = Shutting [] waits \<Longrightarrow> all_done cg waits \<Longrightarrow> move hs cg (cg\<lparr>cg_main := Closing\<rparr>)"
| close: "cg_main cg = Closing \<Longrightarrow> \<not> cg_blocked cg \<Longrightarrow> cg_callback cg = NoCallback \<Longrightarrow> cg_owned cg = {} \<Longrightarrow>
    move hs cg (cg\<lparr>cg_main := Closed\<rparr>)"

text \<open>A panic ends the process.\<close>

definition cg_step :: "handlers \<Rightarrow> ConsumerGroup \<Rightarrow> ConsumerGroup \<Rightarrow> bool" where
  "cg_step hs cg cg' \<longleftrightarrow> cg_panic cg = None \<and> move hs cg cg'"

inductive runs :: "handlers \<Rightarrow> ConsumerGroup \<Rightarrow> ConsumerGroup \<Rightarrow> bool" for hs where
  stay: "runs hs cg cg"
| more: "runs hs cg cg' \<Longrightarrow> cg_step hs cg' cg'' \<Longrightarrow> runs hs cg cg''"

abbreviation reachable :: "handlers \<Rightarrow> ConsumerGroup \<Rightarrow> bool" where
  "reachable hs cg \<equiv> runs hs NewConsumerGroup cg"

section \<open>Invariants\<close>

fun to_assign :: "callback \<Rightarrow> TopicPartition list" where
  "to_assign (Assigning tps) = tps"
| "to_assign _ = []"

fun to_lose :: "callback \<Rightarrow> TopicPartition list" where
  "to_lose (Losing tps idents) = tps"
| "to_lose _ = []"

fun losing :: "callback \<Rightarrow> nat list" where
  "losing (Losing tps idents) = idents"
| "losing _ = []"

fun shutting :: "main_point \<Rightarrow> nat list" where
  "shutting (Shutting idents waits) = idents @ waits"
| "shutting _ = []"

fun waiting :: "main_point \<Rightarrow> nat list" where
  "waiting (Shutting idents waits) = waits"
| "waiting _ = []"

text \<open>The map points to consumers of its keys, each key once.\<close>

definition map_inv :: "ConsumerGroup \<Rightarrow> bool" where
  "map_inv cg \<longleftrightarrow> distinct (keys (cg_consumers cg)) \<and>
     (\<forall>tp ident. (tp, ident) \<in> set (cg_consumers cg) \<longrightarrow>
        ident < length (cg_heap cg) \<and> consumer_tp (cg_heap cg ! ident) = tp)"

text \<open>The channel \<open>quit\<close> is closed through the \<open>sync.Once\<close> only.\<close>

definition quit_inv :: "ConsumerGroup \<Rightarrow> bool" where
  "quit_inv cg \<longleftrightarrow> (\<forall>pc \<in> set (cg_heap cg). pc_quit pc = pc_closing pc)"

text \<open>A consumer that has not returned is in the map, or a running \<open>lost\<close> waits for it.\<close>

definition live_inv :: "ConsumerGroup \<Rightarrow> bool" where
  "live_inv cg \<longleftrightarrow> (\<forall>ident < length (cg_heap cg). point cg ident \<noteq> Returned \<longrightarrow>
     (consumer_tp (cg_heap cg ! ident), ident) \<in> set (cg_consumers cg) \<or> ident \<in> set (losing (cg_callback cg)))"

text \<open>The map has the partitions that the client has given, up to the callback that is running.\<close>

definition owned_inv :: "ConsumerGroup \<Rightarrow> bool" where
  "owned_inv cg \<longleftrightarrow>
     set (keys (cg_consumers cg)) =
       (cg_owned cg - set (to_assign (cg_callback cg))) \<union> set (to_lose (cg_callback cg)) \<and>
     set (to_assign (cg_callback cg)) \<subseteq> cg_owned cg \<and> set (to_lose (cg_callback cg)) \<inter> cg_owned cg = {} \<and>
     distinct (to_assign (cg_callback cg)) \<and> distinct (to_lose (cg_callback cg))"

text \<open>The consumers at hand in \<open>lost\<close> and in the shutdown exist, and \<open>quit\<close> is closed for those waited for.\<close>

definition ids_inv :: "ConsumerGroup \<Rightarrow> bool" where
  "ids_inv cg \<longleftrightarrow>
     (\<forall>ident \<in> set (losing (cg_callback cg)) \<union> set (shutting (cg_main cg)). ident < length (cg_heap cg)) \<and>
     (\<forall>ident \<in> set (losing (cg_callback cg)) \<union> set (waiting (cg_main cg)). pc_quit (cg_heap cg ! ident))"

text \<open>Where the goroutines can be at the same time.\<close>

definition phase_inv :: "ConsumerGroup \<Rightarrow> bool" where
  "phase_inv cg \<longleftrightarrow>
     (cg_blocked cg \<longrightarrow> cg_callback cg = NoCallback) \<and>
     (cg_poller cg \<noteq> Polling \<longrightarrow> cg_poller cg \<noteq> Stopped \<longrightarrow> cg_blocked cg) \<and>
     (cg_poller cg = Polling \<longrightarrow> \<not> cg_blocked cg) \<and>
     (cg_main cg \<noteq> Waiting \<longrightarrow> cg_ctx_done cg) \<and>
     (cg_poller cg = Stopped \<longrightarrow> cg_ctx_done cg) \<and>
     (cg_main cg = Closed \<longrightarrow> cg_callback cg = NoCallback \<and> cg_owned cg = {} \<and> \<not> cg_blocked cg)"

text \<open>The consumers a running \<open>lost\<close> waits for are the ones of partitions that have left the map.\<close>

definition losing_inv :: "ConsumerGroup \<Rightarrow> bool" where
  "losing_inv cg \<longleftrightarrow>
     distinct (map (\<lambda>ident. consumer_tp (cg_heap cg ! ident)) (losing (cg_callback cg))) \<and>
     (\<forall>ident \<in> set (losing (cg_callback cg)). consumer_tp (cg_heap cg ! ident) \<notin> set (keys (cg_consumers cg)))"

definition cg_inv :: "ConsumerGroup \<Rightarrow> bool" where
  "cg_inv cg \<longleftrightarrow> map_inv cg \<and> quit_inv cg \<and> live_inv cg \<and> owned_inv cg \<and> ids_inv cg \<and> phase_inv cg \<and>
     losing_inv cg"

subsection \<open>What the operations change\<close>

lemma closeQuitChannel_Inr:
  "closeQuitChannel pc = Inr pc' \<Longrightarrow>
   consumer_tp pc' = consumer_tp pc \<and> pc_point pc' = pc_point pc \<and> pc_closing pc' \<and>
   (pc_quit pc = pc_closing pc \<longrightarrow> pc_quit pc') \<and> (pc_quit pc \<longrightarrow> pc_quit pc')"
  by (auto simp: closeQuitChannel_def consumer_tp_def split: if_splits)

lemma closeQuitChannel_ok: "pc_quit pc = pc_closing pc \<Longrightarrow> \<exists>pc'. closeQuitChannel pc = Inr pc'"
  by (simp add: closeQuitChannel_def)

lemma point_set_point:
  "ident < length (cg_heap cg) \<Longrightarrow> point (set_point ident p cg) j = (if j = ident then p else point cg j)"
  by (simp add: point_def set_point_def nth_list_update)

lemma consumer_tp_set_point:
  "consumer_tp (cg_heap (set_point ident p cg) ! j) = consumer_tp (cg_heap cg ! j)"
  by (cases "ident < length (cg_heap cg)")
    (simp_all add: set_point_def consumer_tp_def nth_list_update list_update_beyond)

lemma pc_quit_set_point: "pc_quit (cg_heap (set_point ident p cg) ! j) = pc_quit (cg_heap cg ! j)"
  by (cases "ident < length (cg_heap cg)") (simp_all add: set_point_def nth_list_update list_update_beyond)

lemma set_point_fields [simp]:
  "cg_consumers (set_point i p cg) = cg_consumers cg" "length (cg_heap (set_point i p cg)) = length (cg_heap cg)"
  "cg_client_done (set_point i p cg) = cg_client_done cg"
  "cg_ctx_done (set_point i p cg) = cg_ctx_done cg" "cg_callback (set_point i p cg) = cg_callback cg"
  "cg_poller (set_point i p cg) = cg_poller cg" "cg_main (set_point i p cg) = cg_main cg"
  "cg_blocked (set_point i p cg) = cg_blocked cg" "cg_owned (set_point i p cg) = cg_owned cg"
  "cg_delivered (set_point i p cg) = cg_delivered cg" "cg_commits (set_point i p cg) = cg_commits cg"
  "cg_panic (set_point i p cg) = cg_panic cg"
  by (simp_all add: set_point_def)

text \<open>
  What a round of \<open>lost\<close> and the body of a shutdown goroutine leave: the fields they do not write,
  and the consumer with its channel closed.
\<close>

definition same_control :: "ConsumerGroup \<Rightarrow> ConsumerGroup \<Rightarrow> bool" where
  "same_control cg cg' \<longleftrightarrow>
     cg_ctx_done cg' = cg_ctx_done cg \<and> cg_client_done cg' = cg_client_done cg \<and>
     cg_callback cg' = cg_callback cg \<and> cg_poller cg' = cg_poller cg \<and>
     cg_main cg' = cg_main cg \<and> cg_blocked cg' = cg_blocked cg \<and> cg_owned cg' = cg_owned cg \<and>
     cg_delivered cg' = cg_delivered cg \<and> cg_commits cg' = cg_commits cg \<and> cg_panic cg' = cg_panic cg"

lemma lose_one_Inr:
  "lose_one tp cg = Inr (cg', ident) \<Longrightarrow>
   map_of (cg_consumers cg) tp = Some ident \<and> same_control cg cg' \<and>
   cg_consumers cg' = filter (\<lambda>(k, v). k \<noteq> tp) (cg_consumers cg) \<and>
   (\<exists>pc. closeQuitChannel (cg_heap cg ! ident) = Inr pc \<and> cg_heap cg' = (cg_heap cg)[ident := pc])"
  by (auto simp: lose_one_def same_control_def split: option.splits sum.splits)

lemma shut_one_Inr:
  "shut_one ident cg = Inr cg' \<Longrightarrow>
   same_control cg cg' \<and> cg_consumers cg' = cg_consumers cg \<and>
   (\<exists>pc. closeQuitChannel (cg_heap cg ! ident) = Inr pc \<and> cg_heap cg' = (cg_heap cg)[ident := pc])"
  by (auto simp: shut_one_def same_control_def split: sum.splits)

lemma map_inv_of: "map_inv cg \<Longrightarrow> map_of (cg_consumers cg) tp = Some ident \<longleftrightarrow> (tp, ident) \<in> set (cg_consumers cg)"
  by (auto simp: map_inv_def keys_def dest: map_of_SomeD)

text \<open>Writing a consumer that keeps its partition keeps the map invariant.\<close>

lemma map_inv_heap:
  assumes "map_inv cg" and "consumer_tp pc = consumer_tp (cg_heap cg ! ident)"
    and "cg_heap cg' = (cg_heap cg)[ident := pc]"
    and "set (cg_consumers cg') \<subseteq> set (cg_consumers cg)" and "distinct (keys (cg_consumers cg'))"
  shows "map_inv cg'"
  using assms by (cases "ident < length (cg_heap cg)")
    (auto simp: map_inv_def nth_list_update list_update_beyond)

lemma map_inv_set_point: "map_inv cg \<Longrightarrow> map_inv (set_point ident p cg)"
  by (rule map_inv_heap [of cg "(cg_heap cg ! ident)\<lparr>pc_point := p\<rparr>" ident])
    (simp_all add: set_point_def consumer_tp_def map_inv_def)

lemma keys_filter: "set (keys (filter (\<lambda>(k, v). k \<noteq> tp) m)) = set (keys m) - {tp}"
  by (auto simp: keys_def)

lemma distinct_keys_filter: "distinct (keys m) \<Longrightarrow> distinct (keys (filter P m))"
  by (auto simp: keys_def distinct_map_filter)

lemma map_inv_assign:
  assumes "map_inv cg" and "tp \<notin> set (keys (cg_consumers cg))"
  shows "map_inv (assign_one tp cg)"
  using assms
  by (auto simp: map_inv_def assign_one_def upsert_fresh nth_append new_consumer_def consumer_tp_def keys_def
    dest: less_SucI)

lemma map_inv_lose:
  assumes "map_inv cg" and "lose_one tp cg = Inr (cg', ident)"
  shows "map_inv cg'"
proof -
  from lose_one_Inr [OF assms(2)] obtain pc where pc: "closeQuitChannel (cg_heap cg ! ident) = Inr pc"
    and h: "cg_heap cg' = (cg_heap cg)[ident := pc]"
    and c: "cg_consumers cg' = filter (\<lambda>(k, v). k \<noteq> tp) (cg_consumers cg)" by blast
  show ?thesis
    by (rule map_inv_heap [OF assms(1) _ h])
      (use assms(1) closeQuitChannel_Inr [OF pc] in \<open>auto simp: c distinct_keys_filter map_inv_def\<close>)
qed

lemma map_inv_shut:
  assumes "map_inv cg" and "shut_one ident cg = Inr cg'"
  shows "map_inv cg'"
proof -
  from shut_one_Inr [OF assms(2)] obtain pc where pc: "closeQuitChannel (cg_heap cg ! ident) = Inr pc"
    and h: "cg_heap cg' = (cg_heap cg)[ident := pc]" and c: "cg_consumers cg' = cg_consumers cg" by blast
  show ?thesis
    by (rule map_inv_heap [OF assms(1) _ h])
      (use assms(1) closeQuitChannel_Inr [OF pc] in \<open>auto simp: c map_inv_def\<close>)
qed

lemma map_inv_frame:
  "cg_consumers cg' = cg_consumers cg \<Longrightarrow> cg_heap cg' = cg_heap cg \<Longrightarrow> map_inv cg' = map_inv cg"
  by (simp add: map_inv_def)

lemma quit_inv_iff: "quit_inv cg \<longleftrightarrow> set (cg_heap cg) \<subseteq> {pc. pc_quit pc = pc_closing pc}"
  unfolding quit_inv_def by blast

lemma quit_inv_update:
  assumes "quit_inv cg" and "pc_quit (cg_heap cg ! ident) = pc_closing (cg_heap cg ! ident) \<longrightarrow> pc_quit pc = pc_closing pc"
    and "cg_heap cg' = (cg_heap cg)[ident := pc]"
  shows "quit_inv cg'"
proof (cases "ident < length (cg_heap cg)")
  case True
  then have "cg_heap cg ! ident \<in> set (cg_heap cg)" by simp
  with assms(1) have "pc_quit (cg_heap cg ! ident) = pc_closing (cg_heap cg ! ident)" unfolding quit_inv_def by blast
  then show ?thesis using assms by (simp add: quit_inv_iff set_update_subsetI)
next
  case False
  then show ?thesis using assms(1,3) by (simp add: quit_inv_def list_update_beyond)
qed

lemma quit_inv_set:
  assumes "quit_inv cg" and "closeQuitChannel (cg_heap cg ! ident) = Inr pc"
    and "cg_heap cg' = (cg_heap cg)[ident := pc]"
  shows "quit_inv cg'"
  by (rule quit_inv_update [OF assms(1) _ assms(3)])
    (use assms(2) in \<open>auto simp: closeQuitChannel_def split: if_splits\<close>)

lemma quit_inv_set_point: "quit_inv cg \<Longrightarrow> quit_inv (set_point ident p cg)"
  by (rule quit_inv_update [where pc = "(cg_heap cg ! ident)\<lparr>pc_point := p\<rparr>" and ident = ident])
    (simp_all add: set_point_def)

lemma quit_inv_frame: "cg_heap cg' = cg_heap cg \<Longrightarrow> quit_inv cg' = quit_inv cg"
  by (simp add: quit_inv_def)

lemma quit_inv_lose: "quit_inv cg \<Longrightarrow> lose_one tp cg = Inr (cg', ident) \<Longrightarrow> quit_inv cg'"
  using lose_one_Inr quit_inv_set by metis

lemma quit_inv_shut: "quit_inv cg \<Longrightarrow> shut_one ident cg = Inr cg' \<Longrightarrow> quit_inv cg'"
  using shut_one_Inr quit_inv_set by metis

lemma quit_inv_assign: "quit_inv cg \<Longrightarrow> quit_inv (assign_one tp cg)"
  by (auto simp: quit_inv_def assign_one_def new_consumer_def)

subsection \<open>Every step keeps the invariants\<close>

lemma live_inv_frame:
  "cg_consumers cg' = cg_consumers cg \<Longrightarrow> cg_heap cg' = cg_heap cg \<Longrightarrow>
   set (losing (cg_callback cg)) \<subseteq> set (losing (cg_callback cg')) \<Longrightarrow> live_inv cg \<Longrightarrow> live_inv cg'"
  unfolding live_inv_def point_def by auto

lemma live_inv_set_point:
  assumes "live_inv cg" and "ident < length (cg_heap cg)" and "p = Returned \<or> point cg ident \<noteq> Returned"
  shows "live_inv (set_point ident p cg)"
  unfolding live_inv_def
proof (intro allI impI)
  fix j assume j: "j < length (cg_heap (set_point ident p cg))" "point (set_point ident p cg) j \<noteq> Returned"
  then have "point cg j \<noteq> Returned" using assms(2,3) by (auto simp: point_set_point split: if_splits)
  with j(1) assms(1)
  show "(consumer_tp (cg_heap (set_point ident p cg) ! j), j) \<in> set (cg_consumers (set_point ident p cg)) \<or>
      j \<in> set (losing (cg_callback (set_point ident p cg)))"
    unfolding live_inv_def consumer_tp_set_point by simp
qed

text \<open>Closing a channel changes neither the partitions nor the points of the consumers.\<close>

lemma close_same:
  assumes "closeQuitChannel (cg_heap cg ! ident) = Inr pc" and "cg_heap cg' = (cg_heap cg)[ident := pc]"
  shows "length (cg_heap cg') = length (cg_heap cg)" and "point cg' j = point cg j"
    and "consumer_tp (cg_heap cg' ! j) = consumer_tp (cg_heap cg ! j)"
  using closeQuitChannel_Inr [OF assms(1)] assms(2)
  by (cases "ident < length (cg_heap cg)"; simp add: point_def nth_list_update list_update_beyond)+

lemma live_inv_assign:
  assumes "live_inv cg" and "tp \<notin> set (keys (cg_consumers cg))" and "losing (cg_callback cg) = []"
  shows "live_inv (assign_one tp cg\<lparr>cg_callback := c\<rparr>)"
  using assms
  by (auto simp: live_inv_def assign_one_def upsert_fresh nth_append point_def new_consumer_def consumer_tp_def
    less_Suc_eq)

lemma live_inv_lose:
  assumes "live_inv cg" and "map_inv cg" and "lose_one tp cg = Inr (cg', ident)"
    and "losing (cg_callback cg) = idents"
  shows "live_inv (cg'\<lparr>cg_callback := Losing tps (ident # idents)\<rparr>)"
proof -
  from lose_one_Inr [OF assms(3)] obtain pc where pc: "closeQuitChannel (cg_heap cg ! ident) = Inr pc"
    and h: "cg_heap cg' = (cg_heap cg)[ident := pc]"
    and c: "cg_consumers cg' = filter (\<lambda>(k, v). k \<noteq> tp) (cg_consumers cg)"
    and m: "map_of (cg_consumers cg) tp = Some ident" by blast
  note same = close_same [OF pc h]
  have only: "j = ident" if "(tp, j) \<in> set (cg_consumers cg)" for j
    using that m assms(2) by (auto simp: map_inv_of [symmetric])
  show ?thesis
    unfolding live_inv_def
  proof (intro allI impI)
    fix j assume "j < length (cg_heap (cg'\<lparr>cg_callback := Losing tps (ident # idents)\<rparr>))"
      and "point (cg'\<lparr>cg_callback := Losing tps (ident # idents)\<rparr>) j \<noteq> Returned"
    then have "j < length (cg_heap cg)" "point cg j \<noteq> Returned" using same by (simp_all add: point_def)
    then have "(consumer_tp (cg_heap cg ! j), j) \<in> set (cg_consumers cg) \<or> j \<in> set idents"
      using assms(1,4) by (auto simp: live_inv_def)
    then show "(consumer_tp (cg_heap (cg'\<lparr>cg_callback := Losing tps (ident # idents)\<rparr>) ! j), j)
        \<in> set (cg_consumers (cg'\<lparr>cg_callback := Losing tps (ident # idents)\<rparr>)) \<or>
      j \<in> set (losing (cg_callback (cg'\<lparr>cg_callback := Losing tps (ident # idents)\<rparr>)))"
      using only by (auto simp: c same(3))
  qed
qed

lemma live_inv_shut:
  assumes "live_inv cg" and "shut_one ident cg = Inr cg'"
  shows "live_inv cg'"
proof -
  from shut_one_Inr [OF assms(2)] obtain pc where pc: "closeQuitChannel (cg_heap cg ! ident) = Inr pc"
    and h: "cg_heap cg' = (cg_heap cg)[ident := pc]" and c: "cg_consumers cg' = cg_consumers cg"
    and s: "same_control cg cg'" by blast
  show ?thesis using close_same [OF pc h] s assms(1) by (simp add: live_inv_def c same_control_def point_def)
qed

lemma assign_fresh:
  "owned_inv cg \<Longrightarrow> cg_callback cg = Assigning (tp # tps) \<Longrightarrow> tp \<notin> set (keys (cg_consumers cg))"
  by (auto simp: owned_inv_def)

text \<open>The fields that an invariant does not read.\<close>

lemma map_inv_fields [simp]:
  "map_inv (cg_ctx_done_update b cg) = map_inv cg" "map_inv (cg_client_done_update b cg) = map_inv cg" "map_inv (cg_callback_update c cg) = map_inv cg"
  "map_inv (cg_poller_update p cg) = map_inv cg" "map_inv (cg_main_update m cg) = map_inv cg"
  "map_inv (cg_blocked_update b cg) = map_inv cg" "map_inv (cg_owned_update w cg) = map_inv cg"
  "map_inv (cg_delivered_update d cg) = map_inv cg" "map_inv (cg_commits_update k cg) = map_inv cg"
  "map_inv (cg_panic_update e cg) = map_inv cg"
  by (simp_all add: map_inv_def)

lemma quit_inv_fields [simp]:
  "quit_inv (cg_ctx_done_update b cg) = quit_inv cg" "quit_inv (cg_client_done_update b cg) = quit_inv cg" "quit_inv (cg_callback_update c cg) = quit_inv cg"
  "quit_inv (cg_poller_update p cg) = quit_inv cg" "quit_inv (cg_main_update m cg) = quit_inv cg"
  "quit_inv (cg_blocked_update b cg) = quit_inv cg" "quit_inv (cg_owned_update w cg) = quit_inv cg"
  "quit_inv (cg_delivered_update d cg) = quit_inv cg" "quit_inv (cg_commits_update k cg) = quit_inv cg"
  "quit_inv (cg_panic_update e cg) = quit_inv cg"
  by (simp_all add: quit_inv_def)

lemma live_inv_fields [simp]:
  "live_inv (cg_ctx_done_update b cg) = live_inv cg" "live_inv (cg_client_done_update b cg) = live_inv cg" "live_inv (cg_poller_update p cg) = live_inv cg"
  "live_inv (cg_main_update m cg) = live_inv cg" "live_inv (cg_blocked_update b cg) = live_inv cg"
  "live_inv (cg_owned_update w cg) = live_inv cg" "live_inv (cg_delivered_update d cg) = live_inv cg"
  "live_inv (cg_commits_update k cg) = live_inv cg" "live_inv (cg_panic_update e cg) = live_inv cg"
  by (simp_all add: live_inv_def point_def)

lemma map_inv_move:
  assumes "move hs cg cg'" and "map_inv cg" and "owned_inv cg"
  shows "map_inv cg'"
  using assms
  by (cases rule: move.cases)
    (auto intro: map_inv_set_point map_inv_assign map_inv_lose map_inv_shut dest: assign_fresh)

lemma quit_inv_move:
  assumes "move hs cg cg'" and "quit_inv cg"
  shows "quit_inv cg'"
  using assms
  by (cases rule: move.cases)
    (auto intro: quit_inv_set_point quit_inv_assign quit_inv_lose quit_inv_shut)

lemma live_inv_callback:
  "live_inv cg \<Longrightarrow> losing (cg_callback cg) = [] \<Longrightarrow> live_inv (cg\<lparr>cg_callback := c\<rparr>)"
  by (auto simp: live_inv_def point_def)

lemma live_inv_lost_end:
  "live_inv cg \<Longrightarrow> all_done cg (losing (cg_callback cg)) \<Longrightarrow> live_inv (cg\<lparr>cg_callback := c\<rparr>)"
  by (auto simp: live_inv_def point_def all_done_def)

lemma live_inv_move:
  assumes "move hs cg cg'" and "live_inv cg" and "map_inv cg" and "owned_inv cg"
  shows "live_inv cg'"
  using assms
proof (cases rule: move.cases)
  case (send tp records fs ident)
  then have "ident < length (cg_heap cg)" using assms(3) by (auto simp: map_inv_def dest: map_of_SomeD)
  then show ?thesis using send assms(2) by (simp add: live_inv_set_point)
qed (auto intro: live_inv_callback live_inv_lost_end live_inv_set_point live_inv_assign live_inv_lose live_inv_shut
    dest: assign_fresh)

lemma owned_inv_fields [simp]:
  "owned_inv (cg_ctx_done_update b cg) = owned_inv cg" "owned_inv (cg_client_done_update b cg) = owned_inv cg" "owned_inv (cg_poller_update p cg) = owned_inv cg"
  "owned_inv (cg_main_update m cg) = owned_inv cg" "owned_inv (cg_blocked_update b cg) = owned_inv cg"
  "owned_inv (cg_delivered_update d cg) = owned_inv cg" "owned_inv (cg_commits_update k cg) = owned_inv cg"
  "owned_inv (cg_panic_update e cg) = owned_inv cg" "owned_inv (cg_heap_update h cg) = owned_inv cg"
  "owned_inv (set_point ident q cg) = owned_inv cg"
  by (simp_all add: owned_inv_def)

lemma ids_inv_fields [simp]:
  "ids_inv (cg_ctx_done_update b cg) = ids_inv cg" "ids_inv (cg_client_done_update b cg) = ids_inv cg" "ids_inv (cg_poller_update p cg) = ids_inv cg"
  "ids_inv (cg_owned_update w cg) = ids_inv cg" "ids_inv (cg_blocked_update b cg) = ids_inv cg"
  "ids_inv (cg_delivered_update d cg) = ids_inv cg" "ids_inv (cg_commits_update k cg) = ids_inv cg"
  "ids_inv (cg_panic_update e cg) = ids_inv cg" "ids_inv (cg_consumers_update c cg) = ids_inv cg"
  "ids_inv (set_point ident q cg) = ids_inv cg"
  by (simp_all add: ids_inv_def pc_quit_set_point)

lemma owned_inv_assign:
  "owned_inv cg \<Longrightarrow> cg_callback cg = Assigning (tp # tps) \<Longrightarrow>
   owned_inv (assign_one tp cg\<lparr>cg_callback := Assigning tps\<rparr>)"
  by (auto simp: owned_inv_def assign_one_def keys_upsert)

lemma owned_inv_lose:
  "owned_inv cg \<Longrightarrow> cg_callback cg = Losing (tp # tps) idents \<Longrightarrow> lose_one tp cg = Inr (cg', ident) \<Longrightarrow>
   owned_inv (cg'\<lparr>cg_callback := Losing tps (ident # idents)\<rparr>)"
  by (auto simp: owned_inv_def same_control_def keys_filter dest!: lose_one_Inr)

lemma owned_inv_shut: "owned_inv cg \<Longrightarrow> shut_one ident cg = Inr cg' \<Longrightarrow> owned_inv cg'"
  by (auto simp: owned_inv_def same_control_def dest!: shut_one_Inr)

lemma owned_inv_move:
  assumes "move hs cg cg'" and "owned_inv cg"
  shows "owned_inv cg'"
  using assms
proof (cases rule: move.cases)
  case (assigned_start tps)
  then show ?thesis using assms(2) by (auto simp: owned_inv_def)
next
  case (assigned_end)
  then show ?thesis using assms(2) by (simp add: owned_inv_def)
next
  case (lost_start tps)
  then show ?thesis using assms(2) by (auto simp: owned_inv_def)
next
  case (lost_end idents)
  then show ?thesis using assms(2) by (simp add: owned_inv_def)
qed (auto intro: owned_inv_assign owned_inv_lose owned_inv_shut)

lemma waiting_shutting: "set (waiting m) \<subseteq> set (shutting m)"
  by (cases m) auto

text \<open>Closing a channel closes no other and opens none.\<close>

lemma close_quits:
  assumes "quit_inv cg" and "closeQuitChannel (cg_heap cg ! ident) = Inr pc"
    and "cg_heap cg' = (cg_heap cg)[ident := pc]" and "ident < length (cg_heap cg)"
  shows "pc_quit (cg_heap cg' ! ident)" and "pc_quit (cg_heap cg ! j) \<Longrightarrow> pc_quit (cg_heap cg' ! j)"
  using assms closeQuitChannel_Inr [OF assms(2)] by (auto simp: nth_list_update quit_inv_def)

lemma ids_inv_lose:
  assumes "ids_inv cg" and "map_inv cg" and "quit_inv cg" and "cg_callback cg = Losing (tp # tps) idents"
    and "lose_one tp cg = Inr (cg', ident)"
  shows "ids_inv (cg'\<lparr>cg_callback := Losing tps (ident # idents)\<rparr>)"
proof -
  from lose_one_Inr [OF assms(5)] obtain pc where pc: "closeQuitChannel (cg_heap cg ! ident) = Inr pc"
    and h: "cg_heap cg' = (cg_heap cg)[ident := pc]" and m: "map_of (cg_consumers cg) tp = Some ident"
    and s: "same_control cg cg'" by blast
  have i: "ident < length (cg_heap cg)" using m assms(2) by (auto simp: map_inv_def dest: map_of_SomeD)
  have "length (cg_heap cg') = length (cg_heap cg)" by (simp add: h)
  with close_quits [OF assms(3) pc h i] assms(1,4) s i show ?thesis by (auto simp: ids_inv_def same_control_def)
qed

lemma ids_inv_shut:
  assumes "ids_inv cg" and "quit_inv cg" and "cg_main cg = Shutting idents waits" and "ident \<in> set idents"
    and "shut_one ident cg = Inr cg'"
  shows "ids_inv (cg'\<lparr>cg_main := Shutting (remove1 ident idents) (ident # waits)\<rparr>)"
proof -
  from shut_one_Inr [OF assms(5)] obtain pc where pc: "closeQuitChannel (cg_heap cg ! ident) = Inr pc"
    and h: "cg_heap cg' = (cg_heap cg)[ident := pc]" and s: "same_control cg cg'" by blast
  have i: "ident < length (cg_heap cg)" using assms(1,3,4) by (auto simp: ids_inv_def)
  have "length (cg_heap cg') = length (cg_heap cg)" by (simp add: h)
  with close_quits [OF assms(2) pc h i] assms(1,3) s i set_remove1_subset [of ident idents]
  show ?thesis by (auto simp: ids_inv_def same_control_def)
qed

lemma ids_inv_move:
  assumes "move hs cg cg'" and "ids_inv cg" and "map_inv cg" and "quit_inv cg"
  shows "ids_inv cg'"
  using assms
proof (cases rule: move.cases)
  case (assigned_one tp tps)
  then show ?thesis using assms(2) waiting_shutting [of "cg_main cg"]
    by (auto simp: ids_inv_def assign_one_def nth_append)
next
  case shutdown_start
  then show ?thesis using assms(2,3) by (auto simp: ids_inv_def map_inv_def)
next
  case lost_one
  then show ?thesis using assms(2-4) ids_inv_lose by blast
next
  case shutdown_one
  then show ?thesis using assms(2,4) ids_inv_shut by blast
qed (auto simp: ids_inv_def pc_quit_set_point)

lemma losing_inv_none: "losing (cg_callback cg) = [] \<Longrightarrow> losing_inv cg"
  by (simp add: losing_inv_def)

lemma losing_inv_fields [simp]:
  "losing_inv (cg_ctx_done_update b cg) = losing_inv cg" "losing_inv (cg_client_done_update b cg) = losing_inv cg" "losing_inv (cg_poller_update p cg) = losing_inv cg"
  "losing_inv (cg_main_update m cg) = losing_inv cg" "losing_inv (cg_blocked_update b cg) = losing_inv cg"
  "losing_inv (cg_owned_update w cg) = losing_inv cg" "losing_inv (cg_delivered_update d cg) = losing_inv cg"
  "losing_inv (cg_commits_update k cg) = losing_inv cg" "losing_inv (cg_panic_update e cg) = losing_inv cg"
  "losing_inv (set_point ident q cg) = losing_inv cg"
  by (simp_all add: losing_inv_def consumer_tp_set_point)

lemma losing_inv_lose:
  assumes "losing_inv cg" and "map_inv cg" and "cg_callback cg = Losing (tp # tps) idents"
    and "lose_one tp cg = Inr (cg', ident)"
  shows "losing_inv (cg'\<lparr>cg_callback := Losing tps (ident # idents)\<rparr>)"
proof -
  from lose_one_Inr [OF assms(4)] obtain pc where pc: "closeQuitChannel (cg_heap cg ! ident) = Inr pc"
    and h: "cg_heap cg' = (cg_heap cg)[ident := pc]"
    and c: "cg_consumers cg' = filter (\<lambda>(k, v). k \<noteq> tp) (cg_consumers cg)"
    and m: "(tp, ident) \<in> set (cg_consumers cg)" by (auto dest: map_of_SomeD)
  then have "consumer_tp (cg_heap cg ! ident) = tp" and "tp \<in> set (keys (cg_consumers cg))"
    using assms(2) by (force simp: map_inv_def keys_def)+
  then show ?thesis using assms(1,3) by (auto simp: losing_inv_def close_same(3) [OF pc h] c keys_filter)
qed

lemma shut_same:
  assumes "shut_one ident cg = Inr cg'"
  shows "same_control cg cg'" and "cg_consumers cg' = cg_consumers cg"
    and "length (cg_heap cg') = length (cg_heap cg)" and "point cg' j = point cg j"
    and "consumer_tp (cg_heap cg' ! j) = consumer_tp (cg_heap cg ! j)"
  using shut_one_Inr [OF assms] close_same by blast+

lemma lose_same:
  assumes "lose_one tp cg = Inr (cg', ident)"
  shows "same_control cg cg'" and "map_of (cg_consumers cg) tp = Some ident"
    and "length (cg_heap cg') = length (cg_heap cg)" and "point cg' j = point cg j"
    and "consumer_tp (cg_heap cg' ! j) = consumer_tp (cg_heap cg ! j)"
  using lose_one_Inr [OF assms] close_same by blast+

lemma losing_inv_shut: "losing_inv cg \<Longrightarrow> shut_one ident cg = Inr cg' \<Longrightarrow> losing_inv cg'"
  using shut_same [of ident cg cg'] by (simp add: losing_inv_def same_control_def)

lemma losing_inv_move:
  assumes "move hs cg cg'" and "losing_inv cg" and "map_inv cg"
  shows "losing_inv cg'"
  using assms
proof (cases rule: move.cases)
  case lost_one
  then show ?thesis using assms(2,3) losing_inv_lose by blast
qed (auto simp: losing_inv_none intro: losing_inv_shut)

lemma phase_inv_move:
  assumes "move hs cg cg'" and "phase_inv cg"
  shows "phase_inv cg'"
  using assms
  by (cases rule: move.cases)
    (auto simp: phase_inv_def assign_one_def same_control_def dest!: lose_one_Inr shut_one_Inr)

lemma cg_inv_move: "move hs cg cg' \<Longrightarrow> cg_inv cg \<Longrightarrow> cg_inv cg'"
  unfolding cg_inv_def
  by (intro conjI; elim conjE)
    (rule map_inv_move quit_inv_move live_inv_move owned_inv_move ids_inv_move phase_inv_move losing_inv_move;
      assumption)+

lemma cg_inv_init: "cg_inv NewConsumerGroup"
  by (simp add: cg_inv_def NewConsumerGroup_def map_inv_def quit_inv_def live_inv_def owned_inv_def ids_inv_def
    phase_inv_def losing_inv_def)

lemma cg_inv_runs: "runs hs cg cg' \<Longrightarrow> cg_inv cg \<Longrightarrow> cg_inv cg'"
  by (induction rule: runs.induct) (auto simp: cg_step_def intro: cg_inv_move)

lemma cg_inv_reachable: "reachable hs cg \<Longrightarrow> cg_inv cg"
  using cg_inv_runs cg_inv_init by blast

end
