(* ===== verification/Group_Safety.thy ===== *)
theory Group_Safety
  imports Consumer_Group
begin

text \<open>
  What the consumer group of \<open>config/kafka/consumer.go\<close> promises while it runs, in every interleaving:
  one worker per partition, no batch lost, repeated or reordered on its way to a worker, no panic
  from the channels, and a refinement of a specification that knows nothing of goroutines.
\<close>

section \<open>Reaching states\<close>

lemma reach_move: "reachable hs cg \<Longrightarrow> cg_panic cg = None \<Longrightarrow> move hs cg cg' \<Longrightarrow> reachable hs cg'"
  by (rule runs.more) (simp_all add: cg_step_def)

text \<open>What holds at the start and is kept by every move, given \<open>cg_inv\<close>, holds in every reachable state.\<close>

locale group_invariant =
  fixes hs :: handlers and I :: "ConsumerGroup \<Rightarrow> bool"
  assumes start: "I NewConsumerGroup"
    and keep: "move hs cg cg' \<Longrightarrow> cg_inv cg \<Longrightarrow> I cg \<Longrightarrow> I cg'"
begin

lemma kept_by_runs: "runs hs cg cg' \<Longrightarrow> cg_inv cg \<Longrightarrow> I cg \<Longrightarrow> I cg'"
proof (induction rule: runs.induct)
  case (more cg cg' cg'')
  then show ?case using keep cg_inv_runs by (auto simp: cg_step_def)
qed simp

lemma holds: "reachable hs cg \<Longrightarrow> I cg"
  using kept_by_runs cg_inv_init start by blast

end

section \<open>The fields the operations leave alone\<close>

lemma assign_one_fields [simp]:
  "cg_client_done (assign_one tp cg) = cg_client_done cg"
  "cg_ctx_done (assign_one tp cg) = cg_ctx_done cg" "cg_callback (assign_one tp cg) = cg_callback cg"
  "cg_poller (assign_one tp cg) = cg_poller cg" "cg_main (assign_one tp cg) = cg_main cg"
  "cg_blocked (assign_one tp cg) = cg_blocked cg" "cg_owned (assign_one tp cg) = cg_owned cg"
  "cg_delivered (assign_one tp cg) = cg_delivered cg" "cg_commits (assign_one tp cg) = cg_commits cg"
  "cg_panic (assign_one tp cg) = cg_panic cg"
  "length (cg_heap (assign_one tp cg)) = Suc (length (cg_heap cg))"
  by (simp_all add: assign_one_def)

lemma point_fields [simp]:
  "point (cg_client_done_update b cg) i = point cg i"
  "point (cg_ctx_done_update b cg) i = point cg i" "point (cg_callback_update c cg) i = point cg i"
  "point (cg_poller_update p cg) i = point cg i" "point (cg_main_update m cg) i = point cg i"
  "point (cg_blocked_update b cg) i = point cg i" "point (cg_owned_update w cg) i = point cg i"
  "point (cg_delivered_update d cg) i = point cg i" "point (cg_commits_update k cg) i = point cg i"
  "point (cg_panic_update e cg) i = point cg i" "point (cg_consumers_update l cg) i = point cg i"
  by (simp_all add: point_def)

lemma point_assign:
  "i < length (cg_heap cg) \<Longrightarrow> point (assign_one tp cg) i = point cg i"
  "point (assign_one tp cg) (length (cg_heap cg)) = Selecting"
  by (simp_all add: point_def assign_one_def nth_append new_consumer_def)

lemma consumer_tp_assign:
  "i < length (cg_heap cg) \<Longrightarrow> consumer_tp (cg_heap (assign_one tp cg) ! i) = consumer_tp (cg_heap cg ! i)"
  "consumer_tp (cg_heap (assign_one tp cg) ! length (cg_heap cg)) = tp"
  by (simp_all add: assign_one_def nth_append new_consumer_def consumer_tp_def)

lemma map_of_id: "map_inv cg \<Longrightarrow> map_of (cg_consumers cg) tp = Some i \<Longrightarrow>
    i < length (cg_heap cg) \<and> consumer_tp (cg_heap cg ! i) = tp"
  by (auto simp: map_inv_def dest: map_of_SomeD)

section \<open>One live consumer per partition\<close>

text \<open>The client has not yet been told that the group has given the partition up.\<close>

definition held :: "ConsumerGroup \<Rightarrow> TopicPartition \<Rightarrow> bool" where
  "held cg tp \<longleftrightarrow> tp \<in> cg_owned cg \<or> tp \<in> set (to_lose (cg_callback cg)) \<or>
     tp \<in> (\<lambda>ident. consumer_tp (cg_heap cg ! ident)) ` set (losing (cg_callback cg))"

lemma live_held:
  assumes "cg_inv cg" and "i < length (cg_heap cg)" and "point cg i \<noteq> Returned"
  shows "held cg (consumer_tp (cg_heap cg ! i))"
proof -
  have "(consumer_tp (cg_heap cg ! i), i) \<in> set (cg_consumers cg) \<or> i \<in> set (losing (cg_callback cg))"
    using assms by (simp add: cg_inv_def live_inv_def)
  then show ?thesis
  proof
    assume "(consumer_tp (cg_heap cg ! i), i) \<in> set (cg_consumers cg)"
    then have "consumer_tp (cg_heap cg ! i) \<in> set (keys (cg_consumers cg))" by (force simp: keys_def)
    then show ?thesis using assms(1) by (auto simp: cg_inv_def owned_inv_def held_def)
  qed (simp add: held_def)
qed

lemma live_unique:
  assumes "cg_inv cg" and "i < length (cg_heap cg)" and "point cg i \<noteq> Returned"
    and "j < length (cg_heap cg)" and "point cg j \<noteq> Returned"
    and "consumer_tp (cg_heap cg ! i) = consumer_tp (cg_heap cg ! j)"
  shows "i = j"
proof -
  let ?tp = "\<lambda>i. consumer_tp (cg_heap cg ! i)" and ?l = "losing (cg_callback cg)"
  have inv: "map_inv cg" "live_inv cg" "losing_inv cg" using assms(1) by (simp_all add: cg_inv_def)
  have cases: "map_of (cg_consumers cg) (?tp k) = Some k \<or> k \<in> set ?l"
    if "k < length (cg_heap cg)" "point cg k \<noteq> Returned" for k
    using inv(2) that unfolding live_inv_def map_inv_of [OF inv(1)] by blast
  have apart: "map_of (cg_consumers cg) (?tp k) = None" if "k \<in> set ?l" for k
    using inv(3) that unfolding losing_inv_def keys_def map_of_eq_None_iff list.set_map by blast
  have "inj_on ?tp (set ?l)" using inv(3) by (simp add: losing_inv_def distinct_map)
  then have both: "i \<in> set ?l \<Longrightarrow> j \<in> set ?l \<Longrightarrow> i = j" using assms(6) by (rule inj_onD)
  show ?thesis
  proof (cases "i \<in> set ?l")
    case True
    then have "map_of (cg_consumers cg) (?tp j) \<noteq> Some j" using apart [OF True] assms(6) by simp
    then show ?thesis using cases [OF assms(4,5)] both [OF True] by simp
  next
    case False
    then have i: "map_of (cg_consumers cg) (?tp j) = Some i" using cases [OF assms(2,3)] assms(6) by simp
    then have "j \<notin> set ?l" using apart [of j] by auto
    then show ?thesis using cases [OF assms(4,5)] i by simp
  qed
qed

section \<open>The channels never panic\<close>

lemma quit_ok: "quit_inv cg \<Longrightarrow> i < length (cg_heap cg) \<Longrightarrow> \<exists>pc. closeQuitChannel (cg_heap cg ! i) = Inr pc"
  by (rule closeQuitChannel_ok) (simp add: quit_inv_def)

lemma lose_ok:
  assumes "cg_inv cg" and "cg_callback cg = Losing (tp # tps) idents"
  shows "\<exists>cg' ident. lose_one tp cg = Inr (cg', ident)"
proof -
  have "tp \<in> set (keys (cg_consumers cg))" using assms by (simp add: cg_inv_def owned_inv_def)
  then obtain ident where m: "map_of (cg_consumers cg) tp = Some ident"
    by (metis keys_def list.set_map map_of_eq_None_iff not_Some_eq)
  then have "ident < length (cg_heap cg)" using assms(1) map_of_id by (simp add: cg_inv_def)
  then obtain pc where "closeQuitChannel (cg_heap cg ! ident) = Inr pc"
    using assms(1) quit_ok by (auto simp: cg_inv_def)
  then show ?thesis by (simp add: lose_one_def m)
qed

lemma shut_ok:
  assumes "cg_inv cg" and "cg_main cg = Shutting idents waits" and "ident \<in> set idents"
  shows "\<exists>cg'. shut_one ident cg = Inr cg'"
proof -
  have "ident < length (cg_heap cg)" using assms by (auto simp: cg_inv_def ids_inv_def)
  then obtain pc where "closeQuitChannel (cg_heap cg ! ident) = Inr pc"
    using assms(1) quit_ok by (auto simp: cg_inv_def)
  then show ?thesis by (simp add: shut_one_def)
qed

section \<open>Batches on their way\<close>

definition delivered_to :: "nat \<Rightarrow> ConsumerGroup \<Rightarrow> kgo_record list list" where
  "delivered_to i cg = map snd (filter (\<lambda>(j, b). j = i) (cg_delivered cg))"

definition committed_by :: "nat \<Rightarrow> ConsumerGroup \<Rightarrow> kgo_record list list" where
  "committed_by i cg = map (\<lambda>(j, b, h). b) (filter (\<lambda>(j, b, h). j = i) (cg_commits cg))"

definition pending :: "consume_point \<Rightarrow> kgo_record list list" where
  "pending p = (case p of Working b \<Rightarrow> [b] | _ \<Rightarrow> [])"

definition order_inv :: "ConsumerGroup \<Rightarrow> bool" where
  "order_inv cg \<longleftrightarrow>
     (\<forall>i < length (cg_heap cg). delivered_to i cg = committed_by i cg @ pending (point cg i)) \<and>
     (\<forall>i \<ge> length (cg_heap cg). delivered_to i cg = [] \<and> committed_by i cg = [])"

lemma pending_simps [simp]: "pending Selecting = []" "pending Returned = []" "pending (Working b) = [b]"
  by (simp_all add: pending_def)

lemma logs_fields:
  "cg_delivered cg' = cg_delivered cg \<Longrightarrow> delivered_to i cg' = delivered_to i cg"
  "cg_commits cg' = cg_commits cg \<Longrightarrow> committed_by i cg' = committed_by i cg"
  by (simp_all add: delivered_to_def committed_by_def)

lemma order_inv_same:
  assumes "order_inv cg" and "cg_delivered cg' = cg_delivered cg" and "cg_commits cg' = cg_commits cg"
    and "length (cg_heap cg') = length (cg_heap cg)" and "\<And>i. i < length (cg_heap cg) \<Longrightarrow> pending (point cg' i) = pending (point cg i)"
  shows "order_inv cg'"
  using assms by (simp add: order_inv_def logs_fields [of cg' cg])

lemma order_inv_assign:
  assumes "order_inv cg"
  shows "order_inv (assign_one tp cg\<lparr>cg_callback := c\<rparr>)"
  using assms
  by (auto simp: order_inv_def logs_fields [of "assign_one tp cg\<lparr>cg_callback := c\<rparr>" cg] less_Suc_eq point_assign)

lemma order_inv_send:
  assumes "order_inv cg" and "ident < length (cg_heap cg)" and "point cg ident = Selecting"
  shows "order_inv (set_point ident (Working records) cg\<lparr>cg_poller := p,
      cg_delivered := cg_delivered cg @ [(ident, records)]\<rparr>)"
  using assms by (auto simp: order_inv_def delivered_to_def committed_by_def point_set_point)

lemma order_inv_commit:
  assumes "order_inv cg" and "ident < length (cg_heap cg)" and "point cg ident = Working records"
  shows "order_inv (set_point ident Selecting cg\<lparr>cg_commits := cg_commits cg @ [(ident, records, handed)]\<rparr>)"
  using assms by (auto simp: order_inv_def delivered_to_def committed_by_def point_set_point)

lemma order_inv_move:
  assumes "move hs cg cg'" and "order_inv cg" and "map_inv cg"
  shows "order_inv cg'"
  using assms
proof (cases rule: move.cases)
  case (lost_one tp tps idents cg'' ident)
  then show ?thesis using lose_same [of tp cg cg'' ident] assms(2)
    by (intro order_inv_same [OF assms(2)]) (auto simp: same_control_def)
next
  case (shutdown_one idents waits ident cg'')
  then show ?thesis using shut_same [of ident cg cg''] assms(2)
    by (intro order_inv_same [OF assms(2)]) (auto simp: same_control_def)
next
  case (send tp records fs ident)
  then show ?thesis using map_of_id [OF assms(3)] by (simp add: order_inv_send assms(2))
qed (auto simp: point_set_point intro: order_inv_assign order_inv_commit order_inv_same)

interpretation order: group_invariant hs order_inv for hs
proof
  show "order_inv NewConsumerGroup"
    by (simp add: order_inv_def NewConsumerGroup_def delivered_to_def committed_by_def)
  show "move hs cg cg' \<Longrightarrow> cg_inv cg \<Longrightarrow> order_inv cg \<Longrightarrow> order_inv cg'" for cg cg'
    using order_inv_move by (simp add: cg_inv_def)
qed

lemmas order_inv_reachable = order.holds

section \<open>Where commits come from\<close>

text \<open>Every commit is what \<open>processRecordsAndCommit\<close> made of a batch that was sent to the consumer.\<close>

definition commit_inv :: "handlers \<Rightarrow> ConsumerGroup \<Rightarrow> bool" where
  "commit_inv hs cg \<longleftrightarrow>
     (\<forall>(i, b, h, log) \<in> set (cg_commits cg). \<exists>pc process commit.
        (process, commit) \<in> hs \<and> processRecordsAndCommit pc process commit b = Inr (h, log))"

lemma commit_inv_same: "cg_commits cg' = cg_commits cg \<Longrightarrow> commit_inv hs cg \<Longrightarrow> commit_inv hs cg'"
  by (simp add: commit_inv_def)

lemma commit_inv_move:
  assumes "move hs cg cg'" and "commit_inv hs cg"
  shows "commit_inv hs cg'"
  using assms
proof (cases rule: move.cases)
  case (lost_one tp tps idents cg'' ident)
  then show ?thesis using lose_same(1) [of tp cg cg'' ident] assms(2)
    by (intro commit_inv_same [OF _ assms(2)]) (simp add: same_control_def)
next
  case (shutdown_one idents waits ident cg'')
  then show ?thesis using shut_same(1) [of ident cg cg''] assms(2)
    by (intro commit_inv_same [OF _ assms(2)]) (simp add: same_control_def)
next
  case (consume_work ident records process commit handed log)
  then show ?thesis using assms(2) unfolding commit_inv_def by auto
qed (auto intro: commit_inv_same)

interpretation commits: group_invariant hs "commit_inv hs" for hs
proof
  show "commit_inv hs NewConsumerGroup"
    by (simp add: commit_inv_def NewConsumerGroup_def)
  show "move hs cg cg' \<Longrightarrow> cg_inv cg \<Longrightarrow> commit_inv hs cg \<Longrightarrow> commit_inv hs cg'" for cg cg'
    using commit_inv_move by blast
qed

lemmas commit_inv_reachable = commits.holds

section \<open>The specification\<close>

text \<open>
  What the group is for: a partition has no worker, an idle one, or one busy with a batch, and the
  log lists the batches that were processed, with what was handed to \<open>CommitRecords\<close> for each. A worker
  that is released is idle, so a batch taken is always processed first.
\<close>

record partition_work =
  pw_worker :: "TopicPartition \<Rightarrow> kgo_record list option option"
  pw_log :: "(TopicPartition \<times> kgo_record list \<times> kgo_record option list \<times> effect list) list"

inductive work_step :: "handlers \<Rightarrow> partition_work \<Rightarrow> partition_work \<Rightarrow> bool" for hs where
  idle: "work_step hs w w"
| acquire: "pw_worker w tp = None \<Longrightarrow> work_step hs w (w\<lparr>pw_worker := (pw_worker w)(tp \<mapsto> None)\<rparr>)"
| take: "pw_worker w tp = Some None \<Longrightarrow> work_step hs w (w\<lparr>pw_worker := (pw_worker w)(tp \<mapsto> Some b)\<rparr>)"
| finish: "pw_worker w tp = Some (Some b) \<Longrightarrow> (process, commit) \<in> hs \<Longrightarrow>
    processRecordsAndCommit \<lparr>pc_topic = tp_topic tp, pc_partition = tp_partition tp\<rparr> process commit b =
      Inr (handed, log) \<Longrightarrow>
    work_step hs w (w\<lparr>pw_worker := (pw_worker w)(tp \<mapsto> None), pw_log := pw_log w @ [(tp, b, handed, log)]\<rparr>)"
| release: "pw_worker w tp = Some None \<Longrightarrow> work_step hs w (w\<lparr>pw_worker := (pw_worker w)(tp := None)\<rparr>)"

text \<open>The work that a state of the group stands for.\<close>

definition busy :: "consume_point \<Rightarrow> kgo_record list option" where
  "busy p = (case p of Working b \<Rightarrow> Some b | _ \<Rightarrow> None)"

definition live_of :: "ConsumerGroup \<Rightarrow> TopicPartition \<Rightarrow> nat list" where
  "live_of cg tp =
     filter (\<lambda>i. point cg i \<noteq> Returned \<and> consumer_tp (cg_heap cg ! i) = tp) [0..<length (cg_heap cg)]"

definition worker :: "ConsumerGroup \<Rightarrow> TopicPartition \<Rightarrow> kgo_record list option option" where
  "worker cg tp =
     (case live_of cg tp of
        [] \<Rightarrow> None
      | i # _ \<Rightarrow> Some (busy (point cg i)))"

definition work_of :: "ConsumerGroup \<Rightarrow> partition_work" where
  "work_of cg =
     \<lparr>pw_worker = worker cg,
      pw_log = map (\<lambda>(i, b, h). (consumer_tp (cg_heap cg ! i), b, h)) (cg_commits cg)\<rparr>"

lemma pw_worker_work [simp]: "pw_worker (work_of cg) = worker cg"
  by (simp add: work_of_def)

lemma busy_simps [simp]: "busy Selecting = None" "busy Returned = None" "busy (Working b) = Some b"
  by (simp_all add: busy_def)

lemma worker_None:
  assumes "\<forall>i < length (cg_heap cg). consumer_tp (cg_heap cg ! i) = tp \<longrightarrow> point cg i = Returned"
  shows "worker cg tp = None"
proof -
  have "live_of cg tp = []" using assms by (auto simp: live_of_def filter_empty_conv)
  then show ?thesis by (simp add: worker_def)
qed

lemma worker_cong:
  assumes "live_of cg' tp = live_of cg tp" and "\<forall>i \<in> set (live_of cg tp). point cg' i = point cg i"
  shows "worker cg' tp = worker cg tp"
  using assms by (cases "live_of cg tp") (simp_all add: worker_def)

lemma worker_Some:
  assumes "cg_inv cg" and "i < length (cg_heap cg)" and "point cg i \<noteq> Returned"
    and "consumer_tp (cg_heap cg ! i) = tp"
  shows "worker cg tp = Some (busy (point cg i))"
proof -
  have "i \<in> set (live_of cg tp)" using assms(2-4) by (simp add: live_of_def)
  then obtain j l where l: "live_of cg tp = j # l" by (cases "live_of cg tp") auto
  then have "j \<in> set (live_of cg tp)" by simp
  then have "j = i" using live_unique [OF assms(1), of j i] assms(2-4) by (simp add: live_of_def)
  then show ?thesis by (simp add: worker_def l)
qed

lemma worker_same:
  assumes "length (cg_heap cg') = length (cg_heap cg)" and "\<And>i. point cg' i = point cg i"
    and "\<And>i. consumer_tp (cg_heap cg' ! i) = consumer_tp (cg_heap cg ! i)"
  shows "worker cg' = worker cg"
  by (rule ext, rule worker_cong) (simp_all add: live_of_def assms)

lemma worker_set_point:
  assumes "cg_inv cg" and "cg_inv (set_point i p cg)" and "i < length (cg_heap cg)" and "point cg i \<noteq> Returned"
    and "consumer_tp (cg_heap cg ! i) = tp"
  shows "worker (set_point i p cg) = (worker cg)(tp := if p = Returned then None else Some (busy p))"
proof (rule ext)
  fix tp'
  let ?cg = "set_point i p cg"
  show "worker ?cg tp' = ((worker cg)(tp := if p = Returned then None else Some (busy p))) tp'"
  proof (cases "tp' = tp")
    case True
    have "worker ?cg tp = None" if "p = Returned"
    proof (rule worker_None, intro allI impI)
      fix j assume j: "j < length (cg_heap ?cg)" "consumer_tp (cg_heap ?cg ! j) = tp"
      then show "point ?cg j = Returned"
        using live_unique [OF assms(1,3,4), of j] that assms(3,5)
        by (cases "point cg j = Returned") (simp_all add: point_set_point consumer_tp_set_point)
    qed
    moreover have "worker ?cg tp = Some (busy p)" if "p \<noteq> Returned"
      using worker_Some [OF assms(2), of i] that assms(3,5) by (simp add: point_set_point consumer_tp_set_point)
    ultimately show ?thesis using True by simp
  next
    case False
    then have "worker ?cg tp' = worker cg tp'"
      using assms(3,5)
      by (intro worker_cong) (auto simp: live_of_def point_set_point consumer_tp_set_point intro!: filter_cong)
    then show ?thesis using False by simp
  qed
qed

lemma worker_assign:
  assumes "cg_inv cg" and "cg_callback cg = Assigning (tp # tps)" and "cg_inv (assign_one tp cg\<lparr>cg_callback := c\<rparr>)"
  shows "worker cg tp = None" and "worker (assign_one tp cg) = (worker cg)(tp \<mapsto> None)"
proof -
  show none: "worker cg tp = None"
  proof (rule worker_None, intro allI impI, rule ccontr)
    fix i assume i: "i < length (cg_heap cg)" "consumer_tp (cg_heap cg ! i) = tp" "point cg i \<noteq> Returned"
    then have "(tp, i) \<in> set (cg_consumers cg)" using assms(1,2) by (auto simp: cg_inv_def live_inv_def)
    then show False using assign_fresh [of cg tp tps] assms(1,2) by (force simp: cg_inv_def keys_def)
  qed
  have eq: "worker (assign_one tp cg\<lparr>cg_callback := c\<rparr>) = worker (assign_one tp cg)"
    by (rule worker_same) simp_all
  show "worker (assign_one tp cg) = (worker cg)(tp \<mapsto> None)"
  proof (rule ext)
    fix tp'
    show "worker (assign_one tp cg) tp' = ((worker cg)(tp \<mapsto> None)) tp'"
    proof (cases "tp' = tp")
      case True
      then show ?thesis
        using worker_Some [OF assms(3), of "length (cg_heap cg)" tp] eq by (simp add: point_assign consumer_tp_assign)
    next
      case False
      then have "worker (assign_one tp cg) tp' = worker cg tp'"
        by (intro worker_cong) (auto simp: live_of_def point_assign consumer_tp_assign intro!: filter_cong)
      then show ?thesis using False by simp
    qed
  qed
qed

text \<open>Commits name consumers that exist, which keep their partitions.\<close>

lemma committed_id: "order_inv cg \<Longrightarrow> (i, b, h) \<in> set (cg_commits cg) \<Longrightarrow> i < length (cg_heap cg)"
  by (rule ccontr) (force simp: order_inv_def committed_by_def filter_empty_conv not_less)

lemma committed_delivered:
  assumes "reachable hs cg" and "(ident, b, h, e) \<in> set (cg_commits cg)"
  shows "b \<in> set (delivered_to ident cg)"
proof -
  have order: "order_inv cg" by (rule order_inv_reachable [OF assms(1)])
  have "b \<in> set (committed_by ident cg)" using assms(2) by (force simp: committed_by_def)
  then show ?thesis using order committed_id [OF order assms(2)] by (simp add: order_inv_def)
qed

lemma log_same:
  assumes "order_inv cg" and "cg_commits cg' = cg_commits cg"
    and "\<And>i. i < length (cg_heap cg) \<Longrightarrow> consumer_tp (cg_heap cg' ! i) = consumer_tp (cg_heap cg ! i)"
  shows "pw_log (work_of cg') = pw_log (work_of cg)"
  using assms committed_id [OF assms(1)] by (auto simp: work_of_def)

lemma work_same:
  assumes "cg_heap cg' = cg_heap cg" and "cg_commits cg' = cg_commits cg"
  shows "work_of cg' = work_of cg"
proof -
  have "worker cg' = worker cg" using assms by (intro worker_same) (simp_all add: point_def)
  then show ?thesis using assms by (simp add: work_of_def)
qed

lemma work_idle:
  "cg_heap cg' = cg_heap cg \<Longrightarrow> cg_commits cg' = cg_commits cg \<Longrightarrow> work_step hs (work_of cg) (work_of cg')"
  using work_same [of cg' cg] work_step.idle [of hs "work_of cg"] by simp

lemma truncate_consumer:
  "PartitionConsumer.truncate pc =
     \<lparr>pc_topic = tp_topic (consumer_tp pc), pc_partition = tp_partition (consumer_tp pc)\<rparr>"
  by (simp add: PartitionConsumer.truncate_def consumer_tp_def)

lemma work_set_point:
  assumes "cg_inv cg" and "cg_inv (set_point i p cg)" and "i < length (cg_heap cg)" and "point cg i \<noteq> Returned"
  shows "work_of (set_point i p cg) = work_of cg\<lparr>pw_worker := (worker cg)
    (consumer_tp (cg_heap cg ! i) := if p = Returned then None else Some (busy p))\<rparr>"
  using worker_set_point [OF assms refl] by (simp add: work_of_def consumer_tp_set_point)

lemma cg_inv_set_point:
  assumes "cg_inv cg" and "i < length (cg_heap cg)" and "p = Returned \<or> point cg i \<noteq> Returned"
  shows "cg_inv (set_point i p cg)"
  using assms
  by (simp add: cg_inv_def map_inv_set_point quit_inv_set_point live_inv_set_point phase_inv_def)

lemma simulation:
  assumes "cg_inv cg" and "order_inv cg" and "move hs cg cg'"
  shows "work_step hs (work_of cg) (work_of cg')"
  using assms(3)
proof (cases rule: move.cases)
  case (assigned_one tp tps)
  have inv': "cg_inv cg'" by (rule cg_inv_move [OF assms(3,1)])
  have "worker cg tp = None" and w: "worker (assign_one tp cg) = (worker cg)(tp \<mapsto> None)"
    using worker_assign [OF assms(1)] assigned_one inv' by blast+
  moreover have "worker cg' = worker (assign_one tp cg)"
    unfolding assigned_one(1) by (rule worker_same) simp_all
  moreover have "pw_log (work_of cg') = pw_log (work_of cg)"
    by (rule log_same [OF assms(2)]) (simp_all add: assigned_one(1) consumer_tp_assign)
  ultimately have "work_of cg' = work_of cg\<lparr>pw_worker := (pw_worker (work_of cg))(tp \<mapsto> None)\<rparr>"
    by (simp add: work_of_def)
  then show ?thesis using \<open>worker cg tp = None\<close> work_step.acquire [of "work_of cg" tp hs] by (simp add: work_of_def)
next
  case (lost_one tp tps idents cg'' ident)
  note same = lose_same [OF lost_one(3)]
  have "worker cg' = worker cg" by (rule worker_same) (use same in \<open>simp_all add: lost_one(1)\<close>)
  moreover have "pw_log (work_of cg') = pw_log (work_of cg)"
    by (rule log_same [OF assms(2)]) (use same in \<open>simp_all add: lost_one(1) same_control_def\<close>)
  ultimately show ?thesis using work_step.idle [of hs "work_of cg"] by (simp add: work_of_def)
next
  case (shutdown_one idents waits ident cg'')
  note same = shut_same [OF shutdown_one(4)]
  have "worker cg' = worker cg" by (rule worker_same) (use same in \<open>simp_all add: shutdown_one(1)\<close>)
  moreover have "pw_log (work_of cg') = pw_log (work_of cg)"
    by (rule log_same [OF assms(2)]) (use same in \<open>simp_all add: shutdown_one(1) same_control_def\<close>)
  ultimately show ?thesis using work_step.idle [of hs "work_of cg"] by (simp add: work_of_def)
next
  case (send tp records fs ident)
  have i: "ident < length (cg_heap cg)" "consumer_tp (cg_heap cg ! ident) = tp"
    using map_of_id [of cg tp ident] assms(1) send by (simp_all add: cg_inv_def)
  have "worker cg tp = Some None" using worker_Some [OF assms(1) i(1) _ i(2)] send by simp
  moreover have "work_of cg' = work_of (set_point ident (Working records) cg)" by (rule work_same) (simp_all add: send(1))
  moreover have "cg_inv (set_point ident (Working records) cg)"
    using cg_inv_set_point [OF assms(1) i(1)] send by simp
  ultimately have "work_of cg' = work_of cg\<lparr>pw_worker := (worker cg)(tp \<mapsto> Some records)\<rparr>"
    using work_set_point [OF assms(1) _ i(1)] send i(2) by simp
  then show ?thesis
    using work_step.take [of "work_of cg" tp hs records] \<open>worker cg tp = Some None\<close> by simp
next
  case (consume_quit ident)
  let ?tp = "consumer_tp (cg_heap cg ! ident)"
  have idle: "worker cg ?tp = Some None"
    using worker_Some [OF assms(1) consume_quit(2) _ refl] consume_quit(3) by simp
  have "cg_inv (set_point ident Returned cg)" using cg_inv_set_point [OF assms(1)] consume_quit by simp
  then have "work_of cg' = work_of cg\<lparr>pw_worker := (worker cg)(?tp := None)\<rparr>"
    using work_set_point [OF assms(1) _ consume_quit(2)] consume_quit by simp
  then show ?thesis using work_step.release [of "work_of cg" ?tp hs] idle by simp
next
  case (consume_work ident records process commit handed log)
  let ?tp = "consumer_tp (cg_heap cg ! ident)"
  have w: "worker cg ?tp = Some (Some records)"
    using worker_Some [OF assms(1) consume_work(2) _ refl] consume_work(3) by simp
  have inv: "cg_inv (set_point ident Selecting cg)" using cg_inv_set_point [OF assms(1)] consume_work by simp
  have "worker cg' = worker (set_point ident Selecting cg)"
    unfolding consume_work(1) by (rule worker_same) simp_all
  then have "worker cg' = (worker cg)(?tp \<mapsto> None)"
    using worker_set_point [OF assms(1) inv consume_work(2) _ refl] consume_work(3) by simp
  then have eq: "work_of cg' = work_of cg\<lparr>pw_worker := (pw_worker (work_of cg))(?tp \<mapsto> None),
      pw_log := pw_log (work_of cg) @ [(?tp, records, handed, log)]\<rparr>"
    unfolding consume_work(1) by (simp add: work_of_def consumer_tp_set_point)
  have pr: "processRecordsAndCommit \<lparr>pc_topic = tp_topic ?tp, pc_partition = tp_partition ?tp\<rparr> process commit records =
      Inr (handed, log)"
    using consume_work(5) unfolding truncate_consumer .
  have "pw_worker (work_of cg) ?tp = Some (Some records)" using w by simp
  from work_step.finish [OF this consume_work(4) pr] show ?thesis unfolding eq .
qed (auto intro!: work_idle)

section \<open>Sample data\<close>

text \<open>One partition is assigned and a batch of one record sent to its consumer.\<close>

definition sample_tp :: TopicPartition where
  "sample_tp = \<lparr>tp_topic = ''raw'', tp_partition = 0\<rparr>"

definition sample_kgo :: kgo_record where
  "sample_kgo = sample_record sample_bytes 4"

definition sample_handlers :: handlers where
  "sample_handlers = {(\<lambda>records. Inr (records, []), \<lambda>handed. Inr None)}"

definition sample_group :: "consume_point \<Rightarrow> ConsumerGroup" where
  "sample_group p = NewConsumerGroup
     \<lparr>cg_consumers := [(sample_tp, 0)], cg_heap := [(new_consumer sample_tp)\<lparr>pc_point := p\<rparr>], cg_owned := {sample_tp}\<rparr>"

lemma sample_assigned: "reachable hs (sample_group Selecting)"
proof -
  let ?s = "NewConsumerGroup\<lparr>cg_callback := Assigning [sample_tp], cg_owned := {sample_tp}\<rparr>"
  have "reachable hs ?s"
    by (rule reach_move [OF runs.stay])
      (use assigned_start [of NewConsumerGroup "[sample_tp]" hs] in \<open>simp_all add: NewConsumerGroup_def\<close>)
  then have "reachable hs (assign_one sample_tp ?s\<lparr>cg_callback := Assigning []\<rparr>)"
    by (rule reach_move) (use assigned_one [of ?s sample_tp "[]" hs] in \<open>simp_all add: NewConsumerGroup_def\<close>)
  then have "reachable hs (assign_one sample_tp ?s\<lparr>cg_callback := NoCallback\<rparr>)"
    by (rule reach_move)
      (use assigned_end [of "assign_one sample_tp ?s\<lparr>cg_callback := Assigning []\<rparr>" hs] in
        \<open>simp_all add: NewConsumerGroup_def\<close>)
  then show ?thesis by (simp add: sample_group_def assign_one_def NewConsumerGroup_def new_consumer_def)
qed

definition sample_fetched :: ConsumerGroup where
  "sample_fetched = (sample_group Selecting)\<lparr>cg_poller := Fetched [(sample_tp, [sample_kgo])], cg_blocked := True\<rparr>"

lemma sample_group_fields [simp]:
  "cg_ctx_done (sample_group p) = False" "cg_callback (sample_group p) = NoCallback"
  "cg_poller (sample_group p) = Polling" "cg_main (sample_group p) = Waiting" "cg_blocked (sample_group p) = False"
  "cg_owned (sample_group p) = {sample_tp}" "cg_delivered (sample_group p) = []" "cg_commits (sample_group p) = []"
  "cg_panic (sample_group p) = None" "cg_consumers (sample_group p) = [(sample_tp, 0)]"
  "length (cg_heap (sample_group p)) = 1" "point (sample_group p) 0 = p"
  "consumer_tp (cg_heap (sample_group p) ! 0) = sample_tp" "set_point 0 q (sample_group p) = sample_group q"
  by (simp_all add: sample_group_def NewConsumerGroup_def point_def set_point_def new_consumer_def consumer_tp_def)

lemma sample_fetch_reachable: "reachable hs sample_fetched"
  unfolding sample_fetched_def
  by (rule reach_move [OF sample_assigned]) (simp_all add: poll_fetch)

definition sample_working :: ConsumerGroup where
  "sample_working = (sample_group (Working [sample_kgo]))
     \<lparr>cg_poller := Sending [], cg_blocked := True, cg_delivered := [(0, [sample_kgo])]\<rparr>"

lemma sample_working_reachable: "reachable hs sample_working"
proof -
  let ?s = "sample_fetched\<lparr>cg_poller := Sending [(sample_tp, [sample_kgo])]\<rparr>"
  have s: "reachable hs ?s"
    by (rule reach_move [OF sample_fetch_reachable])
      (use poll_each [of sample_fetched "[(sample_tp, [sample_kgo])]" hs] in \<open>simp_all add: sample_fetched_def\<close>)
  have "move hs ?s (set_point 0 (Working [sample_kgo]) ?s
      \<lparr>cg_poller := Sending [], cg_delivered := cg_delivered ?s @ [(0, [sample_kgo])]\<rparr>)"
    by (rule send) (simp_all add: sample_fetched_def)
  moreover have "set_point 0 (Working [sample_kgo]) ?s
      \<lparr>cg_poller := Sending [], cg_delivered := cg_delivered ?s @ [(0, [sample_kgo])]\<rparr> = sample_working"
    by (simp add: sample_working_def sample_fetched_def sample_group_def set_point_def NewConsumerGroup_def)
  ultimately show ?thesis using reach_move [OF s] by (simp add: sample_fetched_def)
qed

section \<open>Properties\<close>

text \<open>
  C3: a partition never has two live consumers: consumers of the same partition that have both not
  returned are the same one. And a live consumer's partition is still the group's: the client has
  it assigned, or a callback \<open>lost\<close> for it has not returned.
\<close>

theorem exclusive_consumer:
  assumes "reachable hs cg" and "i < length (cg_heap cg)" and "point cg i \<noteq> Returned"
  shows "held cg (consumer_tp (cg_heap cg ! i)) \<and>
    (\<forall>j < length (cg_heap cg). consumer_tp (cg_heap cg ! j) = consumer_tp (cg_heap cg ! i) \<longrightarrow>
       point cg j \<noteq> Returned \<longrightarrow> j = i)"
  using live_held [OF cg_inv_reachable [OF assms(1)] assms(2,3)]
    live_unique [OF cg_inv_reachable [OF assms(1)] assms(2,3)] by metis

theorem exclusive_consumer_witness: "held sample_working sample_tp"
  using exclusive_consumer [OF sample_working_reachable, of 0] by (simp add: sample_working_def)

text \<open>
  C10: the channels never bring the process down: in every reachable state, whatever callback or
  shutdown goroutine is due next finds its consumer and closes its \<open>quit\<close> channel without a panic,
  although a lost partition may be closed by the callback and by the shutdown as well.
\<close>

theorem no_channel_panic:
  assumes "reachable hs cg"
  shows "(\<forall>tp tps idents. cg_callback cg = Losing (tp # tps) idents \<longrightarrow>
        (\<exists>cg' ident. lose_one tp cg = Inr (cg', ident))) \<and>
    (\<forall>idents waits. cg_main cg = Shutting idents waits \<longrightarrow>
        (\<forall>ident \<in> set idents. \<exists>cg'. shut_one ident cg = Inr cg'))"
  using lose_ok [OF cg_inv_reachable [OF assms]] shut_ok [OF cg_inv_reachable [OF assms]] by blast

theorem no_channel_panic_witness:
  "reachable sample_handlers (sample_group Selecting\<lparr>cg_callback := Losing [sample_tp] [], cg_owned := {}\<rparr>) \<and>
   (\<exists>cg' ident. lose_one sample_tp (sample_group Selecting\<lparr>cg_callback := Losing [sample_tp] [], cg_owned := {}\<rparr>) =
      Inr (cg', ident))"
proof -
  let ?s = "sample_group Selecting\<lparr>cg_callback := Losing [sample_tp] [], cg_owned := {}\<rparr>"
  have "reachable sample_handlers ?s"
    by (rule reach_move [OF sample_assigned])
      (use lost_start [of "sample_group Selecting" "[sample_tp]" sample_handlers] in simp_all)
  with no_channel_panic [OF this] show ?thesis by simp
qed

text \<open>
  C4: no batch is lost, repeated or overtaken between the poll loop and the commits: what a
  consumer has been sent is, in this order, what it has processed and handed to \<open>CommitRecords\<close> and
  then the batch it is working on, if any. So a consumer returns with nothing left to do.
\<close>

theorem batches_in_order:
  assumes "reachable hs cg" and "i < length (cg_heap cg)"
  shows "delivered_to i cg = committed_by i cg @ pending (point cg i)"
  using order_inv_reachable [OF assms(1)] assms(2) by (simp add: order_inv_def)

theorem batches_in_order_witness: "delivered_to 0 sample_working = [[sample_kgo]]"
  using batches_in_order [OF sample_working_reachable, of 0]
  by (simp add: sample_working_def committed_by_def)

text \<open>
  C2: the goroutines implement the specification: every step of the poll loop, the callbacks, the
  consumers and the shutdown, in any interleaving, is a step of the partitions' work or leaves it
  alone. A worker takes one batch at a time, processes and commits it with the handlers of its
  partition, and is released only when it is idle.
\<close>

theorem group_refines_work:
  assumes "reachable hs cg" and "cg_step hs cg cg'"
  shows "work_step hs (work_of cg) (work_of cg')"
  using simulation [OF cg_inv_reachable [OF assms(1)] order_inv_reachable [OF assms(1)]] assms(2)
  by (simp add: cg_step_def)

theorem group_refines_work_witness:
  "\<exists>cg'. work_step sample_handlers (work_of sample_working) (work_of cg') \<and> worker sample_working sample_tp = Some (Some [sample_kgo])
     \<and> worker cg' sample_tp = Some None"
proof -
  let ?c = "set_point 0 Selecting sample_working\<lparr>cg_commits := cg_commits sample_working @ [(0, [sample_kgo], [Some sample_kgo], [])]\<rparr>"
  have "move sample_handlers sample_working ?c"
    by (rule consume_work [where process = "\<lambda>records. Inr (records, [])" and commit = "\<lambda>handed. Inr None" and log = "[]"])
      (simp_all add: sample_working_def sample_handlers_def processRecordsAndCommit_def commitable_def)
  then have "cg_step sample_handlers sample_working ?c" by (simp add: cg_step_def sample_working_def)
  from group_refines_work [OF sample_working_reachable this] show ?thesis
    by (intro exI [of _ ?c])
      (simp add: worker_def live_of_def sample_working_def sample_group_def point_def set_point_def
        new_consumer_def consumer_tp_def NewConsumerGroup_def)
qed

end
