(* ===== verification/Group_Shutdown.thy ===== *)
theory Group_Shutdown
  imports Group_Safety
begin

text \<open>
  How the consumer group of \<open>config/kafka/consumer.go\<close> ends: when the shutdown can be completed, when
  it hangs, what is true after it, and which goroutines may meet in the map of consumers.
\<close>

section \<open>A shutdown that can be completed\<close>

text \<open>Every batch can be processed and committed without a panic.\<close>

definition answering :: "handlers \<Rightarrow> bool" where
  "answering hs \<longleftrightarrow> (\<forall>pc records. \<exists>(process, commit) \<in> hs. \<exists>r. processRecordsAndCommit pc process commit records = Inr r)"

text \<open>
  The poll loop does not hold the group: it has not returned with a poll that was not followed by
  \<open>AllowRebalance\<close>, nor is it about to (it drops the fetches when the context is cancelled).
\<close>

definition poll_free :: "ConsumerGroup \<Rightarrow> bool" where
  "poll_free cg \<longleftrightarrow> (cg_blocked cg \<longrightarrow> (case cg_poller cg of Sending fs \<Rightarrow> True | _ \<Rightarrow> False))"

definition ending :: "ConsumerGroup \<Rightarrow> bool" where
  "ending cg \<longleftrightarrow> cg_inv cg \<and> cg_panic cg = None \<and> cg_ctx_done cg \<and> poll_free cg"

subsection \<open>What gets smaller\<close>

definition stage :: "ConsumerGroup \<Rightarrow> nat" where
  "stage cg = (case cg_main cg of Waiting \<Rightarrow> 3 | Shutting is ws \<Rightarrow> 2 | Closing \<Rightarrow> 1 | Closed \<Rightarrow> 0)"

definition to_shut :: "ConsumerGroup \<Rightarrow> nat" where
  "to_shut cg = (case cg_main cg of Shutting is ws \<Rightarrow> length is | _ \<Rightarrow> 0)"

definition to_remove :: "ConsumerGroup \<Rightarrow> nat" where
  "to_remove cg = length (cg_consumers cg) + length (to_assign (cg_callback cg))"

definition to_give_up :: "ConsumerGroup \<Rightarrow> nat" where
  "to_give_up cg = (if cg_owned cg = {} then 0 else 1)"

definition calling :: "ConsumerGroup \<Rightarrow> nat" where
  "calling cg = (if cg_callback cg = NoCallback then 0 else 1)"

fun weight :: "consume_point \<Rightarrow> nat" where
  "weight Returned = 0"
| "weight Selecting = 1"
| "weight (Working b) = 2"

definition working :: "ConsumerGroup \<Rightarrow> nat" where
  "working cg = (\<Sum>i < length (cg_heap cg). weight (point cg i))"

definition to_send :: "ConsumerGroup \<Rightarrow> nat" where
  "to_send cg = (case cg_poller cg of Sending fs \<Rightarrow> Suc (length fs) | _ \<Rightarrow> 0)"

definition shutdown_order :: "(ConsumerGroup \<times> ConsumerGroup) set" where
  "shutdown_order = measures [stage, to_shut, to_remove, \<lambda>cg. length (to_assign (cg_callback cg)), to_give_up,
     calling, working, to_send]"

lemma wf_shutdown_order: "wf shutdown_order"
  by (simp add: shutdown_order_def)

lemmas shutdown_measures =
  shutdown_order_def stage_def to_shut_def to_remove_def to_give_up_def calling_def to_send_def

lemma working_set_point:
  assumes "i < length (cg_heap cg)" and "weight p < weight (point cg i)"
  shows "working (set_point i p cg) < working cg"
  unfolding working_def set_point_fields
  by (rule sum_strict_mono_ex1) (use assms in \<open>auto simp: point_set_point\<close>)

subsection \<open>There is always a step\<close>

lemma ending_step:
  "ending cg \<Longrightarrow> move hs cg cg' \<Longrightarrow> cg_panic cg' = None \<Longrightarrow> cg_ctx_done cg' \<Longrightarrow> poll_free cg' \<Longrightarrow>
   (cg', cg) \<in> shutdown_order \<Longrightarrow> \<exists>cg'. cg_step hs cg cg' \<and> ending cg' \<and> (cg', cg) \<in> shutdown_order"
  unfolding ending_def cg_step_def using cg_inv_move by blast

lemma poll_free_same:
  "cg_blocked cg' = cg_blocked cg \<Longrightarrow> cg_poller cg' = cg_poller cg \<Longrightarrow> poll_free cg' = poll_free cg"
  by (simp add: poll_free_def)

lemma step_assigning:
  assumes "ending cg" and "cg_callback cg = Assigning tps"
  shows "\<exists>cg'. cg_step hs cg cg' \<and> ending cg' \<and> (cg', cg) \<in> shutdown_order"
proof (cases tps)
  case Nil
  then show ?thesis using assms
    by (intro ending_step [OF assms(1) assigned_end])
      (auto simp: ending_def shutdown_measures poll_free_def working_def)
next
  case (Cons tp tps')
  then have "tp \<notin> set (keys (cg_consumers cg))" using assms assign_fresh by (auto simp: ending_def cg_inv_def)
  then have "length (cg_consumers (assign_one tp cg)) = Suc (length (cg_consumers cg))"
    by (simp add: assign_one_def upsert_fresh)
  then show ?thesis using assms Cons
    by (intro ending_step [OF assms(1) assigned_one [of cg tp tps']])
      (auto simp: ending_def shutdown_measures poll_free_def)
qed

lemma step_losing:
  assumes "ending cg" and "cg_callback cg = Losing (tp # tps) idents"
  shows "\<exists>cg'. cg_step hs cg cg' \<and> ending cg' \<and> (cg', cg) \<in> shutdown_order"
proof -
  have inv: "cg_inv cg" using assms(1) by (simp add: ending_def)
  obtain cg' ident where l: "lose_one tp cg = Inr (cg', ident)" using lose_ok [OF inv assms(2)] by blast
  have s: "same_control cg cg'" using lose_same [OF l] by blast
  have c: "cg_consumers cg' = filter (\<lambda>(k, v). k \<noteq> tp) (cg_consumers cg)"
    and m: "(tp, ident) \<in> set (cg_consumers cg)"
    using lose_one_Inr [OF l] by (auto dest: map_of_SomeD)
  have "length (cg_consumers cg') < length (cg_consumers cg)"
    unfolding c by (rule length_filter_less [OF m]) simp
  then show ?thesis using assms s
    by (intro ending_step [OF assms(1) lost_one [OF assms(2) l]])
      (auto simp: ending_def shutdown_measures poll_free_def same_control_def)
qed

text \<open>A consumer that works, or whose \<open>quit\<close> is closed, can go on.\<close>

lemma step_live:
  assumes "ending cg" and "answering hs" and "i < length (cg_heap cg)" and "point cg i \<noteq> Returned"
    and "point cg i = Selecting \<Longrightarrow> pc_quit (cg_heap cg ! i)"
  shows "\<exists>cg'. cg_step hs cg cg' \<and> ending cg' \<and> (cg', cg) \<in> shutdown_order"
proof (cases "point cg i")
  case Selecting
  have "move hs cg (set_point i Returned cg)"
    using assms(3,5) Selecting by (intro consume_quit) simp_all
  moreover have "working (set_point i Returned cg) < working cg"
    by (rule working_set_point [OF assms(3)]) (simp add: Selecting)
  ultimately show ?thesis using assms(1)
    by (intro ending_step [OF assms(1)]) (auto simp: ending_def shutdown_measures poll_free_def)
next
  case (Working b)
  obtain process commit handed log where h: "(process, commit) \<in> hs"
    "processRecordsAndCommit (PartitionConsumer.truncate (cg_heap cg ! i)) process commit b = Inr (handed, log)"
    using assms(2) unfolding answering_def by fastforce
  have w: "working (set_point i Selecting cg) < working cg"
    by (rule working_set_point [OF assms(3)]) (simp add: Working)
  then have "working (set_point i Selecting cg\<lparr>cg_commits := k\<rparr>) < working cg" for k
    by (simp add: working_def)
  then show ?thesis using assms(1)
    by (intro ending_step [OF assms(1) consume_work [OF assms(3) Working h]])
      (auto simp: ending_def shutdown_measures poll_free_def)
qed (use assms(4) in simp)

lemma step_sending:
  assumes "ending cg" and "cg_poller cg = Sending fs"
  shows "\<exists>cg'. cg_step hs cg cg' \<and> ending cg' \<and> (cg', cg) \<in> shutdown_order"
proof (cases fs)
  case Nil
  then show ?thesis using assms
    by (intro ending_step [OF assms(1) poll_allow])
      (auto simp: ending_def shutdown_measures poll_free_def working_def)
next
  case (Cons p fs')
  obtain tp records where p: "p = (tp, records)" by (cases p)
  have "move hs cg (cg\<lparr>cg_poller := Sending fs'\<rparr>)"
  proof (cases "map_of (cg_consumers cg) tp")
    case None
    then show ?thesis using send_unknown [of cg tp records fs' hs] assms(2) Cons p by simp
  next
    case (Some i)
    then show ?thesis using send_cancelled [of cg tp records fs' hs] assms Cons p by (simp add: ending_def)
  qed
  then show ?thesis using assms Cons
    by (intro ending_step [OF assms(1)]) (auto simp: ending_def shutdown_measures poll_free_def working_def)
qed

text \<open>
  Whoever waits for consumers has closed their \<open>quit\<close>, so either one of them can go on or the wait
  is over.
\<close>

definition at_rest :: "ConsumerGroup \<Rightarrow> bool" where
  "at_rest cg \<longleftrightarrow> (\<forall>i < length (cg_heap cg). pc_quit (cg_heap cg ! i) \<longrightarrow> point cg i = Returned)"

lemma wait_over:
  assumes "ending cg" and "at_rest cg" and "set idents \<subseteq> set (losing (cg_callback cg)) \<union> set (waiting (cg_main cg))"
  shows "all_done cg idents"
proof -
  have "ident < length (cg_heap cg) \<and> pc_quit (cg_heap cg ! ident)" if "ident \<in> set idents" for ident
    using that assms(1,3) waiting_shutting [of "cg_main cg"] by (auto simp: ending_def cg_inv_def ids_inv_def)
  then show ?thesis using assms(2) by (auto simp: all_done_def at_rest_def)
qed

lemma step_lost_end:
  assumes "ending cg" and "cg_callback cg = Losing [] idents" and "at_rest cg"
  shows "\<exists>cg'. cg_step hs cg cg' \<and> ending cg' \<and> (cg', cg) \<in> shutdown_order"
proof -
  have "all_done cg idents" by (rule wait_over [OF assms(1,3)]) (simp add: assms(2))
  then show ?thesis using assms
    by (intro ending_step [OF assms(1) lost_end [OF assms(2)]])
      (auto simp: ending_def shutdown_measures poll_free_def working_def)
qed

lemma step_shutting:
  assumes "ending cg" and "cg_main cg = Shutting idents waits" and "at_rest cg"
  shows "\<exists>cg'. cg_step hs cg cg' \<and> ending cg' \<and> (cg', cg) \<in> shutdown_order"
proof (cases idents)
  case Nil
  have "all_done cg waits" by (rule wait_over [OF assms(1,3)]) (simp add: assms(2))
  then show ?thesis using assms Nil
    by (intro ending_step [OF assms(1) shutdown_end]) (auto simp: ending_def shutdown_measures poll_free_def)
next
  case (Cons i is')
  then have i: "i \<in> set idents" by simp
  have inv: "cg_inv cg" using assms(1) by (simp add: ending_def)
  obtain cg' where l: "shut_one i cg = Inr cg'" using shut_ok [OF inv assms(2) i] by blast
  have "same_control cg cg'" using shut_same [OF l] by blast
  moreover have "length (remove1 i idents) < length idents" using Cons by simp
  ultimately show ?thesis using assms(1,2)
    by (intro ending_step [OF assms(1) shutdown_one [OF assms(2) i l]])
      (auto simp: ending_def shutdown_measures poll_free_def same_control_def)
qed

lemma step_closing:
  assumes "ending cg" and "cg_main cg = Closing" and "cg_callback cg = NoCallback" and "\<not> cg_blocked cg"
  shows "\<exists>cg'. cg_step hs cg cg' \<and> ending cg' \<and> (cg', cg) \<in> shutdown_order"
proof (cases "cg_owned cg = {}")
  case True
  then show ?thesis using assms
    by (intro ending_step [OF assms(1) close]) (auto simp: ending_def shutdown_measures poll_free_def)
next
  case False
  let ?tps = "keys (cg_consumers cg)"
  have k: "distinct ?tps" "set ?tps = cg_owned cg"
    using assms by (auto simp: ending_def cg_inv_def map_inv_def owned_inv_def)
  then have "move hs cg (cg\<lparr>cg_callback := Losing ?tps [], cg_owned := cg_owned cg - set ?tps\<rparr>)"
    using assms by (intro lost_start) auto
  then show ?thesis using assms False k
    by (intro ending_step [OF assms(1)]) (auto simp: ending_def shutdown_measures poll_free_def)
qed

lemma shutdown_step:
  assumes "ending cg" and "answering hs" and "cg_main cg \<noteq> Closed"
  shows "\<exists>cg'. cg_step hs cg cg' \<and> ending cg' \<and> (cg', cg) \<in> shutdown_order"
proof (cases "at_rest cg")
  case False
  then show ?thesis using step_live [OF assms(1,2)] by (auto simp: at_rest_def)
next
  case rest: True
  show ?thesis
  proof (cases "cg_callback cg")
    case (Assigning tps)
    then show ?thesis using step_assigning [OF assms(1)] by blast
  next
    case (Losing tps idents)
    then show ?thesis using step_losing [OF assms(1)] step_lost_end [OF assms(1)] rest by (cases tps) blast+
  next
    case NoCallback
    show ?thesis
    proof (cases "cg_blocked cg")
      case True
      then obtain fs where "cg_poller cg = Sending fs"
        using assms(1) by (cases "cg_poller cg") (auto simp: ending_def poll_free_def)
      then show ?thesis using step_sending [OF assms(1)] by blast
    next
      case False
      show ?thesis
      proof (cases "cg_main cg")
        case Waiting
        then show ?thesis using assms(1)
          by (intro ending_step [OF assms(1) shutdown_start])
            (auto simp: ending_def shutdown_measures poll_free_def)
      next
        case Shutting
        then show ?thesis using step_shutting [OF assms(1)] rest by blast
      next
        case Closing
        then show ?thesis using step_closing [OF assms(1)] NoCallback False by blast
      qed (use assms(3) in simp)
    qed
  qed
qed

lemma runs_trans: "runs hs b c \<Longrightarrow> runs hs a b \<Longrightarrow> runs hs a c"
  by (induction rule: runs.induct) (auto intro: runs.more)

lemma shutdown_completes:
  assumes "answering hs" and "ending cg"
  shows "\<exists>cg'. runs hs cg cg' \<and> cg_main cg' = Closed \<and> cg_panic cg' = None"
  using assms(2)
proof (induction cg rule: wf_induct_rule [OF wf_shutdown_order])
  case (1 cg)
  show ?case
  proof (cases "cg_main cg = Closed")
    case True
    moreover have "cg_panic cg = None" using 1(2) by (simp add: ending_def)
    ultimately show ?thesis using runs.stay by blast
  next
    case False
    obtain cg' where s: "cg_step hs cg cg'" "ending cg'" "(cg', cg) \<in> shutdown_order"
      using shutdown_step [OF 1(2) assms(1) False] by blast
    then obtain cg'' where "runs hs cg' cg''" "cg_main cg'' = Closed" "cg_panic cg'' = None" using 1(1) by blast
    then show ?thesis using runs_trans [of hs cg' cg'' cg] runs.more [OF runs.stay s(1)] by blast
  qed
qed

section \<open>A shutdown that hangs\<close>

text \<open>The poll loop is gone, or about to go, and has not allowed rebalances.\<close>

definition stuck :: "ConsumerGroup \<Rightarrow> bool" where
  "stuck cg \<longleftrightarrow> cg_ctx_done cg \<and> cg_blocked cg \<and> cg_main cg \<noteq> Closed \<and>
     (case cg_poller cg of Fetched fs \<Rightarrow> True | Stopped \<Rightarrow> True | _ \<Rightarrow> False)"

lemma stuck_move:
  assumes "move hs cg cg'" and "stuck cg"
  shows "stuck cg'"
  using assms
proof (cases rule: move.cases)
  case (lost_one tp tps idents cg'' ident)
  then show ?thesis using lose_same(1) [of tp cg cg'' ident] assms(2) by (simp add: stuck_def same_control_def)
next
  case (shutdown_one idents waits ident cg'')
  then show ?thesis using shut_same(1) [of ident cg cg''] assms(2) by (simp add: stuck_def same_control_def)
qed (auto simp: stuck_def)

lemma stuck_runs: "runs hs cg cg' \<Longrightarrow> stuck cg \<Longrightarrow> stuck cg'"
  by (induction rule: runs.induct) (auto simp: cg_step_def intro: stuck_move)

lemma stuck_or_free:
  "cg_inv cg \<Longrightarrow> cg_ctx_done cg \<Longrightarrow> poll_free cg \<or> stuck cg"
  by (cases "cg_poller cg") (auto simp: poll_free_def stuck_def cg_inv_def phase_inv_def)

lemma heap_grows_move: "move hs cg cg' \<Longrightarrow> length (cg_heap cg) \<le> length (cg_heap cg')"
proof (cases rule: move.cases, assumption)
  fix tp tps idents cg'' ident assume "lose_one tp cg = Inr (cg'', ident)"
    and "cg' = cg''\<lparr>cg_callback := Losing tps (ident # idents)\<rparr>"
  then show ?thesis using lose_same(3) [of tp cg cg'' ident] by simp
next
  fix idents waits ident cg'' assume "shut_one ident cg = Inr cg''"
    and "cg' = cg''\<lparr>cg_main := Shutting (remove1 ident idents) (ident # waits)\<rparr>"
  then show ?thesis using shut_same(3) [of ident cg cg''] by simp
qed auto

lemma heap_grows: "runs hs cg cg' \<Longrightarrow> length (cg_heap cg) \<le> length (cg_heap cg')"
  by (induction rule: runs.induct) (auto simp: cg_step_def dest: heap_grows_move)

section \<open>Properties\<close>

lemma sample_answering: "answering sample_handlers"
  by (simp add: answering_def sample_handlers_def processRecordsAndCommit_def Let_def)

text \<open>
  C5: once the context is cancelled, the shutdown can be completed from every state that the group
  can reach, in whatever goroutine work is left, exactly when the poll loop has not left (or is about
  to leave) with fetches for which it never allows rebalances again. In that case no
  continuation ever closes the client: \<open>Start\<close> does not return.
\<close>

theorem shutdown_completes_iff:
  assumes "reachable hs cg" and "cg_panic cg = None" and "cg_ctx_done cg" and "answering hs"
  shows "(\<exists>cg'. runs hs cg cg' \<and> cg_main cg' = Closed) \<longleftrightarrow> \<not> stuck cg"
proof
  assume "\<exists>cg'. runs hs cg cg' \<and> cg_main cg' = Closed"
  then show "\<not> stuck cg" using stuck_runs by (auto simp: stuck_def)
next
  assume "\<not> stuck cg"
  then have "ending cg"
    using stuck_or_free [OF cg_inv_reachable [OF assms(1)] assms(3)] cg_inv_reachable [OF assms(1)] assms(2,3)
    by (simp add: ending_def)
  then show "\<exists>cg'. runs hs cg cg' \<and> cg_main cg' = Closed" using shutdown_completes [OF assms(4)] by blast
qed

theorem shutdown_completes_iff_witness:
  "\<exists>cg'. runs sample_handlers (sample_working\<lparr>cg_ctx_done := True\<rparr>) cg' \<and> cg_main cg' = Closed"
proof -
  let ?s = "sample_working\<lparr>cg_ctx_done := True\<rparr>"
  have "reachable sample_handlers ?s"
    by (rule reach_move [OF sample_working_reachable])
      (use cancel [of sample_working sample_handlers] in \<open>simp_all add: sample_working_def\<close>)
  from shutdown_completes_iff [OF this _ _ sample_answering] show ?thesis
    by (simp add: sample_working_def stuck_def)
qed

text \<open>
  A cancellation that arrives between a poll and the iteration over its fetches hangs the
  shutdown: \<open>pollRecords\<close> returns without \<open>AllowRebalance\<close>, and the \<open>Close\<close> of the client waits for
  it, whatever the other goroutines do.
\<close>

theorem cancelled_poll_hangs:
  "\<exists>cg. reachable hs cg \<and> cg_panic cg = None \<and> cg_poller cg = Stopped \<and>
     \<not> (\<exists>cg'. runs hs cg cg' \<and> cg_main cg' = Closed)"
proof -
  let ?c = "sample_fetched\<lparr>cg_ctx_done := True\<rparr>" and ?s = "sample_fetched\<lparr>cg_ctx_done := True, cg_poller := Stopped\<rparr>"
  have "reachable hs ?c"
    by (rule reach_move [OF sample_fetch_reachable])
      (use cancel [of sample_fetched hs] in \<open>simp_all add: sample_fetched_def\<close>)
  then have "reachable hs ?s"
    by (rule reach_move)
      (use poll_cancelled [of ?c "[(sample_tp, [sample_kgo])]" hs] in \<open>simp_all add: sample_fetched_def\<close>)
  moreover have "stuck ?s" by (simp add: stuck_def sample_fetched_def)
  then have "\<not> (\<exists>cg'. runs hs ?s cg' \<and> cg_main cg' = Closed)" using stuck_runs by (auto simp: stuck_def)
  ultimately show ?thesis by (intro exI [of _ ?s]) (simp add: sample_fetched_def)
qed

lemma closed_empty:
  assumes "reachable hs cg" and "cg_main cg = Closed"
  shows "cg_consumers cg = []"
proof -
  have inv: "cg_inv cg" by (rule cg_inv_reachable [OF assms(1)])
  then have "cg_callback cg = NoCallback" "cg_owned cg = {}" using assms(2) by (auto simp: cg_inv_def phase_inv_def)
  then show ?thesis using inv by (simp add: cg_inv_def owned_inv_def keys_def)
qed

text \<open>
  When the client is closed nothing is left behind: the map of consumers is empty, every
  consumer has returned, and every batch that was sent to one was processed and committed.
\<close>

theorem closed_leaves_nothing:
  assumes "reachable hs cg" and "cg_main cg = Closed" and "i < length (cg_heap cg)"
  shows "cg_consumers cg = [] \<and> point cg i = Returned \<and> delivered_to i cg = committed_by i cg"
proof -
  have inv: "cg_inv cg" by (rule cg_inv_reachable [OF assms(1)])
  have empty: "cg_consumers cg = []" by (rule closed_empty [OF assms(1,2)])
  moreover have "cg_callback cg = NoCallback" using inv assms(2) by (auto simp: cg_inv_def phase_inv_def)
  ultimately have "point cg i = Returned" using inv assms(3) by (auto simp: cg_inv_def live_inv_def)
  then show ?thesis using empty order_inv_reachable [OF assms(1)] assms(3) by (simp add: order_inv_def)
qed

theorem closed_leaves_nothing_witness:
  "\<exists>cg. reachable sample_handlers cg \<and> cg_main cg = Closed \<and> length (cg_heap cg) > 0 \<and> point cg 0 = Returned"
proof -
  let ?s = "sample_group Selecting\<lparr>cg_ctx_done := True\<rparr>"
  have s: "reachable sample_handlers ?s"
    by (rule reach_move [OF sample_assigned]) (use cancel [of "sample_group Selecting" sample_handlers] in simp_all)
  then have "ending ?s" using cg_inv_reachable by (simp add: ending_def poll_free_def)
  then obtain cg where r: "runs sample_handlers ?s cg" and c: "cg_main cg = Closed"
    using shutdown_completes [OF sample_answering] by blast
  have reach: "reachable sample_handlers cg" by (rule runs_trans [OF r s])
  have "length (cg_heap cg) > 0" using heap_grows [OF r] by (cases "cg_heap cg") simp_all
  with closed_leaves_nothing [OF reach c] reach c show ?thesis by blast
qed

text \<open>
  The poll loop never meets a callback in the map of consumers: while it reads the map to send
  fetches to the consumers, no \<open>assigned\<close> or \<open>lost\<close> is running.
\<close>

theorem polling_excludes_callbacks:
  assumes "reachable hs cg" and "cg_poller cg = Sending fs"
  shows "cg_callback cg = NoCallback"
  using cg_inv_reachable [OF assms(1)] assms(2) by (auto simp: cg_inv_def phase_inv_def)

theorem polling_excludes_callbacks_witness: "cg_callback sample_working = NoCallback"
  by (rule polling_excludes_callbacks [OF sample_working_reachable, of "[]"]) (simp add: sample_working_def)

text \<open>
  C11: the shutdown does meet one: the context can be cancelled while a rebalance is going on, and
  then the range loop of \<open>gracefulShutdown\<close> over the map and the \<open>delete\<close> of \<open>lost\<close> are both due, with
  nothing between the two goroutines (Go stops the process on such an access).
\<close>

theorem shutdown_meets_callback:
  "\<exists>cg cg1 cg2 tp idents. reachable hs cg \<and> cg_callback cg = Losing [tp] idents \<and>
     cg_step hs cg cg1 \<and> cg_main cg = Waiting \<and> cg_main cg1 = Shutting (map snd (cg_consumers cg)) [] \<and>
     cg_step hs cg cg2 \<and> cg_consumers cg \<noteq> [] \<and> cg_consumers cg2 = []"
proof -
  let ?l = "sample_group Selecting\<lparr>cg_callback := Losing [sample_tp] [], cg_owned := {}\<rparr>"
  let ?s = "?l\<lparr>cg_ctx_done := True\<rparr>"
  have "reachable hs ?l"
    by (rule reach_move [OF sample_assigned]) (use lost_start [of "sample_group Selecting" "[sample_tp]" hs] in simp_all)
  then have s: "reachable hs ?s" by (rule reach_move) (use cancel [of ?l hs] in simp_all)
  obtain cg' ident where l: "lose_one sample_tp ?s = Inr (cg', ident)"
    using lose_ok [OF cg_inv_reachable [OF s], of sample_tp "[]" "[]"] by auto
  let ?c1 = "?s\<lparr>cg_main := Shutting (map snd (cg_consumers ?s)) []\<rparr>" and ?c2 = "cg'\<lparr>cg_callback := Losing [] [ident]\<rparr>"
  have "cg_step hs ?s ?c1" using shutdown_start [of ?s hs] by (simp add: cg_step_def)
  moreover have "cg_step hs ?s ?c2" using lost_one [of ?s sample_tp "[]" "[]" cg' ident hs] l by (simp add: cg_step_def)
  moreover have "cg_consumers ?c2 = []" using lose_one_Inr [OF l] by simp
  ultimately show ?thesis using s
    by (intro exI [of _ ?s] exI [of _ ?c1] exI [of _ ?c2] exI [of _ sample_tp] exI [of _ "[]"]) simp
qed

end
