(* ===== verification/Environment.thy ===== *)
theory Environment
  imports Time_Utils
begin

text \<open>
  \<open>utils/env.go\<close>: reading the configuration from environment variables, with the parts of \<open>strconv\<close>
  and \<open>strings\<close> it relies on. The environment is what \<open>os.Getenv\<close> gives: the empty string for a
  variable that is not set.
\<close>

type_synonym environment = "string \<Rightarrow> string"

section \<open>The standard library\<close>

text \<open>
  \<open>strconv.Atoi\<close>: a sign, then digits that are added up in 64 unsigned bits, so that an overflow is
  found before a later character that is no digit, then the range of an \<open>int\<close>.
\<close>

fun parse_uint :: "int \<Rightarrow> string \<Rightarrow> num_error + int" where
  "parse_uint n [] = Inr n"
| "parse_uint n (c # cs) =
     (case digit_value c of
        None \<Rightarrow> Inl ErrSyntax
      | Some d \<Rightarrow> if 2 ^ 64 \<le> 10 * n + d then Inl ErrRange else parse_uint (10 * n + d) cs)"

definition signed :: "bool \<Rightarrow> string \<Rightarrow> num_error + int" where
  "signed neg ds =
     (if ds = [] then Inl ErrSyntax
      else (case parse_uint 0 ds of
              Inl e \<Rightarrow> Inl e
            | Inr n \<Rightarrow>
                if \<not> neg \<and> 2 ^ 63 \<le> n \<or> neg \<and> 2 ^ 63 < n then Inl ErrRange
                else Inr (if neg then - n else n)))"

fun Atoi :: "string \<Rightarrow> num_error + int" where
  "Atoi [] = Inl ErrSyntax"
| "Atoi (c # cs) =
     (if c = CHR ''-'' then signed True cs else if c = CHR ''+'' then signed False cs else signed False (c # cs))"

text \<open>\<open>strconv.ParseBool\<close>; its error is not looked at.\<close>

definition ParseBool :: "string \<Rightarrow> bool option" where
  "ParseBool s =
     (if s \<in> {''1'', ''t'', ''T'', ''true'', ''TRUE'', ''True''} then Some True
      else if s \<in> {''0'', ''f'', ''F'', ''false'', ''FALSE'', ''False''} then Some False
      else None)"

text \<open>
  \<open>strings.TrimSpace\<close> on bytes: the white space of Unicode, each character in its UTF-8 form, is
  stripped from both ends.
\<close>

definition spaces :: "string list" where
  "spaces =
    [[CHR 0x09], [CHR 0x0A], [CHR 0x0B], [CHR 0x0C], [CHR 0x0D], [CHR 0x20], [CHR 0xC2, CHR 0x85],
     [CHR 0xC2, CHR 0xA0], [CHR 0xE1, CHR 0x9A, CHR 0x80], [CHR 0xE2, CHR 0x80, CHR 0x80],
     [CHR 0xE2, CHR 0x80, CHR 0x81], [CHR 0xE2, CHR 0x80, CHR 0x82], [CHR 0xE2, CHR 0x80, CHR 0x83],
     [CHR 0xE2, CHR 0x80, CHR 0x84], [CHR 0xE2, CHR 0x80, CHR 0x85], [CHR 0xE2, CHR 0x80, CHR 0x86],
     [CHR 0xE2, CHR 0x80, CHR 0x87], [CHR 0xE2, CHR 0x80, CHR 0x88], [CHR 0xE2, CHR 0x80, CHR 0x89],
     [CHR 0xE2, CHR 0x80, CHR 0x8A], [CHR 0xE2, CHR 0x80, CHR 0xA8], [CHR 0xE2, CHR 0x80, CHR 0xA9],
     [CHR 0xE2, CHR 0x80, CHR 0xAF], [CHR 0xE2, CHR 0x81, CHR 0x9F], [CHR 0xE3, CHR 0x80, CHR 0x80]]"

definition prefix_in :: "string list \<Rightarrow> string \<Rightarrow> string option" where
  "prefix_in ps s = find (\<lambda>p. p \<noteq> [] \<and> take (length p) s = p) ps"

lemma prefix_in_Some: "prefix_in ps s = Some p \<Longrightarrow> p \<in> set ps \<and> p \<noteq> [] \<and> take (length p) s = p"
  by (auto simp: prefix_in_def find_Some_iff)

function strip :: "string list \<Rightarrow> string \<Rightarrow> string" where
  "strip ps s = (case prefix_in ps s of None \<Rightarrow> s | Some p \<Rightarrow> strip ps (drop (length p) s))"
  by pat_completeness auto
termination
proof (relation "measure (\<lambda>(ps, s). length s)")
  fix ps and s p :: string assume "prefix_in ps s = Some p"
  then have "p \<noteq> []" and "take (length p) s = p" using prefix_in_Some by auto
  then have "s \<noteq> []" by auto
  with \<open>p \<noteq> []\<close> show "((ps, drop (length p) s), (ps, s)) \<in> measure (\<lambda>(ps, s). length s)" by simp
qed simp

declare strip.simps [simp del]

definition TrimSpace :: "string \<Rightarrow> string" where
  "TrimSpace s = rev (strip (map rev spaces) (rev (strip spaces s)))"

section \<open>env.go\<close>

definition GetEnvAsInt :: "environment \<Rightarrow> string \<Rightarrow> int \<Rightarrow> int \<times> goerror option" where
  "GetEnvAsInt env key defaultValue =
     (let v = env key
      in if v = [] then (defaultValue, None)
         else (case Atoi v of
                 Inl e \<Rightarrow> (defaultValue, Some (num_error_text ''Atoi'' v e))
               | Inr intValue \<Rightarrow> (intValue, None)))"

definition ParseBrokersEnv :: "string \<Rightarrow> string list" where
  "ParseBrokersEnv brokersStr = (if brokersStr = [] then [] else map TrimSpace (split_on CHR '','' brokersStr))"

definition GetEnvAsBool :: "environment \<Rightarrow> string \<Rightarrow> bool \<Rightarrow> bool" where
  "GetEnvAsBool env key defaultValue = (case ParseBool (env key) of None \<Rightarrow> defaultValue | Some b \<Rightarrow> b)"

definition GetEnvOrDefault :: "environment \<Rightarrow> string \<Rightarrow> string \<Rightarrow> string" where
  "GetEnvOrDefault env key defaultValue = (if env key = [] then defaultValue else env key)"

section \<open>Lemmas\<close>

subsection \<open>Numbers\<close>

lemma parse_uint_read: "read_digits a s = Some n \<Longrightarrow> 0 \<le> a \<Longrightarrow> n < 2 ^ 64 \<Longrightarrow> parse_uint a s = Inr n"
proof (induction s arbitrary: a)
  case (Cons c s)
  then obtain d where d: "digit_value c = Some d" "read_digits (10 * a + d) s = Some n" by (auto split: option.splits)
  then have "0 \<le> d" using digit_value_range by blast
  then have nonneg: "0 \<le> 10 * a + d" using Cons.prems(2) by simp
  then have "10 * a + d \<le> n" using read_digits_ge [OF d(2)] by blast
  then show ?case using Cons.IH [OF d(2) nonneg] Cons.prems(3) d(1) by simp
qed simp

lemma parse_uint_range: "parse_uint a s = Inr n \<Longrightarrow> 0 \<le> a \<Longrightarrow> 0 \<le> n"
proof (induction s arbitrary: a)
  case (Cons c s)
  then obtain d where "digit_value c = Some d" "parse_uint (10 * a + d) s = Inr n"
    by (auto split: option.splits if_splits)
  then show ?case using Cons.IH [of "10 * a + d"] Cons.prems(2) digit_value_range by auto
qed simp

lemma Atoi_show_int:
  assumes "- (2 ^ 63) \<le> n" and "n < 2 ^ 63"
  shows "Atoi (show_int n) = Inr n"
proof (cases "n < 0")
  case True
  then have "parse_uint 0 (show_nat (- n)) = Inr (- n)"
    using assms(1) by (intro parse_uint_read read_show_nat) auto
  then show ?thesis using True assms(1) by (simp add: show_int_def signed_def)
next
  case False
  obtain c cs where s: "show_nat n = c # cs" by (metis show_nat_ne neq_Nil_conv)
  have "is_digit c" using show_nat_digits [of n] s by simp
  then have "c \<noteq> CHR ''-''" "c \<noteq> CHR ''+''" by (auto simp: digit_value_def)
  moreover have "parse_uint 0 (show_nat n) = Inr n"
    using False assms(2) by (intro parse_uint_read read_show_nat) auto
  ultimately show ?thesis using False assms(2) s by (simp add: show_int_def signed_def)
qed

lemma signed_range: "signed neg ds = Inr n \<Longrightarrow> - (2 ^ 63) \<le> n \<and> n < 2 ^ 63"
  using parse_uint_range [of 0 ds] by (auto simp: signed_def split: if_splits sum.splits)

lemma Atoi_range: "Atoi s = Inr n \<Longrightarrow> - (2 ^ 63) \<le> n \<and> n < 2 ^ 63"
  by (cases s) (auto dest: signed_range split: if_splits)

subsection \<open>White space\<close>

text \<open>A string that no space starts, and one that no space ends.\<close>

definition unpadded :: "string \<Rightarrow> bool" where
  "unpadded s \<longleftrightarrow> prefix_in spaces s = None \<and> prefix_in (map rev spaces) (rev s) = None"

lemma strip_None [simp]: "prefix_in ps s = None \<Longrightarrow> strip ps s = s"
  by (subst strip.simps) simp

lemma strip_no_prefix: "prefix_in ps (strip ps s) = None"
  by (induction ps s rule: strip.induct) (subst strip.simps, auto split: option.splits)

lemma strip_suffix: "\<exists>u. s = u @ strip ps s"
proof (induction ps s rule: strip.induct)
  case (1 ps s)
  show ?case
  proof (cases "prefix_in ps s")
    case (Some p)
    then obtain u where "drop (length p) s = u @ strip ps (drop (length p) s)" using 1 by blast
    then have "s = (take (length p) s @ u) @ strip ps s"
      using Some by (subst strip.simps) (metis append.assoc append_take_drop_id option.simps(5))
    then show ?thesis by blast
  qed simp
qed

definition ascii_space :: "char \<Rightarrow> bool" where
  "ascii_space c \<longleftrightarrow> c = CHR 0x09 \<or> c = CHR 0x0A \<or> c = CHR 0x0B \<or> c = CHR 0x0C \<or> c = CHR 0x0D \<or> c = CHR 0x20"

lemma prefix_in_single:
  assumes "[c] \<in> set ps" and "\<forall>p \<in> set ps. hd p = c \<longrightarrow> p = [c]"
  shows "prefix_in ps (c # s) = Some [c]"
proof -
  have "prefix_in ps (c # s) \<noteq> None" using assms(1)
    by (auto simp: prefix_in_def find_None_iff intro!: exI [of _ "[c]"])
  then obtain p where p: "prefix_in ps (c # s) = Some p" by blast
  from prefix_in_Some [OF p] have "p \<in> set ps" and "hd p = c" by (cases p; simp)+
  with p assms(2) show ?thesis by simp
qed

lemma ascii_in_spaces: "ascii_space c \<Longrightarrow> [c] \<in> set spaces"
  unfolding ascii_space_def spaces_def by force

text \<open>An ASCII space is a space of its own, and no byte of a longer one.\<close>

lemma space_ascii: "p \<in> set spaces \<Longrightarrow> c \<in> set p \<Longrightarrow> ascii_space c \<Longrightarrow> p = [c]"
  unfolding spaces_def ascii_space_def list.set insert_iff empty_iff
  by (elim disjE; simp)

lemma prefix_in_ascii:
  assumes "ascii_space c"
  shows "prefix_in spaces (c # s) = Some [c]" and "prefix_in (map rev spaces) (c # s) = Some [c]"
proof -
  have ne: "p \<noteq> []" if "p \<in> set spaces" for p using that unfolding spaces_def by auto
  show "prefix_in spaces (c # s) = Some [c]"
    using ascii_in_spaces [OF assms] space_ascii [OF _ _ assms] ne by (intro prefix_in_single) (metis hd_in_set)+
  have "[c] \<in> set (map rev spaces)" using ascii_in_spaces [OF assms] by force
  moreover have "rev p = [c]" if "p \<in> set spaces" "hd (rev p) = c" for p
    using space_ascii [OF that(1) _ assms] ne [OF that(1)] that(2) by (metis hd_in_set rev_is_Nil_conv set_rev rev_singleton_conv)
  ultimately show "prefix_in (map rev spaces) (c # s) = Some [c]"
    by (intro prefix_in_single) (simp_all only: set_map, blast)
qed

lemma strip_cons:
  "ascii_space c \<Longrightarrow> strip spaces (c # s) = strip spaces s"
  "ascii_space c \<Longrightarrow> strip (map rev spaces) (c # s) = strip (map rev spaces) s"
  by (subst strip.simps, simp add: prefix_in_ascii)+

lemma strip_Nil: "strip ps [] = []"
  by (rule strip_None) (auto simp: prefix_in_def find_None_iff)

lemma strip_ascii:
  "\<forall>c \<in> set l. ascii_space c \<Longrightarrow> strip spaces (l @ s) = strip spaces s"
  "\<forall>c \<in> set l. ascii_space c \<Longrightarrow> strip (map rev spaces) (l @ s) = strip (map rev spaces) s"
  by (induction l) (simp_all add: strip_cons)

lemma prefix_in_append:
  assumes "prefix_in spaces b = None" and "b \<noteq> []" and "\<forall>c \<in> set r. ascii_space c"
  shows "prefix_in spaces (b @ r) = None"
proof (rule ccontr)
  assume "prefix_in spaces (b @ r) \<noteq> None"
  then obtain p where "prefix_in spaces (b @ r) = Some p" by blast
  from prefix_in_Some [OF this] have p: "p \<in> set spaces" "p \<noteq> []" "take (length p) (b @ r) = p" by blast+
  have no: "take (length p) b \<noteq> p" using assms(1) p(1,2) by (auto simp: prefix_in_def find_None_iff)
  have long: "length b < length p" and "p = b @ take (length p - length b) r"
    using p(3) no by (cases "length p \<le> length b"; simp)+
  then have "tl p = tl b @ take (length p - length b) r" using assms(2) by (metis tl_append2)
  moreover have "take (length p - length b) r \<noteq> []" using long \<open>p = b @ _\<close>
    by (metis append_Nil2 nat_less_le)
  then obtain c where "c \<in> set (take (length p - length b) r)" by (meson hd_in_set)
  ultimately have "c \<in> set (tl p)" "ascii_space c" using assms(3) by (auto dest: in_set_takeD)
  then have "p = [c]" using space_ascii [OF p(1), of c] p(2) by (cases p) auto
  then show False using \<open>c \<in> set (tl p)\<close> by simp
qed

lemma TrimSpace_padded:
  assumes "unpadded b" and "\<forall>c \<in> set l. ascii_space c" and "\<forall>c \<in> set r. ascii_space c"
  shows "TrimSpace (l @ b @ r) = b"
proof -
  have "strip spaces (b @ r) = (if b = [] then [] else b @ r)"
    using assms(1,3) strip_ascii(1) [of r "[]"] prefix_in_append [of b r] by (simp add: unpadded_def strip_Nil)
  moreover have "strip (map rev spaces) (rev r @ rev b) = rev b"
    using assms(1,3) strip_ascii(2) [of "rev r" "rev b"] by (simp add: unpadded_def)
  ultimately show ?thesis
    using assms(1) strip_ascii(1) [OF assms(2), of "b @ r"] by (auto simp: TrimSpace_def unpadded_def)
qed

lemma unpadded_TrimSpace: "unpadded (TrimSpace s)"
proof -
  let ?t = "strip spaces s"
  obtain u where u: "rev ?t = u @ strip (map rev spaces) (rev ?t)" using strip_suffix by blast
  then have t: "?t = TrimSpace s @ rev u" unfolding TrimSpace_def by (metis rev_append rev_rev_ident)
  have "prefix_in spaces (TrimSpace s) = None"
  proof (rule ccontr)
    assume "prefix_in spaces (TrimSpace s) \<noteq> None"
    then obtain p where p: "prefix_in spaces (TrimSpace s) = Some p" by blast
    from prefix_in_Some [OF p] have "p \<in> set spaces" "p \<noteq> []" "take (length p) (TrimSpace s) = p" by blast+
    moreover from this(3) have "length p \<le> length (TrimSpace s)" by (metis length_take min.cobounded1)
    ultimately have "prefix_in spaces ?t \<noteq> None" unfolding t by (auto simp: prefix_in_def find_None_iff)
    then show False using strip_no_prefix [of spaces s] by simp
  qed
  then show ?thesis using strip_no_prefix by (simp add: unpadded_def TrimSpace_def)
qed

text \<open>Printable ASCII at both ends is enough for a string to be bare.\<close>

definition plain :: "char \<Rightarrow> bool" where
  "plain c \<longleftrightarrow> (33 :: nat) \<le> of_char c \<and> of_char c < (128 :: nat)"

lemma unpadded_plain:
  assumes "plain (hd s)" and "plain (last s)"
  shows "unpadded s"
proof -
  have ends: "\<not> plain (hd p) \<and> \<not> plain (last p)" if "p \<in> set spaces" for p
    using that unfolding spaces_def by (auto simp: plain_def)
  have "p = [] \<or> hd p = hd s" if "take (length p) s = p" for p using that by (cases p; cases s) auto
  then have "prefix_in spaces s = None" using ends assms(1) by (force simp: prefix_in_def find_None_iff)
  moreover have "p = [] \<or> last p = last s" if "take (length p) (rev s) = rev p" for p
    using that by (cases p rule: rev_cases; cases s rule: rev_cases) auto
  then have "prefix_in (map rev spaces) (rev s) = None"
    using ends assms(2) by (force simp: prefix_in_def find_None_iff)
  ultimately show ?thesis by (simp add: unpadded_def)
qed

section \<open>Properties\<close>

text \<open>
  C32: the list of brokers is read back from the variable that names them: brokers joined by
  commas, with any ASCII space around each, come back bare and in order. And no broker that is read
  has a space at either end.
\<close>

theorem brokers_roundtrip:
  assumes "bs \<noteq> []" and "\<forall>(l, b, r) \<in> set bs. unpadded b \<and> CHR '','' \<notin> set b"
    and "\<forall>(l, b, r) \<in> set bs. \<forall>c \<in> set l \<union> set r. ascii_space c" and "map (\<lambda>(l, b, r). l @ b @ r) bs \<noteq> [[]]"
  shows "ParseBrokersEnv (join '','' (map (\<lambda>(l, b, r). l @ b @ r) bs)) = map (\<lambda>(l, b, r). b) bs \<and>
    (\<forall>b \<in> set (ParseBrokersEnv v). unpadded b)"
proof -
  let ?ps = "map (\<lambda>(l, b, r). l @ b @ r) bs"
  have no: "CHR '','' \<notin> set l" if "\<forall>c \<in> set l. ascii_space c" for l
  proof
    assume "CHR '','' \<in> set l"
    then have "ascii_space CHR '',''" using that by blast
    then show False by (simp add: ascii_space_def)
  qed
  have "CHR '','' \<notin> set x" if x: "x \<in> set ?ps" for x
  proof -
    obtain l b r where p: "(l, b, r) \<in> set bs" and "x = l @ b @ r" using x by auto
    then show ?thesis using no [of l] no [of r] bspec [OF assms(2) p] bspec [OF assms(3) p] by simp
  qed
  moreover have "?ps \<noteq> []" using assms(1) by simp
  ultimately have sp: "split_on CHR '','' (join '','' ?ps) = ?ps" by (rule split_join [rotated])
  then have "join '','' ?ps \<noteq> []" using assms(4) by (metis split_on.simps(1))
  moreover have "map TrimSpace ?ps = map (\<lambda>(l, b, r). b) bs"
  proof (unfold map_map, rule map_cong [OF refl])
    fix x assume x: "x \<in> set bs"
    obtain l b r where "x = (l, b, r)" by (cases x)
    then show "(TrimSpace \<circ> (\<lambda>(l, b, r). l @ b @ r)) x = (\<lambda>(l, b, r). b) x"
      using TrimSpace_padded [of b l r] bspec [OF assms(2) x] bspec [OF assms(3) x] by simp
  qed
  ultimately have "ParseBrokersEnv (join '','' ?ps) = map (\<lambda>(l, b, r). b) bs"
    unfolding ParseBrokersEnv_def sp by (metis (no_types))
  moreover have "\<forall>b \<in> set (ParseBrokersEnv v). unpadded b"
    by (simp add: ParseBrokersEnv_def unpadded_TrimSpace)
  ultimately show ?thesis by (rule conjI)
qed

theorem brokers_roundtrip_witness:
  "ParseBrokersEnv ''redpanda:9092, kafka:9092 '' = [''redpanda:9092'', ''kafka:9092'']"
proof -
  have u: "unpadded ''redpanda:9092''" "unpadded ''kafka:9092''" by (rule unpadded_plain; simp add: plain_def)+
  show ?thesis
    using brokers_roundtrip [of "[([], ''redpanda:9092'', []), ('' '', ''kafka:9092'', '' '')]"] u
    by (simp add: ascii_space_def)
qed

text \<open>
  C33: an integer variable. What it gives always fits an \<open>int\<close> when the default does; an integer of
  that range, printed, is read back; and an error gives the default, and only text that is no
  integer of that range is an error.
\<close>

theorem env_integer:
  assumes "- (2 ^ 63) \<le> defaultValue" and "defaultValue < 2 ^ 63" and "- (2 ^ 63) \<le> n" and "n < 2 ^ 63"
  shows "- (2 ^ 63) \<le> fst (GetEnvAsInt env key defaultValue) \<and> fst (GetEnvAsInt env key defaultValue) < 2 ^ 63 \<and>
    GetEnvAsInt (env(key := show_int n)) key defaultValue = (n, None) \<and>
    (snd (GetEnvAsInt env key defaultValue) \<noteq> None \<longrightarrow>
       fst (GetEnvAsInt env key defaultValue) = defaultValue \<and> env key \<noteq> [] \<and> env key \<noteq> show_int n)"
proof (intro conjI impI)
  have ne: "show_int n \<noteq> []" by (simp add: show_int_def)
  show roundtrip: "GetEnvAsInt (env(key := show_int n)) key defaultValue = (n, None)"
    using Atoi_show_int [OF assms(3,4)] ne by (simp add: GetEnvAsInt_def)
  show "- (2 ^ 63) \<le> fst (GetEnvAsInt env key defaultValue)" "fst (GetEnvAsInt env key defaultValue) < 2 ^ 63"
    using assms(1,2) Atoi_range by (auto simp: GetEnvAsInt_def Let_def split: sum.split)
  assume e: "snd (GetEnvAsInt env key defaultValue) \<noteq> None"
  then show "fst (GetEnvAsInt env key defaultValue) = defaultValue" and "env key \<noteq> []"
    by (auto simp: GetEnvAsInt_def Let_def split: if_splits sum.splits)
  show "env key \<noteq> show_int n"
    using e Atoi_show_int [OF assms(3,4)] by (auto simp: GetEnvAsInt_def Let_def split: if_splits)
qed

theorem env_integer_witness: "GetEnvAsInt (\<lambda>k. show_int 7) ''DB'' 0 = (7, None)"
  using env_integer [of 0 7 "\<lambda>k. []" "''DB''"] by (simp add: GetEnvAsInt_def)

end
