(* ===== verification/Startup.thy ===== *)
theory Startup
  imports Environment Producers
begin

text \<open>
  Starting the processor: \<open>processors/main_processor.go\<close> and the clients it opens,
  \<open>config/kafka/kafka.go\<close>, the constructors of \<open>producer.go\<close> and \<open>consumer.go\<close>, \<open>config/redis/redis.go\<close>
  and \<open>config/database/database.go\<close>. A client is known by the options it was made with. What the
  code asks of the libraries is an attempt, and the trace lists the attempts with the
  answers, the reports of \<open>LogAndPanic\<close>, and what is closed.
\<close>

section \<open>Attempts and their answers\<close>

text \<open>
  The options of the Kafka client, by the names of their constructors; \<open>NilOpt\<close> is a \<open>nil\<close> in the
  list of options.
\<close>

datatype kgo_opt =
    SeedBrokers "string list"
  | WithLogger
  | WithHooks
  | SASL string string string
  | NilOpt
  | DialTLS
  | GroupName string
  | ConsumeTopics "string list"
  | OnPartitionsAssigned
  | OnPartitionsLost
  | OnPartitionsRevoked
  | DisableAutoCommit
  | BlockRebalanceOnPoll

text \<open>The options of the Redis client; times are in seconds, the last field says that TLS is set up.\<close>

record redis_options =
  ro_Addr :: string
  ro_Password :: string
  ro_DB :: int
  ro_DialTimeout :: int
  ro_ReadTimeout :: int
  ro_WriteTimeout :: int
  ro_PoolSize :: int
  ro_PoolTimeout :: int
  ro_TLS :: bool

datatype resource =
    DatabasePool
  | RedisClient redis_options

datatype attempt =
    MetricExporter
  | TraceExporter
  | NewClient "kgo_opt list"
  | PingBrokers "kgo_opt list"
  | PingRedis redis_options
  | InstrumentTracing redis_options
  | ParsePoolConfig string
  | NewPool string int
  | OpenGorm

text \<open>An attempt succeeds, returns an error, or panics.\<close>

datatype reply =
    Fine
  | Fails goerror
  | Panics panic

datatype event =
    Tried attempt reply
  | Reported effect
  | StartGroup "kgo_opt list"
  | Closed_resource resource

type_synonym trace = "event list"

text \<open>The answer to an attempt may depend on everything before it.\<close>

type_synonym answers = "trace \<Rightarrow> attempt \<Rightarrow> reply"

text \<open>
  A Go function: the trace goes in, a panic or a value and the trace come out. One that returns a
  value and an error has a sum as its value.
\<close>

type_synonym 'a go = "trace \<Rightarrow> (panic + 'a) \<times> trace"

definition ret :: "'a \<Rightarrow> 'a go" where
  "ret x log = (Inr x, log)"

definition andThen :: "'a go \<Rightarrow> ('a \<Rightarrow> 'b go) \<Rightarrow> 'b go" where
  "andThen m f log = (case m log of (Inl p, log') \<Rightarrow> (Inl p, log') | (Inr x, log') \<Rightarrow> f x log')"

definition throw :: "panic \<Rightarrow> 'a go" where
  "throw p log = (Inl p, log)"

definition note_event :: "event \<Rightarrow> unit go" where
  "note_event e log = (Inr (), log @ [e])"

definition try_it :: "answers \<Rightarrow> attempt \<Rightarrow> (goerror + unit) go" where
  "try_it ans a log =
     (case ans log a of
        Fine \<Rightarrow> (Inr (Inr ()), log @ [Tried a Fine])
      | Fails e \<Rightarrow> (Inr (Inl e), log @ [Tried a (Fails e)])
      | Panics p \<Rightarrow> (Inl p, log @ [Tried a (Panics p)]))"

text \<open>\<open>if err != nil { return nil, err }\<close>.\<close>

definition orReturn :: "(goerror + 'a) go \<Rightarrow> ('a \<Rightarrow> (goerror + 'b) go) \<Rightarrow> (goerror + 'b) go" where
  "orReturn m f = andThen m (\<lambda>r. case r of Inl e \<Rightarrow> ret (Inl e) | Inr x \<Rightarrow> f x)"

text \<open>\<open>if err != nil { utils.LogAndPanic(logger, err, message) }\<close>.\<close>

definition orPanic :: "(goerror + 'a) go \<Rightarrow> string \<Rightarrow> ('a \<Rightarrow> 'b go) \<Rightarrow> 'b go" where
  "orPanic m message f = andThen m
     (\<lambda>r. case r of
        Inl e \<Rightarrow> (let (p, reports) = LogAndPanic e message []
                  in (\<lambda>log. (Inl p, log @ map Reported reports)))
      | Inr x \<Rightarrow> f x)"

text \<open>A pair of a value and an error, as the tests of the error read it.\<close>

fun checked :: "'a \<times> goerror option \<Rightarrow> goerror + 'a" where
  "checked (x, None) = Inr x"
| "checked (x, Some e) = Inl e"

text \<open>A deferred close runs after the rest of the function, also when that panics.\<close>

definition deferred :: "resource \<Rightarrow> 'a go \<Rightarrow> 'a go" where
  "deferred r m log = (let (x, log') = m log in (x, log' @ [Closed_resource r]))"

section \<open>Kafka\<close>

definition Scram256 :: string where "Scram256 = ''SCRAM-SHA-256''"

definition Scram512 :: string where "Scram512 = ''SCRAM-SHA-512''"

record ServerConfig =
  sc_ScramAlgorithm :: string
  sc_TLS :: bool
  sc_Servers :: "string list"
  sc_UseTelemetry :: bool
  sc_UserName :: string
  sc_Password :: string

definition initMeterProvider :: "answers \<Rightarrow> (goerror + unit) go" where
  "initMeterProvider ans = try_it ans MetricExporter"

definition initTracerProvider :: "answers \<Rightarrow> (goerror + unit) go" where
  "initTracerProvider ans = try_it ans TraceExporter"

text \<open>The option for SASL: the variable stays \<open>nil\<close> for an algorithm that the switch does not name.\<close>

definition scram_option :: "ServerConfig \<Rightarrow> kgo_opt" where
  "scram_option sc =
     (if sc_ScramAlgorithm sc = Scram256 then SASL ''SCRAM-SHA-256'' (sc_UserName sc) (sc_Password sc)
      else if sc_ScramAlgorithm sc = Scram512 then SASL ''SCRAM-SHA-512'' (sc_UserName sc) (sc_Password sc)
      else NilOpt)"

definition NewKafkaClient :: "answers \<Rightarrow> ServerConfig \<Rightarrow> kgo_opt list \<Rightarrow> (goerror + kgo_opt list) go" where
  "NewKafkaClient ans sc config =
     (let opts = [SeedBrokers (sc_Servers sc), WithLogger] @ config
      in orReturn
           (if sc_UseTelemetry sc then
              orReturn (initMeterProvider ans) (\<lambda>_.
              orReturn (initTracerProvider ans) (\<lambda>_.
              ret (Inr (opts @ [WithHooks]))))
            else ret (Inr opts))
           (\<lambda>opts.
              let opts = (if sc_ScramAlgorithm sc \<noteq> [] then opts @ [scram_option sc] else opts);
                  opts = (if sc_TLS sc then opts @ [DialTLS] else opts)
              in orReturn (try_it ans (NewClient opts)) (\<lambda>_. ret (Inr opts))))"

text \<open>The constructor of a producer, with the topic it is configured for.\<close>

record started_producer =
  sp_client :: "kgo_opt list"
  sp_topic :: string

definition new_producer :: "answers \<Rightarrow> ServerConfig \<Rightarrow> string \<Rightarrow> (goerror + started_producer) go" where
  "new_producer ans sc topic =
     orReturn (NewKafkaClient ans sc []) (\<lambda>client. ret (Inr \<lparr>sp_client = client, sp_topic = topic\<rparr>))"

definition Ping :: "answers \<Rightarrow> started_producer \<Rightarrow> (goerror + unit) go" where
  "Ping ans p = try_it ans (PingBrokers (sp_client p))"

text \<open>The constructor of the consumer group: its options, with the name built of group and topic.\<close>

definition group_options :: "string \<Rightarrow> string \<Rightarrow> kgo_opt list" where
  "group_options gname topic =
     [GroupName (gname @ ''_'' @ topic), ConsumeTopics [topic], OnPartitionsAssigned, OnPartitionsLost,
      OnPartitionsRevoked, DisableAutoCommit, BlockRebalanceOnPoll]"

definition new_group :: "answers \<Rightarrow> ServerConfig \<Rightarrow> string \<Rightarrow> string \<Rightarrow> (goerror + kgo_opt list) go" where
  "new_group ans sc gname topic =
     orReturn (NewKafkaClient ans sc (group_options gname topic)) (\<lambda>client.
     orReturn (try_it ans (PingBrokers client)) (\<lambda>_. ret (Inr client)))"

section \<open>Redis and the database\<close>

record RedisConfig =
  rc_Address :: string
  rc_Password :: string
  rc_DB :: int
  rc_UseTracer :: bool
  rc_UseTLS :: bool

text \<open>The regular expression \<open>^rediss?://\<close> is replaced by nothing; it is anchored.\<close>

definition AddressAndPort :: "RedisConfig \<Rightarrow> string" where
  "AddressAndPort rc =
     (let s = rc_Address rc
      in if take 8 s = ''redis://'' then drop 8 s
         else if take 9 s = ''rediss://'' then drop 9 s
         else s)"

definition redis_options_of :: "RedisConfig \<Rightarrow> redis_options" where
  "redis_options_of rc =
     \<lparr>ro_Addr = AddressAndPort rc, ro_Password = rc_Password rc, ro_DB = rc_DB rc, ro_DialTimeout = 5,
      ro_ReadTimeout = 3, ro_WriteTimeout = 3, ro_PoolSize = 10, ro_PoolTimeout = 4, ro_TLS = rc_UseTLS rc\<rparr>"

definition NewRedisDB :: "answers \<Rightarrow> RedisConfig \<Rightarrow> (goerror + redis_options) go" where
  "NewRedisDB ans rc =
     (let client = redis_options_of rc
      in orReturn (try_it ans (PingRedis client)) (\<lambda>_.
         if rc_UseTracer rc then orReturn (try_it ans (InstrumentTracing client)) (\<lambda>_. ret (Inr client))
         else ret (Inr client)))"

text \<open>\<open>int32(n)\<close>.\<close>

definition int32 :: "int \<Rightarrow> int" where
  "int32 n = (n + 2 ^ 31) mod 2 ^ 32 - 2 ^ 31"

record DBConfig =
  dc_Url :: string
  dc_MaxConns :: int

definition OpenConnection :: "answers \<Rightarrow> (goerror + unit) go" where
  "OpenConnection ans = orReturn (try_it ans OpenGorm) (\<lambda>_. ret (Inr ()))"

definition NewConnection :: "answers \<Rightarrow> DBConfig \<Rightarrow> (goerror + unit) go" where
  "NewConnection ans dc =
     orReturn (try_it ans (ParsePoolConfig (dc_Url dc))) (\<lambda>_.
     orReturn (try_it ans (NewPool (dc_Url dc) (dc_MaxConns dc))) (\<lambda>_.
     OpenConnection ans))"

section \<open>main_processor.go\<close>

text \<open>The names of the variables.\<close>

definition envEnv :: string where "envEnv = ''ENV''"

definition envLagoEventsProcessorDatabaseMaxConnections :: string where "envLagoEventsProcessorDatabaseMaxConnections = ''LAGO_EVENTS_PROCESSOR_DATABASE_MAX_CONNECTIONS''"

definition envLagoKafkaBootstrapServers :: string where "envLagoKafkaBootstrapServers = ''LAGO_KAFKA_BOOTSTRAP_SERVERS''"

definition envLagoKafkaConsumerGroup :: string where "envLagoKafkaConsumerGroup = ''LAGO_KAFKA_CONSUMER_GROUP''"

definition envLagoKafkaEnrichedEventsExpandedTopic :: string where "envLagoKafkaEnrichedEventsExpandedTopic = ''LAGO_KAFKA_ENRICHED_EVENTS_EXPANDED_TOPIC''"

definition envLagoKafkaEnrichedEventsTopic :: string where "envLagoKafkaEnrichedEventsTopic = ''LAGO_KAFKA_ENRICHED_EVENTS_TOPIC''"

definition envLagoKafkaEventsChargedInAdvanceTopic :: string where "envLagoKafkaEventsChargedInAdvanceTopic = ''LAGO_KAFKA_EVENTS_CHARGED_IN_ADVANCE_TOPIC''"

definition envLagoKafkaEventsDeadLetterTopic :: string where "envLagoKafkaEventsDeadLetterTopic = ''LAGO_KAFKA_EVENTS_DEAD_LETTER_TOPIC''"

definition envLagoKafkaPassword :: string where "envLagoKafkaPassword = ''LAGO_KAFKA_PASSWORD''"

definition envLagoKafkaRawEventsTopic :: string where "envLagoKafkaRawEventsTopic = ''LAGO_KAFKA_RAW_EVENTS_TOPIC''"

definition envLagoKafkaScramAlgorithm :: string where "envLagoKafkaScramAlgorithm = ''LAGO_KAFKA_SCRAM_ALGORITHM''"

definition envLagoKafkaTLS :: string where "envLagoKafkaTLS = ''LAGO_KAFKA_TLS''"

definition envLagoKafkaUsername :: string where "envLagoKafkaUsername = ''LAGO_KAFKA_USERNAME''"

definition envLagoRedisCacheDB :: string where "envLagoRedisCacheDB = ''LAGO_REDIS_CACHE_DB''"

definition envLagoRedisCachePassword :: string where "envLagoRedisCachePassword = ''LAGO_REDIS_CACHE_PASSWORD''"

definition envLagoRedisCacheURL :: string where "envLagoRedisCacheURL = ''LAGO_REDIS_CACHE_URL''"

definition envLagoRedisCacheTLS :: string where "envLagoRedisCacheTLS = ''LAGO_REDIS_CACHE_TLS''"

definition envLagoRedisStoreDB :: string where "envLagoRedisStoreDB = ''LAGO_REDIS_STORE_DB''"

definition envLagoRedisStorePassword :: string where "envLagoRedisStorePassword = ''LAGO_REDIS_STORE_PASSWORD''"

definition envLagoRedisStoreURL :: string where "envLagoRedisStoreURL = ''LAGO_REDIS_STORE_URL''"

definition envLagoRedisStoreTLS :: string where "envLagoRedisStoreTLS = ''LAGO_REDIS_STORE_TLS''"

definition initProducer :: "answers \<Rightarrow> environment \<Rightarrow> ServerConfig \<Rightarrow> string \<Rightarrow> (goerror + started_producer) go" where
  "initProducer ans env kafkaConfig topicEnv =
     (if env topicEnv = [] then ret (Inl (topicEnv @ '' variable is required''))
      else (let topic = env topicEnv
            in orReturn (new_producer ans kafkaConfig topic) (\<lambda>producer.
               orReturn (Ping ans producer) (\<lambda>_.
               ret (Inr producer)))))"

definition store_config :: "environment \<Rightarrow> int \<Rightarrow> RedisConfig" where
  "store_config env redisDb =
     \<lparr>rc_Address = env envLagoRedisStoreURL, rc_Password = env envLagoRedisStorePassword, rc_DB = redisDb,
      rc_UseTracer = False, rc_UseTLS = GetEnvAsBool env envLagoRedisStoreTLS (env envEnv = ''production'')\<rparr>"

definition initFlagStore :: "answers \<Rightarrow> environment \<Rightarrow> string \<Rightarrow> (goerror + redis_options \<times> string) go" where
  "initFlagStore ans env name =
     orReturn (ret (checked (GetEnvAsInt env envLagoRedisStoreDB 0))) (\<lambda>redisDb.
     orReturn (NewRedisDB ans (store_config env redisDb)) (\<lambda>db. ret (Inr (db, name))))"

definition cache_config :: "environment \<Rightarrow> int \<Rightarrow> RedisConfig" where
  "cache_config env redisDb =
     \<lparr>rc_Address = env envLagoRedisCacheURL, rc_Password = env envLagoRedisCachePassword, rc_DB = redisDb,
      rc_UseTracer = False, rc_UseTLS = GetEnvAsBool env envLagoRedisCacheTLS False\<rparr>"

definition initChargeCacheStore :: "answers \<Rightarrow> environment \<Rightarrow> (goerror + redis_options) go" where
  "initChargeCacheStore ans env =
     orReturn (ret (checked (GetEnvAsInt env envLagoRedisCacheDB 0))) (\<lambda>redisDb.
     orReturn (NewRedisDB ans (cache_config env redisDb)) (\<lambda>db. ret (Inr db)))"

definition kafka_config :: "environment \<Rightarrow> bool \<Rightarrow> ServerConfig" where
  "kafka_config env useTelemetry =
     \<lparr>sc_ScramAlgorithm = env envLagoKafkaScramAlgorithm, sc_TLS = GetEnvAsBool env envLagoKafkaTLS False,
      sc_Servers = ParseBrokersEnv (env envLagoKafkaBootstrapServers), sc_UseTelemetry = useTelemetry,
      sc_UserName = env envLagoKafkaUsername, sc_Password = env envLagoKafkaPassword\<rparr>"

text \<open>What the processor and its services are made of: the topics of the producers, the flag store, the cache.\<close>

record wiring =
  w_topics :: topics
  w_flags :: "redis_options \<times> string"
  w_cache :: redis_options
  w_group :: "kgo_opt list"

definition StartProcessingEvents :: "answers \<Rightarrow> environment \<Rightarrow> bool \<Rightarrow> wiring go" where
  "StartProcessingEvents ans env useTelemetry =
     (let kafkaConfig = kafka_config env useTelemetry
      in if sc_Servers kafkaConfig = [] then
           andThen (note_event (Reported (LogError ''brokers not found''))) (\<lambda>_. throw ''brokers not found'')
         else
           orPanic (initProducer ans env kafkaConfig envLagoKafkaEnrichedEventsTopic)
             ''failed to initialize enriched events producer'' (\<lambda>enriched.
           orPanic (initProducer ans env kafkaConfig envLagoKafkaEnrichedEventsExpandedTopic)
             ''failed to initialize enriched events expanded producer'' (\<lambda>expanded.
           orPanic (initProducer ans env kafkaConfig envLagoKafkaEventsChargedInAdvanceTopic)
             ''failed to initialize events charged in advance producer'' (\<lambda>inAdvance.
           orPanic (initProducer ans env kafkaConfig envLagoKafkaEventsDeadLetterTopic)
             ''failed to initialize events dead letter queue producer'' (\<lambda>deadLetter.
           orPanic (ret (checked (GetEnvAsInt env envLagoEventsProcessorDatabaseMaxConnections 200)))
             ''Error converting max connections into integer'' (\<lambda>maxConns.
           orPanic (NewConnection ans \<lparr>dc_Url = env ''DATABASE_URL'', dc_MaxConns = int32 maxConns\<rparr>)
             ''Error connecting to the database'' (\<lambda>_. deferred DatabasePool (
           orPanic (initFlagStore ans env ''subscription_refreshed'')
             ''Error connecting to the flag store'' (\<lambda>flagger. deferred (RedisClient (fst flagger)) (
           orPanic (initChargeCacheStore ans env)
             ''Error connecting to the charge cache store'' (\<lambda>cacher. deferred (RedisClient cacher) (
           orPanic (new_group ans kafkaConfig (env envLagoKafkaConsumerGroup) (env envLagoKafkaRawEventsTopic))
             ''Error starting the event consumer'' (\<lambda>cg.
           andThen (note_event (StartGroup cg)) (\<lambda>_.
           ret \<lparr>w_topics = \<lparr>tp_enriched = sp_topic enriched, tp_expanded = sp_topic expanded,
                  tp_in_advance = sp_topic inAdvance, tp_dead_letter = sp_topic deadLetter\<rparr>,
                w_flags = flagger, w_cache = cacher, w_group = cg\<rparr>))))))))))))))"

section \<open>When a start succeeds\<close>

text \<open>The attempts, made in this order, are all accepted.\<close>

fun accepts :: "answers \<Rightarrow> trace \<Rightarrow> attempt list \<Rightarrow> bool" where
  "accepts ans log [] = True"
| "accepts ans log (a # as) = (ans log a = Fine \<and> accepts ans (log @ [Tried a Fine]) as)"

definition tried :: "attempt list \<Rightarrow> trace" where
  "tried as = map (\<lambda>a. Tried a Fine) as"

lemma tried_simps [simp]:
  "tried [] = []" "tried (a # as) = Tried a Fine # tried as" "tried (as @ bs) = tried as @ tried bs"
  by (simp_all add: tried_def)

lemma accepts_append [simp]: "accepts ans log (as @ bs) \<longleftrightarrow> accepts ans log as \<and> accepts ans (log @ tried as) bs"
  by (induction ans log as rule: accepts.induct) (auto simp: tried_def)

named_theorems start_ok \<open>when an operation succeeds\<close>

lemma ret_ok [start_ok]: "ret r log = (Inr x, log') \<longleftrightarrow> x = r \<and> log' = log"
  by (auto simp: ret_def)

lemma throw_ok [start_ok]: "\<not> throw p log = (Inr x, log')"
  by (simp add: throw_def)

lemma note_ok [start_ok]: "note_event e log = (Inr x, log') \<longleftrightarrow> log' = log @ [e]"
  by (auto simp: note_event_def)

lemma try_ok [start_ok]: "try_it ans a log = (Inr (Inr x), log') \<longleftrightarrow> ans log a = Fine \<and> log' = log @ [Tried a Fine]"
  by (auto simp: try_it_def split: reply.splits)

lemma andThen_ok [start_ok]:
  "andThen m f log = (Inr y, log') \<longleftrightarrow> (\<exists>x l. m log = (Inr x, l) \<and> f x l = (Inr y, log'))"
  by (auto simp: andThen_def split: prod.splits sum.splits)

lemma orReturn_ok [start_ok]:
  "orReturn m f log = (Inr (Inr y), log') \<longleftrightarrow> (\<exists>x l. m log = (Inr (Inr x), l) \<and> f x l = (Inr (Inr y), log'))"
  by (auto simp: orReturn_def andThen_def ret_def split: prod.splits sum.splits)

lemma orPanic_ok [start_ok]:
  "orPanic m message f log = (Inr y, log') \<longleftrightarrow> (\<exists>x l. m log = (Inr (Inr x), l) \<and> f x l = (Inr y, log'))"
  by (auto simp: orPanic_def andThen_def split: prod.splits sum.splits)

lemma deferred_ok [start_ok]:
  "deferred r m log = (Inr y, log') \<longleftrightarrow> (\<exists>l. m log = (Inr y, l) \<and> log' = l @ [Closed_resource r])"
  by (auto simp: deferred_def split: prod.splits)

lemma checked_ok [start_ok]: "checked p = Inr x \<longleftrightarrow> p = (x, None)" "Inr x = checked p \<longleftrightarrow> p = (x, None)"
  by (cases p rule: checked.cases; auto)+

text \<open>The options of a client and what it takes to make one.\<close>

definition kafka_opts :: "ServerConfig \<Rightarrow> kgo_opt list \<Rightarrow> kgo_opt list" where
  "kafka_opts sc config = [SeedBrokers (sc_Servers sc), WithLogger] @ config @
     (if sc_UseTelemetry sc then [WithHooks] else []) @
     (if sc_ScramAlgorithm sc \<noteq> [] then [scram_option sc] else []) @ (if sc_TLS sc then [DialTLS] else [])"

definition client_plan :: "ServerConfig \<Rightarrow> kgo_opt list \<Rightarrow> attempt list" where
  "client_plan sc config =
     (if sc_UseTelemetry sc then [MetricExporter, TraceExporter] else []) @ [NewClient (kafka_opts sc config)]"

definition pinged_plan :: "ServerConfig \<Rightarrow> kgo_opt list \<Rightarrow> attempt list" where
  "pinged_plan sc config = client_plan sc config @ [PingBrokers (kafka_opts sc config)]"

lemma NewKafkaClient_ok [start_ok]:
  "NewKafkaClient ans sc config log = (Inr (Inr x), log') \<longleftrightarrow>
     accepts ans log (client_plan sc config) \<and> x = kafka_opts sc config \<and> log' = log @ tried (client_plan sc config)"
  by (cases "sc_UseTelemetry sc")
    (auto simp: NewKafkaClient_def client_plan_def kafka_opts_def initMeterProvider_def initTracerProvider_def
      Let_def start_ok)

lemma initProducer_ok [start_ok]:
  "initProducer ans env sc t log = (Inr (Inr x), log') \<longleftrightarrow>
     env t \<noteq> [] \<and> accepts ans log (pinged_plan sc []) \<and> x = \<lparr>sp_client = kafka_opts sc [], sp_topic = env t\<rparr> \<and>
     log' = log @ tried (pinged_plan sc [])"
  by (auto simp: initProducer_def new_producer_def Ping_def pinged_plan_def Let_def start_ok)

lemma new_group_ok [start_ok]:
  "new_group ans sc g t log = (Inr (Inr x), log') \<longleftrightarrow>
     accepts ans log (pinged_plan sc (group_options g t)) \<and> x = kafka_opts sc (group_options g t) \<and>
     log' = log @ tried (pinged_plan sc (group_options g t))"
  by (auto simp: new_group_def pinged_plan_def start_ok)

lemma NewConnection_ok [start_ok]:
  "NewConnection ans dc log = (Inr (Inr x), log') \<longleftrightarrow>
     accepts ans log [ParsePoolConfig (dc_Url dc), NewPool (dc_Url dc) (dc_MaxConns dc), OpenGorm] \<and>
     log' = log @ tried [ParsePoolConfig (dc_Url dc), NewPool (dc_Url dc) (dc_MaxConns dc), OpenGorm]"
  by (auto simp: NewConnection_def OpenConnection_def start_ok)

lemma NewRedisDB_ok [start_ok]:
  "\<not> rc_UseTracer rc \<Longrightarrow> NewRedisDB ans rc log = (Inr (Inr x), log') \<longleftrightarrow>
     ans log (PingRedis (redis_options_of rc)) = Fine \<and> x = redis_options_of rc \<and>
     log' = log @ [Tried (PingRedis (redis_options_of rc)) Fine]"
  by (auto simp: NewRedisDB_def Let_def start_ok)

lemma no_tracer [simp]: "\<not> rc_UseTracer (store_config env n)" "\<not> rc_UseTracer (cache_config env n)"
  by (simp_all add: store_config_def cache_config_def)

lemma initFlagStore_ok [start_ok]:
  "initFlagStore ans env name log = (Inr (Inr x), log') \<longleftrightarrow>
     (\<exists>n. GetEnvAsInt env envLagoRedisStoreDB 0 = (n, None) \<and>
        ans log (PingRedis (redis_options_of (store_config env n))) = Fine \<and>
        x = (redis_options_of (store_config env n), name) \<and>
        log' = log @ [Tried (PingRedis (redis_options_of (store_config env n))) Fine])"
  by (auto simp: initFlagStore_def start_ok)

lemma initChargeCacheStore_ok [start_ok]:
  "initChargeCacheStore ans env log = (Inr (Inr x), log') \<longleftrightarrow>
     (\<exists>n. GetEnvAsInt env envLagoRedisCacheDB 0 = (n, None) \<and>
        ans log (PingRedis (redis_options_of (cache_config env n))) = Fine \<and>
        x = redis_options_of (cache_config env n) \<and>
        log' = log @ [Tried (PingRedis (redis_options_of (cache_config env n))) Fine])"
  by (auto simp: initChargeCacheStore_def start_ok)

subsection \<open>The plan of a start\<close>

text \<open>The integers of the configuration are in order, the brokers and the four topics of the producers are set.\<close>

definition configured :: "environment \<Rightarrow> bool" where
  "configured env \<longleftrightarrow> env envLagoKafkaBootstrapServers \<noteq> [] \<and>
     (\<forall>t \<in> {envLagoKafkaEnrichedEventsTopic, envLagoKafkaEnrichedEventsExpandedTopic,
        envLagoKafkaEventsChargedInAdvanceTopic, envLagoKafkaEventsDeadLetterTopic}. env t \<noteq> []) \<and>
     snd (GetEnvAsInt env envLagoEventsProcessorDatabaseMaxConnections 200) = None \<and>
     snd (GetEnvAsInt env envLagoRedisStoreDB 0) = None \<and> snd (GetEnvAsInt env envLagoRedisCacheDB 0) = None"

definition store_redis :: "environment \<Rightarrow> redis_options" where
  "store_redis env = redis_options_of (store_config env (fst (GetEnvAsInt env envLagoRedisStoreDB 0)))"

definition cache_redis :: "environment \<Rightarrow> redis_options" where
  "cache_redis env = redis_options_of (cache_config env (fst (GetEnvAsInt env envLagoRedisCacheDB 0)))"

definition max_conns :: "environment \<Rightarrow> int" where
  "max_conns env = int32 (fst (GetEnvAsInt env envLagoEventsProcessorDatabaseMaxConnections 200))"

definition group_of :: "environment \<Rightarrow> kgo_opt list" where
  "group_of env = group_options (env envLagoKafkaConsumerGroup) (env envLagoKafkaRawEventsTopic)"

definition startup_plan :: "environment \<Rightarrow> bool \<Rightarrow> attempt list" where
  "startup_plan env tel =
     concat (replicate 4 (pinged_plan (kafka_config env tel) [])) @
     [ParsePoolConfig (env ''DATABASE_URL''), NewPool (env ''DATABASE_URL'') (max_conns env), OpenGorm,
      PingRedis (store_redis env), PingRedis (cache_redis env)] @
     pinged_plan (kafka_config env tel) (group_of env)"

definition startup_wiring :: "environment \<Rightarrow> bool \<Rightarrow> wiring" where
  "startup_wiring env tel =
     \<lparr>w_topics = \<lparr>tp_enriched = env envLagoKafkaEnrichedEventsTopic,
        tp_expanded = env envLagoKafkaEnrichedEventsExpandedTopic,
        tp_in_advance = env envLagoKafkaEventsChargedInAdvanceTopic,
        tp_dead_letter = env envLagoKafkaEventsDeadLetterTopic\<rparr>,
      w_flags = (store_redis env, ''subscription_refreshed''), w_cache = cache_redis env,
      w_group = kafka_opts (kafka_config env tel) (group_of env)\<rparr>"

lemma servers_iff: "sc_Servers (kafka_config env tel) = [] \<longleftrightarrow> env envLagoKafkaBootstrapServers = []"
  by (simp add: kafka_config_def ParseBrokersEnv_def)

lemma pair_None: "p = (x, None) \<longleftrightarrow> snd p = None \<and> x = fst p"
  by (cases p) auto

text \<open>The starts that succeed, after any attempts.\<close>

lemma start_from:
  "StartProcessingEvents ans env tel log0 = (Inr w, log) \<longleftrightarrow>
     configured env \<and> accepts ans log0 (startup_plan env tel) \<and> w = startup_wiring env tel \<and>
     log = log0 @ tried (startup_plan env tel) @
       [StartGroup (w_group w), Closed_resource (RedisClient (cache_redis env)),
        Closed_resource (RedisClient (store_redis env)), Closed_resource DatabasePool]"
proof (cases "env envLagoKafkaBootstrapServers = []")
  case True
  then show ?thesis
    by (simp add: StartProcessingEvents_def Let_def servers_iff configured_def start_ok)
next
  case False
  then show ?thesis
    by (auto simp: StartProcessingEvents_def Let_def servers_iff configured_def start_ok startup_plan_def
      startup_wiring_def store_redis_def cache_redis_def max_conns_def group_of_def pair_None
      numeral_eq_Suc)
qed

section \<open>What is opened and closed\<close>

text \<open>
  The pool of the database is open from \<open>pgxpool.NewWithConfig\<close> on, and a Redis client from \<open>redis.NewClient\<close>
  on, whose first use is the ping. What is tried on one that is open may fail, and then its
  constructor returns without it: it is left.
\<close>

fun opens_of :: "event \<Rightarrow> resource list" where
  "opens_of (Tried (NewPool url n) Fine) = [DatabasePool]"
| "opens_of (Tried (PingRedis ro) r) = [RedisClient ro]"
| "opens_of _ = []"

fun closes_of :: "event \<Rightarrow> resource list" where
  "closes_of (Closed_resource r) = [r]"
| "closes_of _ = []"

fun leaves_of :: "event \<Rightarrow> resource list" where
  "leaves_of (Tried OpenGorm r) = (if r = Fine then [] else [DatabasePool])"
| "leaves_of (Tried (PingRedis ro) r) = (if r = Fine then [] else [RedisClient ro])"
| "leaves_of (Tried (InstrumentTracing ro) r) = (if r = Fine then [] else [RedisClient ro])"
| "leaves_of _ = []"

definition opened :: "trace \<Rightarrow> resource list" where
  "opened log = concat (map opens_of log)"

definition closings :: "trace \<Rightarrow> resource list" where
  "closings log = concat (map closes_of log)"

definition left_open :: "trace \<Rightarrow> resource list" where
  "left_open log = concat (map leaves_of log)"

lemma opened_simps [simp]:
  "opened [] = []" "opened (e # log) = opens_of e @ opened log" "opened (log @ log') = opened log @ opened log'"
  "opened (map Reported es) = []"
  by (simp_all add: opened_def comp_def)

lemma closings_simps [simp]:
  "closings [] = []" "closings (e # log) = closes_of e @ closings log"
  "closings (log @ log') = closings log @ closings log'" "closings (map Reported es) = []"
  by (simp_all add: closings_def comp_def)

lemma left_open_simps [simp]:
  "left_open [] = []" "left_open (e # log) = leaves_of e @ left_open log"
  "left_open (log @ log') = left_open log @ left_open log'" "left_open (map Reported es) = []"
  by (simp_all add: left_open_def comp_def)

text \<open>
  An operation that closes nothing and opens \<open>R x\<close> when it gives \<open>x\<close>, else leaves the one thing that it
  opened, if any; and a computation that closes what it opens, but for the one thing that it left when
  it panics.
\<close>

definition opens :: "(goerror + 'a) go \<Rightarrow> ('a \<Rightarrow> resource list) \<Rightarrow> bool" where
  "opens m R \<longleftrightarrow> (\<forall>log. \<exists>es. snd (m log) = log @ es \<and> closings es = [] \<and>
     (case fst (m log) of
        Inr (Inr x) \<Rightarrow> opened es = R x \<and> left_open es = []
      | _ \<Rightarrow> opened es = left_open es \<and> length (left_open es) \<le> 1))"

definition balanced :: "'a go \<Rightarrow> bool" where
  "balanced m \<longleftrightarrow> (\<forall>log. \<exists>es. snd (m log) = log @ es \<and> opened es = rev (closings es) @ left_open es \<and>
     (if isl (fst (m log)) then length (left_open es) \<le> 1 else left_open es = []))"

lemma opens_ret: "opens (ret (Inr x)) (\<lambda>_. [])" "opens (ret (Inl e)) R"
  by (simp_all add: opens_def ret_def)

lemma opens_checked: "opens (ret (checked p)) (\<lambda>_. [])"
  by (cases p rule: checked.cases) (simp_all add: opens_def ret_def)

lemma opens_try:
  "opens_of (Tried a Fine) = rs \<Longrightarrow> a \<notin> insert OpenGorm (range InstrumentTracing) \<Longrightarrow> opens (try_it ans a) (\<lambda>_. rs)"
  by (cases a) (auto simp: opens_def try_it_def split: reply.split)

lemma opens_orReturn:
  assumes "opens m (\<lambda>_. [])" and "\<And>x. opens (f x) R"
  shows "opens (orReturn m f) R"
  unfolding opens_def
proof
  fix log
  obtain r log' where m: "m log = (r, log')" by (cases "m log")
  note es = assms(1) [unfolded opens_def, rule_format, of log]
  let ?g = "orReturn m f log"
  show "\<exists>es. snd ?g = log @ es \<and> closings es = [] \<and>
      (case fst ?g of Inr (Inr x) \<Rightarrow> opened es = R x \<and> left_open es = []
       | _ \<Rightarrow> opened es = left_open es \<and> length (left_open es) \<le> 1)"
  proof (cases "\<exists>x. r = Inr (Inr x)")
    case True
    then obtain x es0 where r: "r = Inr (Inr x)" and es0: "log' = log @ es0" "closings es0 = []" "opened es0 = []" "left_open es0 = []"
      using es m by auto
    have g: "?g = f x log'" using m r by (simp add: orReturn_def andThen_def)
    obtain es' where "snd (f x log') = log' @ es'" "closings es' = []"
      "case fst (f x log') of Inr (Inr x) \<Rightarrow> opened es' = R x \<and> left_open es' = []
       | _ \<Rightarrow> opened es' = left_open es' \<and> length (left_open es') \<le> 1"
      using assms(2) [of x, unfolded opens_def, rule_format, of log'] by blast
    then show ?thesis unfolding g using es0
      by (intro exI [of _ "es0 @ es'"]) (simp split: sum.splits)
  next
    case False
    then show ?thesis using es m by (auto simp: orReturn_def andThen_def ret_def split: sum.splits)
  qed
qed

text \<open>A value that is passed on with more around it.\<close>

lemma opens_map:
  assumes "opens m (\<lambda>x. R (g x))"
  shows "opens (orReturn m (\<lambda>x. ret (Inr (g x)))) R"
  unfolding opens_def
proof
  fix log
  obtain r log' where m: "m log = (r, log')" by (cases "m log")
  let ?g = "orReturn m (\<lambda>x. ret (Inr (g x))) log"
  show "\<exists>es. snd ?g = log @ es \<and> closings es = [] \<and>
      (case fst ?g of Inr (Inr x) \<Rightarrow> opened es = R x \<and> left_open es = []
       | _ \<Rightarrow> opened es = left_open es \<and> length (left_open es) \<le> 1)"
    using assms [unfolded opens_def, rule_format, of log] m
    by (auto simp: orReturn_def andThen_def ret_def split: sum.splits)
qed

lemma balanced_orPanic:
  assumes "opens m (\<lambda>_. [])" and "\<And>x. balanced (f x)"
  shows "balanced (orPanic m message f)"
  unfolding balanced_def
proof
  fix log
  obtain r log' where m: "m log = (r, log')" by (cases "m log")
  note es = assms(1) [unfolded opens_def, rule_format, of log]
  let ?g = "orPanic m message f log"
  show "\<exists>es. snd ?g = log @ es \<and> opened es = rev (closings es) @ left_open es \<and>
      (if isl (fst ?g) then length (left_open es) \<le> 1 else left_open es = [])"
  proof (cases "\<exists>x. r = Inr (Inr x)")
    case True
    then obtain x es0 where r: "r = Inr (Inr x)" and es0: "log' = log @ es0" "closings es0 = []" "opened es0 = []" "left_open es0 = []"
      using es m by auto
    have g: "?g = f x log'" using m r by (simp add: orPanic_def andThen_def)
    obtain es' where "snd (f x log') = log' @ es'" "opened es' = rev (closings es') @ left_open es'"
      "if isl (fst (f x log')) then length (left_open es') \<le> 1 else left_open es' = []"
      using assms(2) [of x, unfolded balanced_def, rule_format, of log'] by blast
    then show ?thesis unfolding g using es0 by (intro exI [of _ "es0 @ es'"]) (simp split: if_splits)
  next
    case False
    then show ?thesis using es m
      by (auto simp: orPanic_def andThen_def LogAndPanic_def CaptureError_def split: sum.splits)
  qed
qed

lemma balanced_deferred:
  assumes "opens m (\<lambda>x. [R x])" and "\<And>x. balanced (f x)"
  shows "balanced (orPanic m message (\<lambda>x. deferred (R x) (f x)))"
  unfolding balanced_def
proof
  fix log
  obtain r log' where m: "m log = (r, log')" by (cases "m log")
  note es = assms(1) [unfolded opens_def, rule_format, of log]
  let ?g = "orPanic m message (\<lambda>x. deferred (R x) (f x)) log"
  show "\<exists>es. snd ?g = log @ es \<and> opened es = rev (closings es) @ left_open es \<and>
      (if isl (fst ?g) then length (left_open es) \<le> 1 else left_open es = [])"
  proof (cases "\<exists>x. r = Inr (Inr x)")
    case True
    then obtain x es0 where r: "r = Inr (Inr x)" and es0: "log' = log @ es0" "closings es0 = []" "opened es0 = [R x]" "left_open es0 = []"
      using es m by auto
    have g: "?g = deferred (R x) (f x) log'" using m r by (simp add: orPanic_def andThen_def)
    obtain es' where "snd (f x log') = log' @ es'" "opened es' = rev (closings es') @ left_open es'"
      "if isl (fst (f x log')) then length (left_open es') \<le> 1 else left_open es' = []"
      using assms(2) [of x, unfolded balanced_def, rule_format, of log'] by blast
    then show ?thesis unfolding g using es0
      by (intro exI [of _ "es0 @ es' @ [Closed_resource (R x)]"]) (auto simp: deferred_def split: prod.split if_splits)
  next
    case False
    then show ?thesis using es m
      by (auto simp: orPanic_def andThen_def LogAndPanic_def CaptureError_def split: sum.splits)
  qed
qed

lemma opens_client: "opens (NewKafkaClient ans sc config) (\<lambda>_. [])"
  unfolding NewKafkaClient_def initMeterProvider_def initTracerProvider_def Let_def
  by (auto intro!: opens_orReturn opens_try opens_ret)

lemma opens_producer: "opens (initProducer ans env sc t) (\<lambda>_. [])"
  unfolding initProducer_def new_producer_def Ping_def Let_def
  by (auto intro!: opens_orReturn opens_client opens_try opens_ret)

lemma opens_group: "opens (new_group ans sc g t) (\<lambda>_. [])"
  unfolding new_group_def by (intro opens_orReturn opens_client opens_try opens_ret) auto

text \<open>The pool is left when gorm refuses it.\<close>

lemma opens_pool:
  "opens (orReturn (try_it ans (NewPool url n)) (\<lambda>_. OpenConnection ans)) (\<lambda>_. [DatabasePool])"
  by (auto simp: opens_def OpenConnection_def orReturn_def andThen_def ret_def try_it_def split: reply.split)

lemma opens_connection: "opens (NewConnection ans dc) (\<lambda>_. [DatabasePool])"
  unfolding NewConnection_def by (intro opens_orReturn opens_pool opens_try) auto

lemma opens_redis: "\<not> rc_UseTracer rc \<Longrightarrow> opens (NewRedisDB ans rc) (\<lambda>ro. [RedisClient ro])"
  by (auto simp: opens_def NewRedisDB_def Let_def orReturn_def andThen_def ret_def try_it_def split: reply.split)

lemma opens_flag_store: "opens (initFlagStore ans env name) (\<lambda>x. [RedisClient (fst x)])"
  unfolding initFlagStore_def by (intro opens_orReturn opens_checked opens_map) (simp add: opens_redis)

lemma opens_cache_store: "opens (initChargeCacheStore ans env) (\<lambda>ro. [RedisClient ro])"
  unfolding initChargeCacheStore_def by (intro opens_orReturn opens_checked opens_map) (simp add: opens_redis)

lemma balanced_end: "balanced (andThen (note_event (StartGroup cg)) (\<lambda>_. ret w))"
  by (simp add: balanced_def andThen_def note_event_def ret_def)

lemma balanced_start: "balanced (StartProcessingEvents ans env tel)"
proof (cases "sc_Servers (kafka_config env tel) = []")
  case True
  then show ?thesis
    by (simp add: StartProcessingEvents_def Let_def balanced_def andThen_def note_event_def throw_def)
next
  case False
  then show ?thesis
    unfolding StartProcessingEvents_def Let_def if_not_P [OF False]
    by (intro balanced_orPanic [OF opens_producer] balanced_orPanic [OF opens_checked]
      balanced_deferred [OF opens_connection] balanced_deferred [OF opens_flag_store]
      balanced_deferred [OF opens_cache_store] balanced_orPanic [OF opens_group] balanced_end)
qed

section \<open>The pools that are tried\<close>

text \<open>Whatever an operation adds to the trace satisfies \<open>P\<close>.\<close>

definition emits :: "(event \<Rightarrow> bool) \<Rightarrow> 'a go \<Rightarrow> bool" where
  "emits P m \<longleftrightarrow> (\<forall>log. \<exists>es. snd (m log) = log @ es \<and> (\<forall>e \<in> set es. P e))"

lemma emits_ret: "emits P (ret x)"
  by (simp add: emits_def ret_def)

lemma emits_note: "P e \<Longrightarrow> emits P (note_event e)"
  by (simp add: emits_def note_event_def)

lemma emits_try: "(\<And>r. P (Tried a r)) \<Longrightarrow> emits P (try_it ans a)"
  by (simp add: emits_def try_it_def split: reply.split)

lemma emits_andThen: "emits P m \<Longrightarrow> (\<And>x. emits P (f x)) \<Longrightarrow> emits P (andThen m f)"
  unfolding emits_def
proof
  fix log assume m: "\<forall>log. \<exists>es. snd (m log) = log @ es \<and> (\<forall>e \<in> set es. P e)"
    and f: "\<And>x. \<forall>log. \<exists>es. snd (f x log) = log @ es \<and> (\<forall>e \<in> set es. P e)"
  obtain es where es: "snd (m log) = log @ es" "\<forall>e \<in> set es. P e" using m by blast
  show "\<exists>es. snd (andThen m f log) = log @ es \<and> (\<forall>e \<in> set es. P e)"
  proof (cases "fst (m log)")
    case (Inl p)
    then show ?thesis using es by (cases "m log") (simp add: andThen_def)
  next
    case (Inr x)
    obtain es' where "snd (f x (log @ es)) = (log @ es) @ es'" "\<forall>e \<in> set es'. P e" using f by blast
    then show ?thesis using es Inr by (cases "m log") (auto simp: andThen_def)
  qed
qed

lemma emits_orReturn: "emits P m \<Longrightarrow> (\<And>x. emits P (f x)) \<Longrightarrow> emits P (orReturn m f)"
  unfolding orReturn_def by (rule emits_andThen) (auto simp: emits_ret split: sum.split)

lemma emits_panic: "(\<And>e. P (Reported e)) \<Longrightarrow> emits P (\<lambda>log. (Inl p, log @ map Reported reports))"
  by (auto simp: emits_def)

lemma emits_orPanic:
  "emits P m \<Longrightarrow> (\<And>e. P (Reported e)) \<Longrightarrow> (\<And>x. emits P (f x)) \<Longrightarrow> emits P (orPanic m message f)"
  unfolding orPanic_def by (rule emits_andThen) (auto simp: Let_def emits_panic split: sum.split prod.split)

lemma emits_checked:
  "(\<And>e. P (Reported e)) \<Longrightarrow> (\<And>x. checked p = Inr x \<Longrightarrow> emits P (f x)) \<Longrightarrow> emits P (orPanic (ret (checked p)) message f)"
  unfolding orPanic_def
  by (cases "checked p") (auto simp: emits_def andThen_def ret_def Let_def split: prod.split)

lemma emits_deferred:
  assumes "P (Closed_resource r)" and "emits P m"
  shows "emits P (deferred r m)"
  unfolding emits_def
proof
  fix log
  obtain es where "snd (m log) = log @ es" "\<forall>e \<in> set es. P e" using assms(2) unfolding emits_def by blast
  then show "\<exists>es. snd (deferred r m log) = log @ es \<and> (\<forall>e \<in> set es. P e)"
    using assms(1) by (intro exI [of _ "es @ [Closed_resource r]"]) (simp add: deferred_def Let_def split_beta)
qed

lemmas emits_intros = emits_orReturn emits_ret emits_try

lemma emits_client:
  "(\<And>a r. \<forall>u n. a \<noteq> NewPool u n \<Longrightarrow> P (Tried a r)) \<Longrightarrow> emits P (NewKafkaClient ans sc config)"
  unfolding NewKafkaClient_def initMeterProvider_def initTracerProvider_def Let_def
  by (auto intro!: emits_intros)

text \<open>Every pool that a start tries is that of the address and the number of connections configured.\<close>

definition pool_ok :: "environment \<Rightarrow> event \<Rightarrow> bool" where
  "pool_ok env e \<longleftrightarrow> (\<forall>url k r. e = Tried (NewPool url k) r \<longrightarrow> url = env ''DATABASE_URL'' \<and>
     k = int32 (fst (GetEnvAsInt env envLagoEventsProcessorDatabaseMaxConnections 200)))"

lemma pool_ok_other [simp]:
  "\<forall>u n. a \<noteq> NewPool u n \<Longrightarrow> pool_ok env (Tried a r)" "pool_ok env (Reported e)"
  "pool_ok env (StartGroup cg)" "pool_ok env (Closed_resource x)"
  by (auto simp: pool_ok_def)

lemma pools_start: "emits (pool_ok env) (StartProcessingEvents ans env tel)"
proof -
  have client: "emits (pool_ok env) (NewKafkaClient ans sc config)" for sc config by (rule emits_client) auto
  have producer: "emits (pool_ok env) (initProducer ans env sc t)" for sc t
    unfolding initProducer_def new_producer_def Ping_def Let_def by (auto intro!: emits_intros client)
  have group: "emits (pool_ok env) (new_group ans sc g t)" for sc g t
    unfolding new_group_def by (auto intro!: emits_intros client)
  have redis: "emits (pool_ok env) (NewRedisDB ans rc)" for rc
    unfolding NewRedisDB_def Let_def by (auto intro!: emits_intros)
  have stores: "emits (pool_ok env) (initFlagStore ans env name)" "emits (pool_ok env) (initChargeCacheStore ans env)" for name
    unfolding initFlagStore_def initChargeCacheStore_def by (auto intro!: emits_intros redis)
  have connection: "emits (pool_ok env) (NewConnection ans \<lparr>dc_Url = env ''DATABASE_URL'', dc_MaxConns = int32 n\<rparr>)"
    if "checked (GetEnvAsInt env envLagoEventsProcessorDatabaseMaxConnections 200) = Inr n" for n
    using that unfolding NewConnection_def OpenConnection_def
    by (cases "GetEnvAsInt env envLagoEventsProcessorDatabaseMaxConnections 200" rule: checked.cases)
      (auto intro!: emits_intros simp: pool_ok_def)
  show ?thesis
  proof (cases "sc_Servers (kafka_config env tel) = []")
    case True
    then show ?thesis unfolding StartProcessingEvents_def Let_def
      by (simp add: emits_def andThen_def note_event_def throw_def)
  next
    case False
    show ?thesis
      unfolding StartProcessingEvents_def Let_def if_not_P [OF False]
      by (intro emits_orPanic [OF producer] emits_checked emits_orPanic [OF connection] emits_orPanic [OF stores(1)]
        emits_orPanic [OF stores(2)] emits_orPanic [OF group] emits_deferred emits_andThen emits_note emits_ret) simp_all
  qed
qed

section \<open>Sample data\<close>

text \<open>Brokers and the topics of the producers are named; the topic and the name of the group are not.\<close>

definition sample_env :: environment where
  "sample_env v =
     (if v = envLagoKafkaBootstrapServers then ''redpanda:9092''
      else if v \<in> {envLagoKafkaEnrichedEventsTopic, envLagoKafkaEnrichedEventsExpandedTopic,
        envLagoKafkaEventsChargedInAdvanceTopic, envLagoKafkaEventsDeadLetterTopic} then ''out''
      else [])"

lemmas env_names = envEnv_def envLagoEventsProcessorDatabaseMaxConnections_def envLagoKafkaBootstrapServers_def
  envLagoKafkaConsumerGroup_def envLagoKafkaEnrichedEventsExpandedTopic_def envLagoKafkaEnrichedEventsTopic_def
  envLagoKafkaEventsChargedInAdvanceTopic_def envLagoKafkaEventsDeadLetterTopic_def envLagoKafkaPassword_def
  envLagoKafkaRawEventsTopic_def envLagoKafkaScramAlgorithm_def envLagoKafkaTLS_def envLagoKafkaUsername_def
  envLagoRedisCacheDB_def envLagoRedisCachePassword_def envLagoRedisCacheURL_def envLagoRedisCacheTLS_def
  envLagoRedisStoreDB_def envLagoRedisStorePassword_def envLagoRedisStoreURL_def envLagoRedisStoreTLS_def

lemma sample_configured: "configured sample_env"
  by (simp add: configured_def sample_env_def GetEnvAsInt_def env_names)

text \<open>The number of connections may be any number of 64 bits.\<close>

lemma configured_upd:
  assumes "v = show_int n" and "- (2 ^ 63) \<le> n" and "n < 2 ^ 63" and "configured env"
  shows "configured (env(envLagoEventsProcessorDatabaseMaxConnections := v))"
proof -
  have v: "v \<noteq> []" "Atoi v = Inr n" using Atoi_show_int [OF assms(2,3)] by (simp_all add: assms(1) show_int_def)
  show ?thesis using assms(4) v by (simp add: configured_def GetEnvAsInt_def env_names)
qed

lemma accepts_Fine: "accepts (\<lambda>log a. Fine) log as"
  by (induction "\<lambda>(log :: trace) (a :: attempt). Fine" log as rule: accepts.induct) auto

lemma kafka_client_tried:
  "Tried (NewClient opts) r \<in> set (snd (NewKafkaClient ans sc config [])) \<Longrightarrow> opts = kafka_opts sc config"
  by (cases "sc_UseTelemetry sc")
    (auto simp: NewKafkaClient_def Let_def initMeterProvider_def initTracerProvider_def orReturn_def andThen_def
      ret_def try_it_def kafka_opts_def split: reply.splits prod.splits sum.splits if_splits)

lemma int32_range: "- (2 ^ 31) \<le> int32 n \<and> int32 n < 2 ^ 31"
  using pos_mod_bound [of "2 ^ 32" "n + 2 ^ 31"] pos_mod_sign [of "2 ^ 32" "n + 2 ^ 31"] by (simp add: int32_def)

lemma int32_id: "- (2 ^ 31) \<le> n \<Longrightarrow> n < 2 ^ 31 \<Longrightarrow> int32 n = n"
  by (simp add: int32_def)

lemma int32_mod: "int32 n mod 2 ^ 32 = n mod 2 ^ 32"
  by (simp add: int32_def mod_simps)

section \<open>Properties\<close>

text \<open>
  C28: a start succeeds just when the brokers, the four topics of the producers and the integers of
  the configuration are in order and every attempt of the plan is accepted: four producers made and
  pinged, the database, the flag store, the cache, the consumer group, in this order and nothing else.
  Then the processor is wired to what the environment names, and at the end, when the group has
  stopped, the cache, the flag store and the database are closed, the last opened first.
\<close>

theorem start_succeeds_iff:
  "StartProcessingEvents ans env tel [] = (Inr w, log) \<longleftrightarrow>
     configured env \<and> accepts ans [] (startup_plan env tel) \<and> w = startup_wiring env tel \<and>
     log = tried (startup_plan env tel) @
       [StartGroup (w_group w), Closed_resource (RedisClient (cache_redis env)),
        Closed_resource (RedisClient (store_redis env)), Closed_resource DatabasePool]"
  using start_from [of ans env tel "[]"] by simp


text \<open>
  A start that nothing but the topic and the name of the group are missing for goes through: the
  group then subscribes to the topic with the empty name.
\<close>

theorem start_succeeds_iff_witness:
  "\<exists>w log. StartProcessingEvents (\<lambda>log a. Fine) sample_env False [] = (Inr w, log) \<and>
     ConsumeTopics [[]] \<in> set (w_group w) \<and> GroupName ''_'' \<in> set (w_group w)"
proof -
  let ?w = "startup_wiring sample_env False"
  have "StartProcessingEvents (\<lambda>log a. Fine) sample_env False [] = (Inr ?w, tried (startup_plan sample_env False) @
      [StartGroup (w_group ?w), Closed_resource (RedisClient (cache_redis sample_env)),
       Closed_resource (RedisClient (store_redis sample_env)), Closed_resource DatabasePool])"
    by (subst start_succeeds_iff) (simp add: sample_configured accepts_Fine)
  moreover have "group_of sample_env = group_options [] []"
    by (simp add: group_of_def sample_env_def env_names)
  then have "ConsumeTopics [[]] \<in> set (w_group ?w)" "GroupName ''_'' \<in> set (w_group ?w)"
    by (simp_all add: startup_wiring_def kafka_opts_def group_options_def)
  ultimately show ?thesis by blast
qed

text \<open>
  C29: however a start ends, what it opened of the database pool and the Redis clients is closed, each once
  and the last opened first, and nothing else is; but when it panics because the last one that it
  opened does not answer (gorm refuses the pool, the ping of a Redis client fails), that one is left
  open: its constructor has returned without it.
\<close>

theorem start_closes_what_it_opens:
  "let (r, log) = StartProcessingEvents ans env tel []
   in opened log = rev (closings log) @ left_open log \<and>
      (if isl r then length (left_open log) \<le> 1 else left_open log = [])"
  using balanced_start [unfolded balanced_def, rule_format, of ans env tel "[]"] by (auto split: prod.split)

text \<open>
  C31: the options of every Kafka client that is tried: the brokers, all that was asked for, TLS just
  when it is configured, and the SASL mechanism for the two algorithms that are known. Any other name
  of an algorithm puts a \<open>nil\<close> into the list of options.
\<close>

theorem kafka_client_options:
  assumes "Tried (NewClient opts) r \<in> set (snd (NewKafkaClient ans sc config []))"
    and "NilOpt \<notin> set config" and "DialTLS \<notin> set config" and "\<forall>m u p. SASL m u p \<notin> set config"
  shows "SeedBrokers (sc_Servers sc) \<in> set opts \<and> set config \<subseteq> set opts \<and> (DialTLS \<in> set opts \<longleftrightarrow> sc_TLS sc) \<and>
    (SASL m u p \<in> set opts \<longleftrightarrow> m = sc_ScramAlgorithm sc \<and> m \<in> {''SCRAM-SHA-256'', ''SCRAM-SHA-512''} \<and>
       u = sc_UserName sc \<and> p = sc_Password sc) \<and>
    (NilOpt \<in> set opts \<longleftrightarrow> sc_ScramAlgorithm sc \<notin> {[], ''SCRAM-SHA-256'', ''SCRAM-SHA-512''})"
  using assms(2-4) unfolding kafka_client_tried [OF assms(1)]
  by (auto simp: kafka_opts_def scram_option_def Scram256_def Scram512_def)

theorem kafka_client_options_witness:
  "\<exists>opts. Tried (NewClient opts) Fine \<in> set (snd (NewKafkaClient (\<lambda>log a. Fine)
       \<lparr>sc_ScramAlgorithm = ''PLAIN'', sc_TLS = True, sc_Servers = [''a:1''], sc_UseTelemetry = False,
        sc_UserName = ''u'', sc_Password = ''p''\<rparr> [] [])) \<and> NilOpt \<in> set opts \<and> DialTLS \<in> set opts"
proof -
  let ?sc = "\<lparr>sc_ScramAlgorithm = ''PLAIN'', sc_TLS = True, sc_Servers = [''a:1''], sc_UseTelemetry = False,
        sc_UserName = ''u'', sc_Password = ''p''\<rparr>"
  have t: "Tried (NewClient (kafka_opts ?sc [])) Fine \<in> set (snd (NewKafkaClient (\<lambda>log a. Fine) ?sc [] []))"
    by (simp add: NewKafkaClient_def Let_def orReturn_def andThen_def ret_def try_it_def kafka_opts_def
      scram_option_def Scram256_def Scram512_def)
  from kafka_client_options [OF t] have "NilOpt \<in> set (kafka_opts ?sc [])" "DialTLS \<in> set (kafka_opts ?sc [])"
    by simp_all
  with t show ?thesis by blast
qed

text \<open>
  C34: the size of the database pool. Whenever a start tries to make the pool, with a number configured, the
  size it asks for always fits the \<open>int32\<close> of pgx, but it is the configured number only within that range:
  beyond it the number is cut to its low 32 bits without an error, so that 2^32 connections are none.
\<close>

theorem pool_size:
  assumes "env envLagoEventsProcessorDatabaseMaxConnections = show_int n" and "- (2 ^ 63) \<le> n" and "n < 2 ^ 63"
    and "Tried (NewPool url k) r \<in> set (snd (StartProcessingEvents ans env tel []))"
  shows "url = env ''DATABASE_URL'' \<and> - (2 ^ 31) \<le> k \<and> k < 2 ^ 31 \<and> k mod 2 ^ 32 = n mod 2 ^ 32 \<and>
    (k = n \<longleftrightarrow> - (2 ^ 31) \<le> n \<and> n < 2 ^ 31)"
proof -
  have "show_int n \<noteq> []" by (simp add: show_int_def)
  then have g: "GetEnvAsInt env envLagoEventsProcessorDatabaseMaxConnections 200 = (n, None)"
    using Atoi_show_int [OF assms(2,3)] by (simp add: GetEnvAsInt_def assms(1))
  have "url = env ''DATABASE_URL'' \<and> k = int32 n"
    using pools_start [of env ans tel, unfolded emits_def, rule_format, of "[]"] assms(4)
    by (auto simp: pool_ok_def g)
  moreover have "int32 n = n \<longleftrightarrow> - (2 ^ 31) \<le> n \<and> n < 2 ^ 31" using int32_range [of n] int32_id [of n] by linarith
  ultimately show ?thesis using int32_range [of n] int32_mod [of n] by simp
qed

text \<open>A start whose environment asks for 2^32 connections tries a pool for none.\<close>

theorem pool_size_witness:
  "\<exists>k. Tried (NewPool [] k) Fine \<in> set (snd (StartProcessingEvents (\<lambda>log a. Fine)
     (sample_env(envLagoEventsProcessorDatabaseMaxConnections := show_int (2 ^ 32))) False [])) \<and> k \<noteq> 2 ^ 32 \<and> k mod 2 ^ 32 = 0"
proof -
  let ?v = "show_int (2 ^ 32)" and ?max = envLagoEventsProcessorDatabaseMaxConnections
  define env where "env = sample_env(?max := ?v)"
  have set: "env ?max = ?v" unfolding env_def by (rule fun_upd_same)
  have url: "env ''DATABASE_URL'' = []" by (simp add: env_def sample_env_def env_names)
  have range: "- (2 ^ 63) \<le> (2 ^ 32 :: int)" "(2 ^ 32 :: int) < 2 ^ 63" by simp_all
  have "configured env" unfolding env_def by (rule configured_upd [OF refl range sample_configured])
  then have run: "StartProcessingEvents (\<lambda>log a. Fine) env False [] = (Inr (startup_wiring env False),
      [] @ tried (startup_plan env False) @ [StartGroup (w_group (startup_wiring env False)),
       Closed_resource (RedisClient (cache_redis env)), Closed_resource (RedisClient (store_redis env)),
       Closed_resource DatabasePool])"
    by (subst start_from) (simp only: accepts_Fine simp_thms)
  have t: "Tried (NewPool [] (max_conns env)) Fine \<in> set (snd (StartProcessingEvents (\<lambda>log a. Fine) env False []))"
    unfolding run using url by (simp add: startup_plan_def tried_def)
  from pool_size [OF set range t] have size: "max_conns env \<noteq> 2 ^ 32" "max_conns env mod 2 ^ 32 = 0" by simp_all
  show ?thesis by (rule exI, intro conjI) (rule t [unfolded env_def], rule size(1) [unfolded env_def], rule size(2) [unfolded env_def])
qed

end
