(* ===== verification/Tracing.thy ===== *)
theory Tracing
  imports Startup Consumer_Group
begin

text \<open>
  \<open>config/tracing\<close> and \<open>main.go\<close>: the choice of the tracing provider, the global tracer, spans on
  OpenTelemetry, on Datadog and on nothing, and the entry of the process, which starts the
  processor after them. What is called on a span of a library is a list of calls; attributes of type
  \<open>any\<close> are the dynamic values of \<open>Go_Json\<close>.
\<close>

section \<open>tracing.go and tracer.go\<close>

type_synonym TracingProvider = string

definition OTelProvider :: TracingProvider where "OTelProvider = ''opentelemetry''"

definition DatadogProvider :: TracingProvider where "DatadogProvider = ''datadog''"

definition EmptyProvider :: TracingProvider where "EmptyProvider = ''none''"

definition envTracingProvider :: string where "envTracingProvider = ''TRACING_PROVIDER''"

definition envOtelExporterOtlpEndpoint :: string where "envOtelExporterOtlpEndpoint = ''OTEL_EXPORTER_OTLP_ENDPOINT''"

definition envOtelInsecure :: string where "envOtelInsecure = ''OTEL_INSECURE''"

definition envOtelServiceName :: string where "envOtelServiceName = ''OTEL_SERVICE_NAME''"

definition envDatadogEnabled :: string where "envDatadogEnabled = ''DD_TRACE_ENABLED''"

definition envDatadogAgentHost :: string where "envDatadogAgentHost = ''DD_AGENT_HOST''"

definition envDatadogAgentPort :: string where "envDatadogAgentPort = ''DD_TRACE_AGENT_PORT''"

definition envDatadogService :: string where "envDatadogService = ''DD_SERVICE_NAME''"

record TracerProviderOptions =
  op_Env :: string
  op_ServiceName :: string
  op_ProviderURL :: string
  op_SecureMode :: bool
  op_TracingProvider :: TracingProvider

definition zero_options :: TracerProviderOptions where
  "zero_options = \<lparr>op_Env = [], op_ServiceName = [], op_ProviderURL = [], op_SecureMode = False,
     op_TracingProvider = []\<rparr>"

definition findTracingProvider :: "environment \<Rightarrow> string \<Rightarrow> TracingProvider" where
  "findTracingProvider env provider =
     (if provider = ''datadog'' then DatadogProvider
      else if provider = ''opentelemetry'' then OTelProvider
      else if GetEnvAsBool env envDatadogEnabled False then DatadogProvider
      else if env envOtelExporterOtlpEndpoint \<noteq> [] then OTelProvider
      else EmptyProvider)"

definition initTracerProviderOpts :: "environment \<Rightarrow> TracingProvider \<Rightarrow> TracerProviderOptions" where
  "initTracerProviderOpts env tracingProvider =
     (let e = (if env envEnv = [] then ''development'' else env envEnv);
          opts = zero_options\<lparr>op_Env := e, op_ServiceName := ''lago-events-processor'',
                   op_TracingProvider := tracingProvider\<rparr>
      in if tracingProvider = OTelProvider then
           (let serviceName = env envOtelServiceName;
                opts = (if serviceName \<noteq> [] then opts\<lparr>op_ServiceName := serviceName\<rparr> else opts);
                insecure = GetEnvAsBool env envOtelInsecure False
            in opts\<lparr>op_ProviderURL := env envOtelExporterOtlpEndpoint, op_SecureMode := \<not> insecure\<rparr>)
         else if tracingProvider = DatadogProvider then
           (let serviceName = env envDatadogService;
                opts = (if serviceName \<noteq> [] then opts\<lparr>op_ServiceName := serviceName\<rparr> else opts);
                host = env envDatadogAgentHost;
                port = GetEnvOrDefault env envDatadogAgentPort ''8126''
            in opts\<lparr>op_ProviderURL := host @ '':'' @ port\<rparr>)
         else opts)"

subsection \<open>Span options\<close>

text \<open>The maps of a configuration may be \<open>nil\<close>; its parent is never read.\<close>

record SpanConfig =
  cfg_Tags :: "(string \<times> gval) list option"
  cfg_Attributes :: "(string \<times> gval) list option"

type_synonym SpanOption = "SpanConfig \<Rightarrow> SpanConfig"

definition WithTag :: "string \<Rightarrow> gval \<Rightarrow> SpanOption" where
  "WithTag key v cfg =
     cfg\<lparr>cfg_Tags := Some (upsert key v (case cfg_Tags cfg of None \<Rightarrow> [] | Some m \<Rightarrow> m))\<rparr>"

definition span_config :: "SpanOption list \<Rightarrow> SpanConfig" where
  "span_config opts = fold (\<lambda>opt cfg. opt cfg) opts \<lparr>cfg_Tags = None, cfg_Attributes = None\<rparr>"

text \<open>A range over a map that may be \<open>nil\<close>.\<close>

definition entries :: "(string \<times> gval) list option \<Rightarrow> (string \<times> gval) list" where
  "entries m = (case m of None \<Rightarrow> [] | Some m \<Rightarrow> m)"

section \<open>Spans of the three providers\<close>

text \<open>The constructors of \<open>attribute.KeyValue\<close>.\<close>

datatype attribute =
    Attribute_String string string
  | Attribute_Int string int
  | Attribute_Int64 string int
  | Attribute_Float64 string float64
  | Attribute_Bool string bool

fun convertToOTelAttribute :: "string \<Rightarrow> gval \<Rightarrow> attribute" where
  "convertToOTelAttribute key (GStr s) = Attribute_String key s"
| "convertToOTelAttribute key (GInt n) = Attribute_Int key n"
| "convertToOTelAttribute key (GInt64 n) = Attribute_Int64 key n"
| "convertToOTelAttribute key (GNum x) = Attribute_Float64 key x"
| "convertToOTelAttribute key (GBool b) = Attribute_Bool key b"
| "convertToOTelAttribute key v = Attribute_String key (sprint_v v)"

text \<open>The calls of the libraries: a span is started by a tracer or a service, then written to and ended.\<close>

datatype span_call =
    OTelStart string string
  | OTelSetAttributes "attribute list"
  | OTelRecordError goerror
  | OTelSetStatus goerror
  | OTelEnd
  | DatadogStart string string
  | DatadogSetTag string gval
  | DatadogFinish

datatype span = OTelSpan | DatadogSpan | EmptySpan

text \<open>The methods of each kind of span, then the calls through the interface.\<close>

definition OTelSpan_SetAttribute :: "string \<Rightarrow> gval \<Rightarrow> span_call list" where
  "OTelSpan_SetAttribute key v = [OTelSetAttributes [convertToOTelAttribute key v]]"

definition OTelSpan_SetAttributes :: "(string \<times> gval) list \<Rightarrow> span_call list" where
  "OTelSpan_SetAttributes m = [OTelSetAttributes (map (\<lambda>(k, v). convertToOTelAttribute k v) m)]"

definition OTelSpan_SetError :: "goerror \<Rightarrow> span_call list" where
  "OTelSpan_SetError e = [OTelRecordError e, OTelSetStatus e]"

definition OTelSpan_End :: "span_call list" where
  "OTelSpan_End = [OTelEnd]"

definition DatadogSpan_SetAttribute :: "string \<Rightarrow> gval \<Rightarrow> span_call list" where
  "DatadogSpan_SetAttribute key v = [DatadogSetTag key v]"

definition DatadogSpan_SetAttributes :: "(string \<times> gval) list \<Rightarrow> span_call list" where
  "DatadogSpan_SetAttributes m = map (\<lambda>(k, v). DatadogSetTag k v) m"

definition DatadogSpan_SetError :: "goerror \<Rightarrow> span_call list" where
  "DatadogSpan_SetError e =
     [DatadogSetTag ''error'' (GBool True), DatadogSetTag ''error.msg'' (GStr e),
      DatadogSetTag ''error.type'' (GStr ''error'')]"

definition DatadogSpan_End :: "span_call list" where
  "DatadogSpan_End = [DatadogFinish]"

definition EmptySpan_SetAttribute :: "string \<Rightarrow> gval \<Rightarrow> span_call list" where
  "EmptySpan_SetAttribute key v = []"

definition EmptySpan_SetAttributes :: "(string \<times> gval) list \<Rightarrow> span_call list" where
  "EmptySpan_SetAttributes m = []"

definition EmptySpan_SetError :: "goerror \<Rightarrow> span_call list" where
  "EmptySpan_SetError e = []"

definition EmptySpan_End :: "span_call list" where
  "EmptySpan_End = []"

fun SetAttribute :: "span \<Rightarrow> string \<Rightarrow> gval \<Rightarrow> span_call list" where
  "SetAttribute OTelSpan key v = OTelSpan_SetAttribute key v"
| "SetAttribute DatadogSpan key v = DatadogSpan_SetAttribute key v"
| "SetAttribute EmptySpan key v = EmptySpan_SetAttribute key v"

fun SetAttributes :: "span \<Rightarrow> (string \<times> gval) list \<Rightarrow> span_call list" where
  "SetAttributes OTelSpan m = OTelSpan_SetAttributes m"
| "SetAttributes DatadogSpan m = DatadogSpan_SetAttributes m"
| "SetAttributes EmptySpan m = EmptySpan_SetAttributes m"

fun SetError :: "span \<Rightarrow> goerror \<Rightarrow> span_call list" where
  "SetError OTelSpan e = OTelSpan_SetError e"
| "SetError DatadogSpan e = DatadogSpan_SetError e"
| "SetError EmptySpan e = EmptySpan_SetError e"

fun EndSpan :: "span \<Rightarrow> span_call list" where
  "EndSpan OTelSpan = OTelSpan_End"
| "EndSpan DatadogSpan = DatadogSpan_End"
| "EndSpan EmptySpan = EmptySpan_End"

datatype tracer = OTelTracer string | DatadogTracer string | EmptyTracer

definition NewOTelTracer :: "string \<Rightarrow> tracer" where
  "NewOTelTracer tracerName = OTelTracer tracerName"

definition NewDatadogTracer :: "string \<Rightarrow> tracer" where
  "NewDatadogTracer serviceName = DatadogTracer serviceName"

definition NewEmptyTracer :: tracer where
  "NewEmptyTracer = EmptyTracer"

definition OTelTracer_StartSpan :: "string \<Rightarrow> string \<Rightarrow> SpanOption list \<Rightarrow> span \<times> span_call list" where
  "OTelTracer_StartSpan tracerName operationName opts =
     (let config = span_config opts
      in (OTelSpan,
          [OTelStart tracerName operationName] @
          (case cfg_Attributes config of
             None \<Rightarrow> []
           | Some m \<Rightarrow> [OTelSetAttributes (map (\<lambda>(k, v). convertToOTelAttribute k v) m)]) @
          map (\<lambda>(k, v). OTelSetAttributes [convertToOTelAttribute k v]) (entries (cfg_Tags config))))"

definition DatadogTracer_StartSpan :: "string \<Rightarrow> string \<Rightarrow> SpanOption list \<Rightarrow> span \<times> span_call list" where
  "DatadogTracer_StartSpan serviceName operationName opts =
     (let config = span_config opts
      in (DatadogSpan,
          [DatadogStart serviceName operationName] @
          map (\<lambda>(k, v). DatadogSetTag k v) (entries (cfg_Tags config)) @
          map (\<lambda>(k, v). DatadogSetTag k v) (entries (cfg_Attributes config))))"

definition EmptyTracer_StartSpan :: "string \<Rightarrow> SpanOption list \<Rightarrow> span \<times> span_call list" where
  "EmptyTracer_StartSpan operationName opts = (EmptySpan, [])"

fun start_span :: "tracer \<Rightarrow> string \<Rightarrow> SpanOption list \<Rightarrow> span \<times> span_call list" where
  "start_span (OTelTracer name) operationName opts = OTelTracer_StartSpan name operationName opts"
| "start_span (DatadogTracer service) operationName opts = DatadogTracer_StartSpan service operationName opts"
| "start_span EmptyTracer operationName opts = EmptyTracer_StartSpan operationName opts"

section \<open>Providers\<close>

text \<open>
  The constructor of the OpenTelemetry provider gives \<open>nil\<close> when the exporter or the resource is
  refused. In the interface that pointer is not \<open>nil\<close>: it is a provider whose fields cannot be read.
\<close>

datatype provider =
    OTelTracerProvider "TracerProviderOptions option"
  | DatadogTracerProvider TracerProviderOptions
  | EmptyTracerProvider TracerProviderOptions

text \<open>What the OpenTelemetry libraries answer: the exporter, the resource, and the end of the exporter.\<close>

record otel_answers =
  ot_exporter :: "goerror option"
  ot_resource :: "goerror option"
  ot_shutdown :: "goerror option"

definition NewOTelTracerProvider ::
    "otel_answers \<Rightarrow> TracerProviderOptions \<Rightarrow> TracerProviderOptions option \<times> effect list" where
  "NewOTelTracerProvider ot opts =
     (if ot_exporter ot \<noteq> None then (None, [LogError ''Could not create open telemetry exporter''])
      else if ot_resource ot \<noteq> None then (None, [LogError ''Could not set open telemetry resource: %v''])
      else (Some opts, []))"

definition NewDatadogTracerProvider :: "TracerProviderOptions \<Rightarrow> provider" where
  "NewDatadogTracerProvider opts = DatadogTracerProvider opts"

definition InitTracerProvider :: "environment \<Rightarrow> otel_answers \<Rightarrow> provider \<times> effect list" where
  "InitTracerProvider env ot =
     (let tracingProvider = findTracingProvider env (env envTracingProvider);
          opts = initTracerProviderOpts env tracingProvider
      in if tracingProvider = OTelProvider then
           (let (p, reports) = NewOTelTracerProvider ot opts in (OTelTracerProvider p, reports))
         else if tracingProvider = DatadogProvider then (NewDatadogTracerProvider opts, [])
         else (EmptyTracerProvider zero_options, []))"

text \<open>
  The methods of each provider, then the calls through the interface. \<open>Stop\<close> names the library that it
  stops, with what it reports; the tracer of an OpenTelemetry provider needs none of its fields.
\<close>

definition OTelTracerProvider_Stop ::
    "otel_answers \<Rightarrow> TracerProviderOptions option \<Rightarrow> panic + string list \<times> effect list" where
  "OTelTracerProvider_Stop ot p =
     (case p of
        None \<Rightarrow> Inl nil_dereference
      | Some opts \<Rightarrow>
          Inr ([''otlp exporter''],
               case ot_shutdown ot of None \<Rightarrow> [] | Some e \<Rightarrow> [LogError ''Could not shutdown exporter'']))"

definition OTelTracerProvider_GetOptions :: "TracerProviderOptions option \<Rightarrow> panic + TracerProviderOptions" where
  "OTelTracerProvider_GetOptions p = (case p of None \<Rightarrow> Inl nil_dereference | Some opts \<Rightarrow> Inr opts)"

definition OTelTracerProvider_InitTracer :: "TracerProviderOptions option \<Rightarrow> string \<Rightarrow> tracer" where
  "OTelTracerProvider_InitTracer p serviceName = NewOTelTracer serviceName"

definition DatadogTracerProvider_Stop :: "TracerProviderOptions \<Rightarrow> panic + string list \<times> effect list" where
  "DatadogTracerProvider_Stop opts = Inr ([''datadog tracer''], [])"

definition DatadogTracerProvider_GetOptions :: "TracerProviderOptions \<Rightarrow> panic + TracerProviderOptions" where
  "DatadogTracerProvider_GetOptions opts = Inr opts"

definition DatadogTracerProvider_InitTracer :: "TracerProviderOptions \<Rightarrow> string \<Rightarrow> tracer" where
  "DatadogTracerProvider_InitTracer opts serviceName = NewDatadogTracer serviceName"

definition EmptyTracerProvider_Stop :: "TracerProviderOptions \<Rightarrow> panic + string list \<times> effect list" where
  "EmptyTracerProvider_Stop opts = Inr ([], [])"

definition EmptyTracerProvider_GetOptions :: "TracerProviderOptions \<Rightarrow> panic + TracerProviderOptions" where
  "EmptyTracerProvider_GetOptions opts = Inr opts"

definition EmptyTracerProvider_InitTracer :: "TracerProviderOptions \<Rightarrow> string \<Rightarrow> tracer" where
  "EmptyTracerProvider_InitTracer opts serviceName = NewEmptyTracer"

fun StopProvider :: "otel_answers \<Rightarrow> provider \<Rightarrow> panic + string list \<times> effect list" where
  "StopProvider ot (OTelTracerProvider p) = OTelTracerProvider_Stop ot p"
| "StopProvider ot (DatadogTracerProvider opts) = DatadogTracerProvider_Stop opts"
| "StopProvider ot (EmptyTracerProvider opts) = EmptyTracerProvider_Stop opts"

fun GetOptions :: "provider \<Rightarrow> panic + TracerProviderOptions" where
  "GetOptions (OTelTracerProvider p) = OTelTracerProvider_GetOptions p"
| "GetOptions (DatadogTracerProvider opts) = DatadogTracerProvider_GetOptions opts"
| "GetOptions (EmptyTracerProvider opts) = EmptyTracerProvider_GetOptions opts"

fun provider_InitTracer :: "provider \<Rightarrow> string \<Rightarrow> tracer" where
  "provider_InitTracer (OTelTracerProvider p) serviceName = OTelTracerProvider_InitTracer p serviceName"
| "provider_InitTracer (DatadogTracerProvider opts) serviceName = DatadogTracerProvider_InitTracer opts serviceName"
| "provider_InitTracer (EmptyTracerProvider opts) serviceName = EmptyTracerProvider_InitTracer opts serviceName"

lemmas provider_methods =
  OTelTracerProvider_Stop_def OTelTracerProvider_GetOptions_def OTelTracerProvider_InitTracer_def
  DatadogTracerProvider_Stop_def DatadogTracerProvider_GetOptions_def DatadogTracerProvider_InitTracer_def
  EmptyTracerProvider_Stop_def EmptyTracerProvider_GetOptions_def EmptyTracerProvider_InitTracer_def

section \<open>The global tracer\<close>

record tracing_state =
  globalTracer :: "tracer option"
  once :: bool

definition initial_tracing :: tracing_state where
  "initial_tracing = \<lparr>globalTracer = None, once = False\<rparr>"

definition InitTracer :: "provider \<Rightarrow> tracing_state \<Rightarrow> panic + tracer option \<times> tracing_state" where
  "InitTracer p st =
     (if once st then Inr (globalTracer st, st)
      else (case GetOptions p of
              Inl e \<Rightarrow> Inl e
            | Inr opts \<Rightarrow>
                (let t = Some (provider_InitTracer p (op_ServiceName opts))
                 in Inr (t, st\<lparr>globalTracer := t, once := True\<rparr>))))"

definition GetTracer :: "tracing_state \<Rightarrow> tracer \<times> tracing_state" where
  "GetTracer st =
     (case globalTracer st of
        None \<Rightarrow> (NewEmptyTracer, st\<lparr>globalTracer := Some NewEmptyTracer\<rparr>)
      | Some t \<Rightarrow> (t, st))"

definition StartSpan :: "string \<Rightarrow> SpanOption list \<Rightarrow> tracing_state \<Rightarrow> (span \<times> span_call list) \<times> tracing_state" where
  "StartSpan operationName opts st =
     (let (t, st') = GetTracer st in (start_span t operationName opts, st'))"

section \<open>main.go\<close>

text \<open>
  The process: the provider, the global tracer, then the processor, told whether spans go to
  OpenTelemetry. The deferred \<open>Stop\<close> of the provider runs at the end, also after a panic, and may
  itself panic; the last component lists what it stops. Sentry, whose start may fail without
  consequences, the log handler and the signal handler, which cancels the context, are outside.
\<close>

definition start_processor ::
    "answers \<Rightarrow> environment \<Rightarrow> provider \<Rightarrow> trace \<Rightarrow> (panic + wiring) \<times> trace" where
  "start_processor ans env tracerProvider log =
     (case InitTracer tracerProvider initial_tracing of
        Inl p \<Rightarrow> (Inl p, log)
      | Inr _ \<Rightarrow>
          (case GetOptions tracerProvider of
             Inl p \<Rightarrow> (Inl p, log)
           | Inr opts \<Rightarrow> StartProcessingEvents ans env (op_TracingProvider opts = OTelProvider) log))"

definition main_process ::
    "answers \<Rightarrow> environment \<Rightarrow> otel_answers \<Rightarrow> (panic + wiring) \<times> trace \<times> string list" where
  "main_process ans env ot =
     (let (tracerProvider, reports) = InitTracerProvider env ot;
          (r, log) = start_processor ans env tracerProvider (map Reported reports)
      in case StopProvider ot tracerProvider of
           Inl p \<Rightarrow> (Inl p, log, [])
         | Inr (stopped, reports) \<Rightarrow> (r, log @ map Reported reports, stopped))"

section \<open>Lemmas\<close>

lemma provider_names [simp]:
  "OTelProvider \<noteq> DatadogProvider" "OTelProvider \<noteq> EmptyProvider" "DatadogProvider \<noteq> OTelProvider"
  "DatadogProvider \<noteq> EmptyProvider" "EmptyProvider \<noteq> OTelProvider" "EmptyProvider \<noteq> DatadogProvider"
  by (simp_all add: OTelProvider_def DatadogProvider_def EmptyProvider_def)

lemma findTracingProvider_cases:
  "findTracingProvider env v \<in> {OTelProvider, DatadogProvider, EmptyProvider}"
  by (simp add: findTracingProvider_def)

lemma opts_provider: "op_TracingProvider (initTracerProviderOpts env tp) = tp"
  by (simp add: initTracerProviderOpts_def Let_def)

lemma opts_service: "op_ServiceName (initTracerProviderOpts env tp) \<noteq> []"
  by (simp add: initTracerProviderOpts_def Let_def)

lemma zero_not_otel: "op_TracingProvider zero_options \<noteq> OTelProvider"
  by (simp add: zero_options_def OTelProvider_def)

subsection \<open>Sequences of calls\<close>

text \<open>What the goroutines of the process ask of the package, in some order.\<close>

datatype tracing_op =
    Init provider
  | Start string "SpanOption list"

fun run_tracing :: "tracing_op list \<Rightarrow> tracing_state \<Rightarrow> panic + tracing_state" where
  "run_tracing [] st = Inr st"
| "run_tracing (Init p # ops) st = (case InitTracer p st of Inl e \<Rightarrow> Inl e | Inr (t, st') \<Rightarrow> run_tracing ops st')"
| "run_tracing (Start name opts # ops) st = run_tracing ops (snd (StartSpan name opts st))"

fun first_init :: "tracing_op list \<Rightarrow> provider option" where
  "first_init [] = None"
| "first_init (Init p # ops) = Some p"
| "first_init (Start name opts # ops) = first_init ops"

lemma run_once:
  "run_tracing ops st = Inr st' \<Longrightarrow> once st \<Longrightarrow> globalTracer st = Some t \<Longrightarrow> globalTracer st' = Some t"
proof (induction ops st rule: run_tracing.induct)
  case (2 p ops st)
  then show ?case by (auto simp: InitTracer_def)
qed (auto simp: StartSpan_def GetTracer_def)

lemma run_first:
  "run_tracing ops st = Inr st' \<Longrightarrow> \<not> once st \<Longrightarrow> globalTracer st \<in> {None, Some EmptyTracer} \<Longrightarrow>
   fst (GetTracer st') =
     (case first_init ops of
        None \<Rightarrow> EmptyTracer
      | Some p \<Rightarrow> provider_InitTracer p (case GetOptions p of Inr opts \<Rightarrow> op_ServiceName opts | Inl e \<Rightarrow> []))"
proof (induction ops st rule: run_tracing.induct)
  case (1 st)
  then show ?case by (auto simp: GetTracer_def NewEmptyTracer_def)
next
  case (2 p ops st)
  then obtain opts where o: "GetOptions p = Inr opts" by (cases "GetOptions p") (auto simp: InitTracer_def)
  let ?t = "Some (provider_InitTracer p (op_ServiceName opts))"
  have "run_tracing ops (st\<lparr>globalTracer := ?t, once := True\<rparr>) = Inr st'"
    using 2(2,3) o by (simp add: InitTracer_def Let_def)
  then have "globalTracer st' = ?t" by (rule run_once) simp_all
  then show ?case using o by (simp add: GetTracer_def)
next
  case (3 name opts ops st)
  then show ?case by (auto simp: StartSpan_def GetTracer_def NewEmptyTracer_def split: prod.splits)
qed

subsection \<open>Attributes of a span\<close>

text \<open>What the libraries document of their spans: a later value of a key replaces the earlier one.\<close>

fun attribute_key :: "attribute \<Rightarrow> string" where
  "attribute_key (Attribute_String k s) = k"
| "attribute_key (Attribute_Int k n) = k"
| "attribute_key (Attribute_Int64 k n) = k"
| "attribute_key (Attribute_Float64 k x) = k"
| "attribute_key (Attribute_Bool k b) = k"

fun otel_attributes :: "span_call list \<Rightarrow> string \<Rightarrow> attribute option" where
  "otel_attributes [] k = None"
| "otel_attributes (OTelSetAttributes as # calls) k =
     (case otel_attributes calls k of
        Some a \<Rightarrow> Some a
      | None \<Rightarrow> map_of (rev (map (\<lambda>a. (attribute_key a, a)) as)) k)"
| "otel_attributes (c # calls) k = otel_attributes calls k"

fun datadog_tags :: "span_call list \<Rightarrow> string \<Rightarrow> gval option" where
  "datadog_tags [] k = None"
| "datadog_tags (DatadogSetTag k' v # calls) k =
     (case datadog_tags calls k of Some w \<Rightarrow> Some w | None \<Rightarrow> if k = k' then Some v else None)"
| "datadog_tags (c # calls) k = datadog_tags calls k"

lemma attribute_key_convert [simp]: "attribute_key (convertToOTelAttribute k v) = k"
  by (cases v) simp_all

text \<open>The tags of a configuration made of options: the last value of a key, each key once.\<close>

lemma span_config_tags:
  "cfg_Attributes (span_config (map (\<lambda>(k, v). WithTag k v) kvs)) = None \<and>
   distinct (keys (entries (cfg_Tags (span_config (map (\<lambda>(k, v). WithTag k v) kvs))))) \<and>
   map_of (entries (cfg_Tags (span_config (map (\<lambda>(k, v). WithTag k v) kvs)))) = map_of (rev kvs)"
proof (induction kvs rule: rev_induct)
  case Nil
  then show ?case by (simp add: span_config_def entries_def)
next
  case (snoc x kvs)
  obtain k v where x: "x = (k, v)" by (cases x)
  let ?c = "span_config (map (\<lambda>(k, v). WithTag k v) kvs)"
  have c: "span_config (map (\<lambda>(k, v). WithTag k v) (kvs @ [x])) = ?c\<lparr>cfg_Tags := Some (upsert k v (entries (cfg_Tags ?c)))\<rparr>"
    by (simp add: x span_config_def WithTag_def entries_def)
  show ?case unfolding c using snoc x by (simp add: entries_def distinct_keys_upsert map_of_upsert)
qed

lemma entries_None [simp]: "entries None = []"
  by (simp add: entries_def)

text \<open>
  What the interface \<open>Span\<close> promises of \<open>SetAttribute\<close>: the key then has the value, as the provider
  writes it, and the other keys keep theirs.
\<close>

locale span_backend =
  fixes set_attribute :: "string \<Rightarrow> gval \<Rightarrow> span_call list"
    and value_of :: "span_call list \<Rightarrow> string \<Rightarrow> 'v option" and written :: "string \<Rightarrow> gval \<Rightarrow> 'v"
  assumes set_same: "value_of (calls @ set_attribute k v) k = Some (written k v)"
    and set_other: "k' \<noteq> k \<Longrightarrow> value_of (calls @ set_attribute k v) k' = value_of calls k'"
begin

lemma set_many:
  "value_of (calls @ concat (map (\<lambda>(k, v). set_attribute k v) kvs)) k =
     (case map_of (rev kvs) k of None \<Rightarrow> value_of calls k | Some v \<Rightarrow> Some (written k v))"
proof (induction kvs rule: rev_induct)
  case (snoc x kvs)
  obtain k' v where x: "x = (k', v)" by (cases x)
  let ?calls = "calls @ concat (map (\<lambda>(k, v). set_attribute k v) kvs)"
  have "value_of (calls @ concat (map (\<lambda>(k, v). set_attribute k v) (kvs @ [x]))) k =
      value_of (?calls @ set_attribute k' v) k" by (simp add: x)
  then show ?case using snoc set_same [of ?calls k' v] set_other [of k k' ?calls v]
    by (cases "k = k'") (simp_all add: x)
qed simp

text \<open>The order in which a map is ranged over makes no difference.\<close>

lemma set_map:
  assumes "distinct (keys m)"
  shows "value_of (calls @ concat (map (\<lambda>(k, v). set_attribute k v) m)) k =
     (case map_of m k of None \<Rightarrow> value_of calls k | Some v \<Rightarrow> Some (written k v))"
proof -
  have "map_of (rev m) = map_of m"
    using assms map_of_inject_set [of "rev m" m] by (simp add: keys_def rev_map [symmetric])
  then show ?thesis by (simp add: set_many)
qed

end

lemma otel_attributes_append:
  "otel_attributes (calls @ calls') k =
     (case otel_attributes calls' k of None \<Rightarrow> otel_attributes calls k | Some a \<Rightarrow> Some a)"
  by (induction calls k rule: otel_attributes.induct) (auto split: option.split)

lemma datadog_tags_append:
  "datadog_tags (calls @ calls') k =
     (case datadog_tags calls' k of None \<Rightarrow> datadog_tags calls k | Some v \<Rightarrow> Some v)"
  by (induction calls k rule: datadog_tags.induct) (auto split: option.split)

interpretation otel: span_backend OTelSpan_SetAttribute otel_attributes convertToOTelAttribute
  by unfold_locales (simp_all add: OTelSpan_SetAttribute_def otel_attributes_append)

interpretation datadog: span_backend DatadogSpan_SetAttribute datadog_tags "\<lambda>k v. v"
  by unfold_locales (simp_all add: DatadogSpan_SetAttribute_def datadog_tags_append)

text \<open>The calls with which the tracers write the tags are those of \<open>SetAttribute\<close>.\<close>

lemma otel_start:
  "cfg_Attributes (span_config opts) = None \<Longrightarrow>
   snd (OTelTracer_StartSpan name operationName opts) = [OTelStart name operationName] @
     concat (map (\<lambda>(k, v). OTelSpan_SetAttribute k v) (entries (cfg_Tags (span_config opts))))"
  by (simp add: OTelTracer_StartSpan_def Let_def OTelSpan_SetAttribute_def concat_map_singleton case_prod_unfold)

lemma datadog_start:
  "cfg_Attributes (span_config opts) = None \<Longrightarrow>
   snd (DatadogTracer_StartSpan name operationName opts) = [DatadogStart name operationName] @
     concat (map (\<lambda>(k, v). DatadogSpan_SetAttribute k v) (entries (cfg_Tags (span_config opts))))"
  by (simp add: DatadogTracer_StartSpan_def Let_def DatadogSpan_SetAttribute_def concat_map_singleton case_prod_unfold)

section \<open>Properties\<close>

text \<open>
  C30: what the choice of the tracing provider does to the process: it starts the processor, with the
  telemetry of its Kafka clients just when the provider is OpenTelemetry, and stops that provider at the
  end, reporting what it fails to stop; but when the exporter or the
  resource of OpenTelemetry is refused, the process panics on a \<open>nil\<close> provider before it has tried
  anything else, although the constructor reports the error and means to go on.
\<close>

theorem process_entry:
  "main_process ans env ot =
     (let tracingProvider = findTracingProvider env (env envTracingProvider);
          (r, log) = StartProcessingEvents ans env (tracingProvider = OTelProvider) []
      in if tracingProvider = OTelProvider \<and> ot_exporter ot \<noteq> None then
           (Inl nil_dereference, [Reported (LogError ''Could not create open telemetry exporter'')], [])
         else if tracingProvider = OTelProvider \<and> ot_resource ot \<noteq> None then
           (Inl nil_dereference, [Reported (LogError ''Could not set open telemetry resource: %v'')], [])
         else if tracingProvider = OTelProvider then
           (r, if ot_shutdown ot = None then log else log @ [Reported (LogError ''Could not shutdown exporter'')],
            [''otlp exporter''])
         else (r, log, if tracingProvider = DatadogProvider then [''datadog tracer''] else []))"
proof -
  let ?tp = "findTracingProvider env (env envTracingProvider)"
  obtain r log where start: "StartProcessingEvents ans env (?tp = OTelProvider) [] = (r, log)"
    by (cases "StartProcessingEvents ans env (?tp = OTelProvider) []")
  note defs = main_process_def start_processor_def InitTracerProvider_def InitTracer_def Let_def
    initial_tracing_def provider_methods
  consider "?tp = OTelProvider" | "?tp = DatadogProvider" | "?tp = EmptyProvider"
    using findTracingProvider_cases by blast
  then show ?thesis
  proof cases
    case 1
    then show ?thesis using start
      by (auto simp: defs NewOTelTracerProvider_def opts_provider split: option.splits)
  next
    case 2
    then show ?thesis using start by (simp add: defs NewDatadogTracerProvider_def opts_provider)
  next
    case 3
    then show ?thesis using start by (simp add: defs zero_not_otel)
  qed
qed

text \<open>
  The global tracer belongs to the first provider that initializes it, whatever spans were
  started before and whatever providers come later; without one, spans go nowhere.
\<close>

theorem first_provider_traces:
  assumes "run_tracing ops initial_tracing = Inr st"
  shows "fst (GetTracer st) =
    (case first_init ops of
       None \<Rightarrow> EmptyTracer
     | Some p \<Rightarrow> provider_InitTracer p (case GetOptions p of Inr opts \<Rightarrow> op_ServiceName opts | Inl e \<Rightarrow> []))"
  by (rule run_first [OF assms]) (simp_all add: initial_tracing_def)

theorem first_provider_traces_witness:
  "\<exists>st. run_tracing [Start ''a'' [], Init (DatadogTracerProvider (zero_options\<lparr>op_ServiceName := ''s''\<rparr>)),
       Init (EmptyTracerProvider zero_options)] initial_tracing = Inr st \<and>
     fst (GetTracer st) = DatadogTracer ''s''"
proof -
  let ?ops = "[Start ''a'' [], Init (DatadogTracerProvider (zero_options\<lparr>op_ServiceName := ''s''\<rparr>)),
       Init (EmptyTracerProvider zero_options)]"
  obtain st where r: "run_tracing ?ops initial_tracing = Inr st"
    by (simp add: InitTracer_def StartSpan_def GetTracer_def initial_tracing_def Let_def provider_methods)
  with first_provider_traces [OF r] show ?thesis by (simp add: NewDatadogTracer_def provider_methods)
qed

text \<open>
  Both tracers show the tags that a span is started with and the attributes that are set on it later,
  the last value of each key: Datadog as they are, OpenTelemetry as attributes of their type; so the
  two agree on every span.
\<close>

theorem span_tags:
  "otel_attributes (snd (start_span (OTelTracer name) operationName (map (\<lambda>(k, v). WithTag k v) tags)) @
       concat (map (\<lambda>(k, v). SetAttribute OTelSpan k v) kvs)) k =
     map_option (convertToOTelAttribute k) (map_of (rev (tags @ kvs)) k) \<and>
   datadog_tags (snd (start_span (DatadogTracer name) operationName (map (\<lambda>(k, v). WithTag k v) tags)) @
       concat (map (\<lambda>(k, v). SetAttribute DatadogSpan k v) kvs)) k =
     map_of (rev (tags @ kvs)) k"
proof -
  let ?opts = "map (\<lambda>(k, v). WithTag k v) tags"
  let ?m = "entries (cfg_Tags (span_config ?opts))"
  have none: "cfg_Attributes (span_config ?opts) = None" and d: "distinct (keys ?m)"
    and m: "map_of ?m = map_of (rev tags)"
    using span_config_tags [of tags] by blast+
  have "otel_attributes (snd (OTelTracer_StartSpan name operationName ?opts)) k =
      map_option (convertToOTelAttribute k) (map_of (rev tags) k)"
    unfolding otel_start [OF none] otel.set_map [OF d] m by (simp split: option.split)
  moreover have "datadog_tags (snd (DatadogTracer_StartSpan name operationName ?opts)) k = map_of (rev tags) k"
    unfolding datadog_start [OF none] datadog.set_map [OF d] m by (simp split: option.split)
  ultimately show ?thesis
    by (simp add: otel.set_many datadog.set_many map_add_def split: option.split)
qed

end
