(* ===== verification/Process.thy ===== *)
theory Process
  imports Group_Shutdown Tracing
begin

text \<open>
  The whole process of \<open>main.go\<close>: what a signal does, how the end of the consumer group ends
  \<open>StartProcessingEvents\<close> and \<open>main\<close> with their deferred calls, and what the cancelled context does to
  the batches that are still in work. It composes the start (\<open>Startup\<close>, \<open>Tracing\<close>) with the goroutines
  of the consumer group (\<open>Consumer_Group\<close>), with the handler of signals as one more goroutine.
\<close>

section \<open>Signals\<close>

text \<open>
  The channel of \<open>setupGracefulShutdown\<close> holds one signal; \<open>signal.Notify\<close> drops a signal that does not
  fit. The goroutine reads the channel once, cancels the context and ends.
\<close>

record signals =
  sig_channel :: bool
  sig_waiting :: bool

definition setupGracefulShutdown :: signals where
  "setupGracefulShutdown = \<lparr>sig_channel = False, sig_waiting = True\<rparr>"

definition deliver :: "signals \<Rightarrow> signals" where
  "deliver s = s\<lparr>sig_channel := True\<rparr>"

text \<open>\<open>None\<close> while the goroutine is blocked or has ended.\<close>

definition receive :: "signals \<Rightarrow> signals option" where
  "receive s = (if sig_waiting s \<and> sig_channel s then Some \<lparr>sig_channel = False, sig_waiting = False\<rparr> else None)"

section \<open>Deferred calls\<close>

datatype cleanup =
    Close resource
  | FlushSentry
  | StopTracing
  | CancelContext

text \<open>The calls that \<open>StartProcessingEvents\<close> and \<open>main\<close> defer, the last one first.\<close>

definition start_deferred :: "wiring \<Rightarrow> cleanup list" where
  "start_deferred w =
     rev [Close DatabasePool, Close (RedisClient (fst (w_flags w))), Close (RedisClient (w_cache w))]"

definition main_deferred :: "cleanup list" where
  "main_deferred = rev [CancelContext, StopTracing, FlushSentry]"

text \<open>They are what \<open>Startup\<close> shows after the group of a start that succeeds.\<close>

lemma start_hands_over:
  assumes "StartProcessingEvents ans env tel log0 = (Inr w, log)"
  shows "\<exists>l rs. log = l @ StartGroup (w_group w) # map Closed_resource rs \<and> start_deferred w = map Close rs"
proof -
  obtain l where "log = l @ [StartGroup (w_group w), Closed_resource (RedisClient (w_cache w)),
      Closed_resource (RedisClient (fst (w_flags w))), Closed_resource DatabasePool]"
    using assms unfolding StartProcessingEvents_def Let_def
    by (auto simp: start_ok split: if_splits)
  then show ?thesis
    by (intro exI [of _ l] exI [of _ "[RedisClient (w_cache w), RedisClient (fst (w_flags w)), DatabasePool]"])
      (simp add: start_deferred_def)
qed

section \<open>The process\<close>

text \<open>
  The main goroutine: in \<open>cg.Start\<close>, in the deferred calls that are left, ended (which ends the process,
  whatever the other goroutines do).
\<close>

datatype main_phase =
    Serving
  | Unwinding "cleanup list"
  | Exited

record process =
  pr_signals :: signals
  pr_group :: ConsumerGroup
  pr_main :: main_phase
  pr_cleaned :: "cleanup list"

text \<open>
  The process when \<open>cg.Start\<close> is called. A signal may have come during the start: its handler has
  then cancelled the context already.
\<close>

definition started :: "bool \<Rightarrow> process" where
  "started signalled =
     \<lparr>pr_signals = (if signalled then \<lparr>sig_channel = False, sig_waiting = False\<rparr> else setupGracefulShutdown),
      pr_group = NewConsumerGroup\<lparr>cg_ctx_done := signalled\<rparr>, pr_main = Serving, pr_cleaned = []\<rparr>"

definition cancel_context :: "process \<Rightarrow> process" where
  "cancel_context p = p\<lparr>pr_group := (pr_group p)\<lparr>cg_ctx_done := True\<rparr>\<rparr>"

text \<open>
  The steps: a signal is delivered; the handler receives it; a goroutine of the group moves (only the
  handler cancels the context); \<open>Start\<close> returns; the deferred calls run; \<open>main\<close> returns. A panic of a
  goroutine of the group ends the process at once.
\<close>

inductive process_move :: "handlers \<Rightarrow> wiring \<Rightarrow> process \<Rightarrow> process \<Rightarrow> bool" for hs w where
  signal: "process_move hs w p (p\<lparr>pr_signals := deliver (pr_signals p)\<rparr>)"
| handle: "receive (pr_signals p) = Some s \<Longrightarrow>
    process_move hs w p ((cancel_context p)\<lparr>pr_signals := s\<rparr>)"
| group: "cg_step hs (pr_group p) cg' \<Longrightarrow> cg_ctx_done cg' = cg_ctx_done (pr_group p) \<Longrightarrow>
    process_move hs w p (p\<lparr>pr_group := cg'\<rparr>)"
| served: "pr_main p = Serving \<Longrightarrow> cg_main (pr_group p) = Closed \<Longrightarrow>
    process_move hs w p (p\<lparr>pr_main := Unwinding (start_deferred w @ main_deferred)\<rparr>)"
| unwind: "pr_main p = Unwinding (d # ds) \<Longrightarrow>
    process_move hs w p ((if d = CancelContext then cancel_context p else p)
      \<lparr>pr_main := Unwinding ds, pr_cleaned := pr_cleaned p @ [d]\<rparr>)"
| return: "pr_main p = Unwinding [] \<Longrightarrow> process_move hs w p (p\<lparr>pr_main := Exited\<rparr>)"

definition process_step :: "handlers \<Rightarrow> wiring \<Rightarrow> process \<Rightarrow> process \<Rightarrow> bool" where
  "process_step hs w p p' \<longleftrightarrow> cg_panic (pr_group p) = None \<and> pr_main p \<noteq> Exited \<and> process_move hs w p p'"

inductive process_runs :: "handlers \<Rightarrow> wiring \<Rightarrow> process \<Rightarrow> process \<Rightarrow> bool" for hs w where
  at_once: "process_runs hs w p p"
| then_step: "process_runs hs w p p' \<Longrightarrow> process_step hs w p' p'' \<Longrightarrow> process_runs hs w p p''"

inductive_cases process_moveE: "process_move hs w p p'"

section \<open>Contexts\<close>







section \<open>What the runs keep\<close>

lemma process_runs_trans: "process_runs hs w q r \<Longrightarrow> process_runs hs w p q \<Longrightarrow> process_runs hs w p r"
  by (induction rule: process_runs.induct) (auto intro: then_step)

text \<open>Every run of the process is a run of the group, in which the handler is the one that cancels.\<close>

lemma cancel_step: "cg_panic cg = None \<Longrightarrow> runs hs cg (cg\<lparr>cg_ctx_done := True\<rparr>)"
proof (cases "cg_ctx_done cg")
  case True
  then have "cg\<lparr>cg_ctx_done := True\<rparr> = cg" by simp
  then show ?thesis using runs.stay by metis
next
  case False
  moreover assume "cg_panic cg = None"
  ultimately show ?thesis using runs.more [OF runs.stay] cancel by (simp add: cg_step_def)
qed

lemma group_runs_step: "process_step hs w p p' \<Longrightarrow> runs hs (pr_group p) (pr_group p')"
  unfolding process_step_def
  by (elim conjE process_moveE) (auto simp: cancel_context_def intro: runs.stay cancel_step runs.more)

lemma group_runs: "process_runs hs w p p' \<Longrightarrow> runs hs (pr_group p) (pr_group p')"
  by (induction rule: process_runs.induct) (auto intro: runs.stay runs_trans group_runs_step)

lemma started_reachable: "reachable hs (pr_group (started signalled))"
proof (cases signalled)
  case True
  then show ?thesis using cancel_step [of NewConsumerGroup] by (simp add: started_def NewConsumerGroup_def)
next
  case False
  have "NewConsumerGroup\<lparr>cg_ctx_done := False\<rparr> = NewConsumerGroup" by (simp add: NewConsumerGroup_def)
  then show ?thesis using False runs.stay by (simp add: started_def)
qed

lemma process_group_reachable:
  "process_runs hs w (started signalled) p \<Longrightarrow> reachable hs (pr_group p)"
  using group_runs started_reachable runs_trans by blast

text \<open>A closed client stays closed.\<close>

lemma closed_move:
  assumes "move hs cg cg'" and "cg_main cg = Closed"
  shows "cg_main cg' = Closed"
  using assms
proof (cases rule: move.cases)
  case (lost_one tp tps idents cg'' ident)
  then show ?thesis using lose_same(1) [of tp cg cg'' ident] assms(2) by (simp add: same_control_def)
qed (auto simp: assign_one_def)

fun cleanups_left :: "main_phase \<Rightarrow> cleanup list" where
  "cleanups_left (Unwinding ds) = ds"
| "cleanups_left _ = []"

definition process_inv :: "wiring \<Rightarrow> process \<Rightarrow> bool" where
  "process_inv w p \<longleftrightarrow>
     (pr_main p = Serving \<longrightarrow> pr_cleaned p = []) \<and>
     (pr_main p \<noteq> Serving \<longrightarrow> cg_main (pr_group p) = Closed \<and>
        pr_cleaned p @ cleanups_left (pr_main p) = start_deferred w @ main_deferred) \<and>
     (\<not> sig_waiting (pr_signals p) \<longrightarrow> cg_ctx_done (pr_group p))"

lemma process_inv_step: "process_step hs w p p' \<Longrightarrow> process_inv w p \<Longrightarrow> process_inv w p'"
  unfolding process_step_def process_inv_def
  by (elim conjE process_moveE)
    (auto simp: cancel_context_def deliver_def receive_def cg_step_def dest: closed_move split: if_splits)

lemma process_inv_runs: "process_runs hs w p p' \<Longrightarrow> process_inv w p \<Longrightarrow> process_inv w p'"
  by (induction rule: process_runs.induct) (auto intro: process_inv_step)

lemma process_inv_reachable: "process_runs hs w (started signalled) p \<Longrightarrow> process_inv w p"
  by (erule process_inv_runs) (simp add: process_inv_def started_def setupGracefulShutdown_def)

section \<open>How the process ends\<close>

text \<open>A run of the group in which nothing cancels is a run of the process.\<close>

lemma ctx_stays:
  assumes "move hs cg cg'" and "cg_ctx_done cg"
  shows "cg_ctx_done cg'"
  using assms
proof (cases rule: move.cases)
  case (lost_one tp tps idents cg'' ident)
  then show ?thesis using lose_same(1) [of tp cg cg'' ident] assms(2) by (simp add: same_control_def)
next
  case (shutdown_one idents waits ident cg'')
  then show ?thesis using shut_same(1) [of ident cg cg''] assms(2) by (simp add: same_control_def)
qed (auto simp: assign_one_def)

lemma ctx_runs: "runs hs cg cg' \<Longrightarrow> cg_ctx_done cg \<Longrightarrow> cg_ctx_done cg'"
  by (induction rule: runs.induct) (auto simp: cg_step_def dest: ctx_stays)

lemma group_process_runs:
  assumes "runs hs cg cg'" and "cg = pr_group p" and "cg_ctx_done cg" and "pr_main p \<noteq> Exited"
  shows "process_runs hs w p (p\<lparr>pr_group := cg'\<rparr>)"
  using assms
proof (induction rule: runs.induct)
  case stay
  then show ?case using at_once [of hs w p] by simp
next
  case (more cg cg' cg'')
  have "cg_ctx_done cg'" "cg_ctx_done cg''"
    using more ctx_runs runs.more by blast+
  then have "process_step hs w (p\<lparr>pr_group := cg'\<rparr>) (p\<lparr>pr_group := cg''\<rparr>)"
    using group [of hs "p\<lparr>pr_group := cg'\<rparr>" cg'' w] more.hyps(2) more.prems
    by (simp add: process_step_def cg_step_def)
  with more show ?case by (auto intro: then_step)
qed

lemma unwind_runs:
  "pr_main p = Unwinding ds \<Longrightarrow> cg_panic (pr_group p) = None \<Longrightarrow>
    \<exists>p'. process_runs hs w p p' \<and> pr_main p' = Exited"
proof (induction ds arbitrary: p)
  case Nil
  then have "process_step hs w p (p\<lparr>pr_main := Exited\<rparr>)" by (simp add: process_step_def return)
  then show ?case using then_step [OF at_once] by (intro exI [of _ "p\<lparr>pr_main := Exited\<rparr>"]) auto
next
  case (Cons d ds)
  let ?q = "(if d = CancelContext then cancel_context p else p)\<lparr>pr_main := Unwinding ds, pr_cleaned := pr_cleaned p @ [d]\<rparr>"
  have "process_step hs w p ?q" using Cons.prems by (simp add: process_step_def unwind)
  moreover have "\<exists>p'. process_runs hs w ?q p' \<and> pr_main p' = Exited"
    by (rule Cons.IH) (use Cons.prems in \<open>simp_all add: cancel_context_def\<close>)
  ultimately show ?case using process_runs_trans then_step [OF at_once] by blast
qed

text \<open>After the client is closed no batch is sent any more.\<close>

lemma nothing_sent:
  assumes "move hs cg cg'" and "cg_consumers cg = []"
  shows "cg_delivered cg' = cg_delivered cg"
  using assms
proof (cases rule: move.cases)
  case (lost_one tp tps idents cg'' ident)
  then show ?thesis using assms(2) by (simp add: lose_one_def)
next
  case (shutdown_one idents waits ident cg'')
  then show ?thesis by (auto simp: shut_one_def split: sum.splits)
qed (auto simp: assign_one_def)

lemma closed_runs:
  assumes "runs hs cg cg'" and "reachable hs cg" and "cg_main cg = Closed"
  shows "cg_main cg' = Closed \<and> cg_delivered cg' = cg_delivered cg"
  using assms
proof (induction rule: runs.induct)
  case (more cg cg' cg'')
  then have c: "cg_main cg' = Closed" "cg_delivered cg' = cg_delivered cg" by simp_all
  have "reachable hs cg'" by (rule runs_trans [OF more.hyps(1) more.prems(1)])
  then have "cg_consumers cg' = []" by (rule closed_empty) (rule c(1))
  then show ?case using c more.hyps(2) closed_move nothing_sent by (simp add: cg_step_def) metis
qed simp

text \<open>Conversely the process can do whatever the group can do, with a signal where the group is cancelled.\<close>

lemma ctx_move: "move hs cg cg' \<Longrightarrow> cg_ctx_done cg' = cg_ctx_done cg \<or> cg' = cg\<lparr>cg_ctx_done := True\<rparr> \<and> \<not> cg_ctx_done cg"
proof (induction rule: move.induct)
  case (lost_one cg tp tps idents cg'' ident)
  then show ?case using lose_same(1) [of tp cg cg'' ident] by (simp add: same_control_def)
next
  case (shutdown_one cg idents waits ident cg'')
  then show ?case using shut_same(1) [of ident cg cg''] by (simp add: same_control_def)
qed (auto simp: assign_one_def)

definition serving :: "ConsumerGroup \<Rightarrow> process" where
  "serving cg =
     (started False)\<lparr>pr_group := cg,
       pr_signals := (if cg_ctx_done cg then \<lparr>sig_channel = False, sig_waiting = False\<rparr> else setupGracefulShutdown)\<rparr>"

lemma signalled_step:
  assumes "cg_panic cg = None" and "\<not> cg_ctx_done cg"
  shows "process_runs hs w (serving cg) (serving (cg\<lparr>cg_ctx_done := True\<rparr>))"
proof -
  let ?d = "(serving cg)\<lparr>pr_signals := deliver setupGracefulShutdown\<rparr>"
  have "process_step hs w (serving cg) ?d"
    using signal [of hs w "serving cg"] assms by (simp add: process_step_def serving_def started_def)
  moreover have "process_step hs w ?d (serving (cg\<lparr>cg_ctx_done := True\<rparr>))"
    using handle [of ?d "\<lparr>sig_channel = False, sig_waiting = False\<rparr>" hs w] assms
    by (simp add: process_step_def serving_def started_def receive_def deliver_def setupGracefulShutdown_def cancel_context_def)
  ultimately show ?thesis by (blast intro: at_once then_step)
qed

lemma group_serves:
  assumes "runs hs cg cg'" and "cg = NewConsumerGroup"
  shows "process_runs hs w (started False) (serving cg')"
  using assms
proof (induction rule: runs.induct)
  case stay
  have "serving NewConsumerGroup = started False" by (simp add: serving_def started_def NewConsumerGroup_def)
  then show ?case using stay at_once by metis
next
  case (more cg cg' cg'')
  have "process_runs hs w (serving cg') (serving cg'')"
  proof (cases "cg_ctx_done cg'' = cg_ctx_done cg'")
    case True
    have "serving cg'' = (serving cg')\<lparr>pr_group := cg''\<rparr>" using True by (simp add: serving_def)
    moreover have "process_step hs w (serving cg') ((serving cg')\<lparr>pr_group := cg''\<rparr>)"
      using group [of hs "serving cg'" cg'' w] True more.hyps(2)
      by (simp add: process_step_def serving_def started_def cg_step_def)
    ultimately show ?thesis by (metis at_once then_step)
  next
    case False
    then show ?thesis using ctx_move [of hs cg' cg''] more.hyps(2) signalled_step [of cg'] by (auto simp: cg_step_def)
  qed
  then show ?case using more process_runs_trans by blast
qed

section \<open>What a group whose poll loop has ended still does\<close>












section \<open>Properties\<close>

text \<open>
  C6: once the context is cancelled, by a signal during the start or while the group serves, the
  process can go on to its end from every state it can reach, exactly when the poll loop does not hold
  the group; it ends with all deferred calls made. Otherwise it never ends, whatever signals
  follow: the handler of signals has done what it does.
\<close>

theorem process_exits_iff:
  assumes "process_runs hs w (started signalled) p" and "cg_panic (pr_group p) = None"
    and "cg_ctx_done (pr_group p)" and "answering hs"
  shows "(\<exists>p'. process_runs hs w p p' \<and> pr_main p' = Exited \<and>
            pr_cleaned p' = start_deferred w @ main_deferred) \<longleftrightarrow> \<not> stuck (pr_group p)"
proof
  assume "\<exists>p'. process_runs hs w p p' \<and> pr_main p' = Exited \<and>
    pr_cleaned p' = start_deferred w @ main_deferred"
  then obtain p' where r: "process_runs hs w p p'" and e: "pr_main p' = Exited" by blast
  have "process_inv w p'"
    by (rule process_inv_reachable) (rule process_runs_trans [OF r assms(1)])
  then have "cg_main (pr_group p') = Closed" using e by (simp add: process_inv_def)
  then show "\<not> stuck (pr_group p)" using stuck_runs [OF group_runs [OF r]] by (auto simp: stuck_def)
next
  assume "\<not> stuck (pr_group p)"
  have inv: "process_inv w p" by (rule process_inv_reachable [OF assms(1)])
  have reach: "reachable hs (pr_group p)" by (rule process_group_reachable [OF assms(1)])
  have ending: "ending (pr_group p)"
    using stuck_or_free [OF cg_inv_reachable [OF reach] assms(3)] \<open>\<not> stuck (pr_group p)\<close>
      cg_inv_reachable [OF reach] assms(2,3) by (simp add: ending_def)
  have "\<exists>p'. process_runs hs w p p' \<and> pr_main p' = Exited"
  proof (cases "pr_main p")
    case Serving
    obtain cg where r: "runs hs (pr_group p) cg" and c: "cg_main cg = Closed" and n: "cg_panic cg = None"
      using shutdown_completes [OF assms(4) ending] by blast
    let ?q = "p\<lparr>pr_group := cg\<rparr>"
    let ?u = "?q\<lparr>pr_main := Unwinding (start_deferred w @ main_deferred)\<rparr>"
    have "process_runs hs w p ?q" by (rule group_process_runs [OF r]) (use assms(3) Serving in simp_all)
    moreover have "process_step hs w ?q ?u" using served [of ?q hs w] Serving c n by (simp add: process_step_def)
    moreover obtain p' where "process_runs hs w ?u p'" "pr_main p' = Exited"
      using unwind_runs [where p = ?u and hs = hs and w = w] n by auto
    ultimately show ?thesis by (blast intro: process_runs_trans then_step)
  next
    case (Unwinding ds)
    then show ?thesis using unwind_runs assms(2) by blast
  next
    case Exited
    then show ?thesis using at_once by blast
  qed
  then obtain p' where r: "process_runs hs w p p'" and e: "pr_main p' = Exited" by blast
  have "process_inv w p'" by (rule process_inv_reachable) (rule process_runs_trans [OF r assms(1)])
  then show "\<exists>p'. process_runs hs w p p' \<and> pr_main p' = Exited \<and>
    pr_cleaned p' = start_deferred w @ main_deferred"
    using r e by (auto simp: process_inv_def)
qed

theorem process_exits_iff_witness:
  "\<exists>p'. process_runs sample_handlers (startup_wiring sample_env False) (started True) p' \<and> pr_main p' = Exited \<and>
     pr_cleaned p' = start_deferred (startup_wiring sample_env False) @ main_deferred"
proof -
  have "cg_panic (pr_group (started True)) = None" "cg_ctx_done (pr_group (started True))"
    "\<not> stuck (pr_group (started True))"
    by (simp_all add: started_def NewConsumerGroup_def stuck_def)
  then show ?thesis
    using process_exits_iff [OF at_once _ _ sample_answering] by blast
qed

text \<open>
  C7: nothing is used after it is closed. From the first deferred call on, no partition has a consumer,
  every consumer has returned, each batch that one was sent has been committed, and whatever the
  goroutines that are left still do, no batch is sent any more.
\<close>

theorem closed_after_consumers:
  assumes "process_runs hs w (started signalled) p" and "pr_main p \<noteq> Serving"
    and "process_runs hs w p p'" and "i < length (cg_heap (pr_group p'))"
  shows "cg_consumers (pr_group p') = [] \<and> point (pr_group p') i = Returned \<and>
    delivered_to i (pr_group p') = committed_by i (pr_group p') \<and>
    cg_delivered (pr_group p') = cg_delivered (pr_group p)"
proof -
  have reach: "reachable hs (pr_group p)" "reachable hs (pr_group p')"
    using process_group_reachable process_runs_trans assms(1,3) by blast+
  have "cg_main (pr_group p) = Closed" using process_inv_reachable [OF assms(1)] assms(2) by (simp add: process_inv_def)
  from closed_runs [OF group_runs [OF assms(3)] reach(1) this] show ?thesis
    using closed_leaves_nothing [OF reach(2) _ assms(4)] by simp
qed

theorem closed_after_consumers_witness:
  "\<exists>p. process_runs sample_handlers (startup_wiring sample_env False) (started False) p \<and> pr_main p \<noteq> Serving \<and>
     length (cg_heap (pr_group p)) > 0 \<and> point (pr_group p) 0 = Returned \<and> cg_consumers (pr_group p) = []"
proof -
  let ?w = "startup_wiring sample_env False"
  let ?c = "(sample_group Selecting)\<lparr>cg_ctx_done := True\<rparr>"
  have r: "reachable sample_handlers ?c"
    by (rule reach_move [OF sample_assigned]) (use cancel [of "sample_group Selecting" sample_handlers] in simp_all)
  then have "ending ?c" using cg_inv_reachable by (simp add: ending_def poll_free_def)
  then obtain cg where cg: "runs sample_handlers ?c cg" "cg_main cg = Closed" "cg_panic cg = None"
    using shutdown_completes [OF sample_answering] by blast
  let ?p = "(serving cg)\<lparr>pr_main := Unwinding (start_deferred ?w @ main_deferred)\<rparr>"
  have p: "process_runs sample_handlers ?w (started False) ?p"
    by (rule then_step [OF group_serves [OF runs_trans [OF cg(1) r] refl]])
      (use served [of "serving cg" sample_handlers ?w] cg in \<open>simp_all add: process_step_def serving_def started_def\<close>)
  have "0 < length (cg_heap cg)" using heap_grows [OF cg(1)] by (simp add: sample_group_def del: length_greater_0_conv)
  then show ?thesis
    using closed_after_consumers [OF p _ at_once, of 0] p
    by (intro exI [of _ ?p]) (simp add: serving_def)
qed

text \<open>
  C8: a signal cannot end a process that hangs. A signal that comes between a poll and the iteration
  over its fetches leaves the poll loop stopped with the group held; from then on \<open>main\<close> never
  returns and nothing is closed, whatever further signals are sent: they are caught, and the goroutine
  that would have read them has ended.
\<close>

theorem signals_cannot_stop:
  "\<exists>p. process_runs hs w (started False) p \<and> cg_panic (pr_group p) = None \<and> cg_poller (pr_group p) = Stopped \<and>
     (\<forall>p'. process_runs hs w p p' \<longrightarrow> pr_main p' = Serving \<and> pr_cleaned p' = [] \<and>
        receive (deliver (pr_signals p')) = None)"
proof -
  obtain cg where cg: "reachable hs cg" "cg_panic cg = None" "cg_poller cg = Stopped"
    and never: "\<not> (\<exists>cg'. runs hs cg cg' \<and> cg_main cg' = Closed)"
    using cancelled_poll_hangs by blast
  have p: "process_runs hs w (started False) (serving cg)" by (rule group_serves [OF cg(1) refl])
  have finished: "cg_ctx_done cg" using cg_inv_reachable [OF cg(1)] cg(3) by (simp add: cg_inv_def phase_inv_def)
  have "pr_main p' = Serving \<and> pr_cleaned p' = [] \<and> receive (deliver (pr_signals p')) = None"
    if r: "process_runs hs w (serving cg) p'" for p'
  proof -
    have "process_inv w p'" by (rule process_inv_reachable) (rule process_runs_trans [OF r p])
    moreover have "cg_main (pr_group p') \<noteq> Closed" using never group_runs [OF r] by (auto simp: serving_def)
    moreover have "\<not> sig_waiting (pr_signals p')"
      using r finished
      by (induction "serving cg" p' rule: process_runs.induct)
        (auto simp: serving_def process_step_def deliver_def receive_def cancel_context_def
          elim!: process_moveE split: if_splits)
    ultimately show ?thesis by (auto simp: process_inv_def receive_def deliver_def)
  qed
  then show ?thesis using p cg by (intro exI [of _ "serving cg"]) (simp add: serving_def)
qed

theorem signals_cannot_stop_witness:
  "\<exists>p. process_runs sample_handlers (startup_wiring sample_env False) (started False) p \<and>
     cg_poller (pr_group p) = Stopped \<and> pr_main p = Serving \<and> receive (deliver (pr_signals p)) = None"
  using signals_cannot_stop [of sample_handlers "startup_wiring sample_env False"] at_once by blast



end
