(* ===== verification/Json_Text.thy ===== *)
theory Json_Text
  imports Go_Json
begin

text \<open>
  The JSON reader of \<open>Go_Json\<close> is total on texts: the fuel it is started with is never used up,
  whatever the text, so that a refusal always comes from the text (or its depth) and more fuel
  changes nothing.
\<close>

section \<open>Reading consumes\<close>

lemma length_skip_space: "length (skip_space s) \<le> length s"
  by (simp add: skip_space_def length_dropWhile_le)

lemma scan_string_length: "scan_string s = Some (raw, rest) \<Longrightarrow> length rest < length s"
proof (induction s arbitrary: raw rule: measure_induct_rule [where f = length])
  case (less s)
  have shorter: "length rest < length s" if "scan_string t = Some (raw', rest)" "length t < length s" for t raw'
    using less.IH [OF that(2,1)] that(2) by simp
  from less.prems show ?case
    by (cases s) (auto split: if_splits list.splits option.splits prod.splits dest: shorter)
qed

lemma scan_digits_length: "scan_digits s = (ds, rest) \<Longrightarrow> length rest + length ds = length s"
  unfolding scan_digits_def by (metis add.commute length_append prod.inject takeWhile_dropWhile_id)

lemma scan_frac_length: "scan_frac s = Some (fp, rest) \<Longrightarrow> length rest \<le> length s"
  by (cases s) (auto simp: scan_frac_def Let_def split: if_splits prod.splits dest: scan_digits_length)

lemma scan_exp_length: "scan_exp s = Some (ep, rest) \<Longrightarrow> length rest \<le> length s"
  by (cases s) (auto simp: scan_exp_def Let_def split: if_splits prod.splits dest!: scan_digits_length)

lemma scan_number_length: "scan_number s = Some (n, rest) \<Longrightarrow> length rest < length s"
proof -
  assume a: "scan_number s = Some (n, rest)"
  let ?neg = "takeWhile (\<lambda>x. x = CHR ''-'') (take 1 s)"
  obtain ds s1 where d: "scan_digits (drop (length ?neg) s) = (ds, s1)" by (cases "scan_digits (drop (length ?neg) s)")
  define p where "p = (if take 1 ds = ''0'' then (''0'', drop 1 ds @ s1) else (ds, s1))"
  obtain ip s2 where p: "p = (ip, s2)" by (cases p)
  have l: "length ds + length s1 \<le> length s" using scan_digits_length [OF d] by simp
  have ip: "ip \<noteq> []" and f: "\<exists>fp s3 ep. scan_frac s2 = Some (fp, s3) \<and> scan_exp s3 = Some (ep, rest)"
    using a d p unfolding scan_number_def p_def Let_def by (auto split: if_splits option.splits prod.splits)
  then have "length s2 < length s" using l p unfolding p_def by (cases ds) (auto split: if_splits)
  then show ?thesis using f scan_frac_length scan_exp_length by fastforce
qed

lemma strip_prefix_length: "strip_prefix p s = Some rest \<Longrightarrow> p \<noteq> [] \<Longrightarrow> s \<noteq> [] \<Longrightarrow> length rest < length s"
  by (auto simp: strip_prefix_def split: if_splits)

lemma parse_length:
  "parse_value f d s = Some (j, rest) \<Longrightarrow> length rest < length s"
  "parse_elems f d s = Some (js, rest) \<Longrightarrow> length rest < length s"
  "parse_members f d s = Some (kvs, rest) \<Longrightarrow> length rest < length s"
proof (induction f d s and f d s and f d s arbitrary: j rest and js rest and kvs rest
    rule: parse_value_parse_elems_parse_members.induct)
  case (2 f d s)
  obtain c cs where s: "skip_space s = c # cs" using 2(3) by (cases "skip_space s") auto
  have le: "Suc (length cs) \<le> length s" using length_skip_space [of s] s by simp
  have "length rest \<le> length cs"
    using 2 s length_skip_space [of cs]
    by (auto split: if_splits list.splits option.splits prod.splits
      dest: scan_string_length scan_number_length strip_prefix_length) fastforce+
  then show ?case using le by simp
next
  case (4 f d s)
  obtain j s1 where v: "parse_value f d s = Some (j, s1)" using 4(3) by (auto split: option.splits)
  obtain c cs where c: "skip_space s1 = c # cs" using 4(3) v by (cases "skip_space s1") auto
  have l: "length s1 < length s" "length cs < length s1"
    using 4(1) [OF v] length_skip_space [of s1] c by simp_all
  show ?case
  proof (cases "c = CHR '']''")
    case True
    then show ?thesis using 4(3) v c l by simp
  next
    case False
    then obtain js' where "parse_elems f d cs = Some (js', rest)" "c = CHR '',''"
      using 4(3) v c by (auto split: if_splits option.splits)
    then show ?thesis using 4(2) [OF v refl c False] l by fastforce
  qed
next
  case (6 f d s)
  obtain q qs where q: "skip_space s = q # qs" using 6(3) by (cases "skip_space s") auto
  have qd: "q = dquote" using 6(3) q by (auto split: if_splits)
  obtain k s1 where k: "scan_string qs = Some (k, s1)" using 6(3) q qd by (auto split: option.splits)
  obtain x xs where x: "skip_space s1 = x # xs" using 6(3) q qd k by (cases "skip_space s1") auto
  have xd: "x = CHR '':''" using 6(3) q qd k x by (auto split: if_splits)
  obtain j s2 where v: "parse_value f d xs = Some (j, s2)" using 6(3) q qd k x xd by (auto split: option.splits)
  obtain c cs where c: "skip_space s2 = c # cs" using 6(3) q qd k x xd v by (cases "skip_space s2") auto
  have l: "length cs < length s"
    using 6(1) [OF q _ k refl x _ v] qd xd scan_string_length [OF k] length_skip_space [of s] length_skip_space [of s1]
      length_skip_space [of s2] q x c by simp
  show ?case
  proof (cases "c = CHR ''}''")
    case True
    then show ?thesis using 6(3) q qd k x xd v c l by simp
  next
    case False
    then obtain kvs' where "parse_members f d cs = Some (kvs', rest)" "c = CHR '',''"
      using 6(3) q qd k x xd v c by (auto split: if_splits option.splits)
    then show ?thesis using 6(2) [OF q _ k refl x _ v refl c False] qd xd l by fastforce
  qed
qed auto

section \<open>The fuel is enough\<close>

lemma parse_fuel:
  "2 * length s + 1 \<le> f \<Longrightarrow> 2 * length s + 1 \<le> g \<Longrightarrow> parse_value f d s = parse_value g d s"
  "2 * length s + 2 \<le> f \<Longrightarrow> 2 * length s + 2 \<le> g \<Longrightarrow> parse_elems f d s = parse_elems g d s"
  "2 * length s + 2 \<le> f \<Longrightarrow> 2 * length s + 2 \<le> g \<Longrightarrow> parse_members f d s = parse_members g d s"
proof (induction f d s and f d s and f d s arbitrary: g and g and g
    rule: parse_value_parse_elems_parse_members.induct)
  case (2 f d s)
  obtain g' where g: "g = Suc g'" using 2(4) by (cases g) auto
  show ?case
  proof (cases "skip_space s")
    case Nil
    then show ?thesis by (simp add: g)
  next
    case c: (Cons c cs)
    have cs: "length cs < length s" using length_skip_space [of s] c by simp
    show ?thesis
    proof (cases "skip_space cs")
      case Nil
      then show ?thesis using c by (simp add: g)
    next
      case e: (Cons e es)
      have "2 * length (e # es) + 2 \<le> f" "2 * length (e # es) + 2 \<le> g'"
        using length_skip_space [of cs] e cs 2(3,4) g by simp_all
      then have "c \<noteq> dquote \<Longrightarrow> c = CHR ''['' \<Longrightarrow> \<not> 10000 \<le> d \<Longrightarrow> e \<noteq> CHR '']'' \<Longrightarrow>
          parse_elems f (Suc d) (e # es) = parse_elems g' (Suc d) (e # es)"
        and "c \<noteq> dquote \<Longrightarrow> c \<noteq> CHR ''['' \<Longrightarrow> c = CHR ''{'' \<Longrightarrow> \<not> 10000 \<le> d \<Longrightarrow> e \<noteq> CHR ''}'' \<Longrightarrow>
          parse_members f (Suc d) (e # es) = parse_members g' (Suc d) (e # es)"
        using 2(1) [OF c _ _ _ e, of g'] 2(2) [OF c _ _ _ _ e, of g'] by blast+
      then show ?thesis using c e
        by (cases "c = CHR ''[''"; cases "c = CHR ''{''"; cases "e = CHR '']''"; cases "e = CHR ''}''")
          (simp_all add: g)
    qed
  qed
next
  case (4 f d s)
  obtain g' where g: "g = Suc g'" using 4(4) by (cases g) auto
  have v: "parse_value f d s = parse_value g' d s" using 4(1) [of g'] 4(3,4) g by simp
  show ?case
  proof (cases "parse_value f d s")
    case None
    then show ?thesis using v by (simp add: g)
  next
    case (Some p)
    obtain j s1 where p: "p = (j, s1)" by (cases p)
    show ?thesis
    proof (cases "skip_space s1")
      case Nil
      then show ?thesis using Some p v by (simp add: g)
    next
      case c: (Cons c cs)
      have "length cs < length s" using parse_length(1) [of f d s j s1] Some p length_skip_space [of s1] c by simp
      then have "parse_elems f d cs = parse_elems g' d cs" if "c \<noteq> CHR '']''" "c = CHR '',''"
        using 4(2) [OF Some p [symmetric] c that] 4(3,4) g by simp
      then show ?thesis using Some p v c by (simp add: g)
    qed
  qed
next
  case (6 f d s)
  obtain g' where g: "g = Suc g'" using 6(4) by (cases g) auto
  show ?case
  proof (cases "\<exists>qs k s1 xs. skip_space s = dquote # qs \<and> scan_string qs = Some (k, s1) \<and> skip_space s1 = CHR '':'' # xs")
    case False
    then show ?thesis by (auto simp: g split: list.split option.split)
  next
    case True
    then obtain qs k s1 xs where q: "skip_space s = dquote # qs" and k: "scan_string qs = Some (k, s1)"
      and x: "skip_space s1 = CHR '':'' # xs" by blast
    have xs: "length xs + 3 \<le> length s"
      using scan_string_length [OF k] length_skip_space [of s] length_skip_space [of s1] q x by simp
    have v: "parse_value f d xs = parse_value g' d xs"
      using 6(1) [OF q _ k refl x, of g'] 6(3,4) xs g by simp
    show ?thesis
    proof (cases "parse_value f d xs")
      case None
      then show ?thesis using q k x v by (simp add: g)
    next
      case (Some p)
      obtain j s2 where p: "p = (j, s2)" by (cases p)
      show ?thesis
      proof (cases "skip_space s2")
        case Nil
        then show ?thesis using q k x v [symmetric] Some p by (simp add: g)
      next
        case c: (Cons c cs)
        have "length cs < length xs" using parse_length(1) [of f d xs j s2] Some p length_skip_space [of s2] c by simp
        then have "parse_members f d cs = parse_members g' d cs" if "c \<noteq> CHR ''}''" "c = CHR '',''"
          using 6(2) [OF q _ k refl x _ Some p [symmetric] c that, of g'] 6(3,4) xs g by simp
        then show ?thesis using q k x v [symmetric] Some p c by (simp add: g)
      qed
    qed
  qed
qed simp_all

text \<open>A text is accepted or refused for what it says: no amount of fuel changes the answer.\<close>

theorem json_fuel:
  assumes "2 * length s + 1 \<le> f"
  shows "parse_json s =
    (case parse_value f 0 s of None \<Rightarrow> None
     | Some (j, rest) \<Rightarrow> if skip_space rest = [] then Some j else None)"
  using parse_fuel(1) [of s f "2 * length s + 2" 0] assms by (simp add: parse_json_def)

section \<open>Reading what was printed\<close>

lemma scan_string_append: "scan_string t = Some (raw, rest) \<Longrightarrow> scan_string (t @ u) = Some (raw, rest @ u)"
proof (induction t arbitrary: raw rule: measure_induct_rule [where f = length])
  case (less t)
  have IH: "scan_string (x @ u) = Some (raw', rest @ u)" if "scan_string x = Some (raw', rest)" "length x < length t" for x raw'
    using less.IH [OF that(2,1)] .
  obtain c cs where t: "t = c # cs" using less.prems by (cases t) auto
  consider "c = dquote" | "c \<noteq> dquote" "c = backslash" | "c \<noteq> dquote" "c \<noteq> backslash" by blast
  then show ?case
  proof cases
    case 1
    then show ?thesis using less.prems t by auto
  next
    case 2
    obtain e es where cs: "cs = e # es" using less.prems 2 t by (cases cs) auto
    show ?thesis
    proof (cases "e = dquote \<or> e = backslash \<or> e \<in> set ''/bfnrt''")
      case True
      then obtain raw' where "scan_string es = Some (raw', rest)" "raw = c # e # raw'"
        using less.prems 2 t cs by (auto split: option.splits)
      then show ?thesis using IH [of es raw'] True 2 t cs by auto
    next
      case False
      then obtain a b d f gs raw' where es: "es = a # b # d # f # gs" and u: "e = CHR ''u''"
        and h: "hex_value a \<noteq> None \<and> hex_value b \<noteq> None \<and> hex_value d \<noteq> None \<and> hex_value f \<noteq> None"
        and gs: "scan_string gs = Some (raw', rest)" "raw = c # e # a # b # d # f # raw'"
        using less.prems 2 t cs by (simp split: list.splits option.splits if_splits) auto
      have "scan_string (gs @ u) = Some (raw', rest @ u)" by (rule IH [OF gs(1)]) (simp add: t cs es)
      then show ?thesis using 2 gs(2) h unfolding t cs es u by (simp add: dquote_def backslash_def)
    qed
  next
    case 3
    then obtain raw' where "scan_string cs = Some (raw', rest)" "raw = c # raw'" "\<not> byte c < 32"
      using less.prems t by (auto split: option.splits if_splits)
    then show ?thesis using IH [of cs raw'] 3 t by simp
  qed
qed

text \<open>The bytes that may stand between the quotes of a JSON string, and the texts of numbers.\<close>

definition raw_ok :: "string \<Rightarrow> bool" where
  "raw_ok s \<longleftrightarrow> scan_string (s @ [dquote]) = Some (s, [])"

definition number_ok :: "string \<Rightarrow> bool" where
  "number_ok s \<longleftrightarrow> scan_number s = Some (s, [])"

fun wf_json :: "json \<Rightarrow> bool" where
  "wf_json JNull = True"
| "wf_json (JBool b) = True"
| "wf_json (JNum s) = number_ok s"
| "wf_json (JStr s) = raw_ok s"
| "wf_json (JArr js) = list_all wf_json js"
| "wf_json (JObj kvs) = list_all (\<lambda>(k, j). raw_ok k \<and> wf_json j) kvs"

text \<open>How many brackets are open at the deepest place.\<close>

fun nest :: "json \<Rightarrow> nat" where
  "nest (JArr js) = Suc (foldr max (map nest js) 0)"
| "nest (JObj kvs) = Suc (foldr max (map (\<lambda>(k, j). nest j) kvs) 0)"
| "nest j = 0"

lemma foldr_max_le: "foldr max xs (0 :: nat) \<le> n \<longleftrightarrow> (\<forall>x \<in> set xs. x \<le> n)"
  by (induction xs) auto

definition ends_number :: "string \<Rightarrow> bool" where
  "ends_number s \<longleftrightarrow> (case s of [] \<Rightarrow> True | c # cs \<Rightarrow> \<not> is_digit c \<and> c \<noteq> CHR ''.'' \<and> lower c \<noteq> CHR ''e'')"

lemma scan_digits_append:
  assumes "scan_digits s = (ds, rest)" and "ends_number u"
  shows "scan_digits (s @ u) = (ds, rest @ u)"
proof (cases "rest = []")
  case True
  then have d: "\<forall>c \<in> set s. is_digit c" using assms(1) by (auto simp: scan_digits_def dropWhile_eq_Nil_conv)
  then have "takeWhile is_digit s = s" by (simp add: takeWhile_eq_all_conv)
  with True d assms show ?thesis
    by (cases u) (auto simp: scan_digits_def ends_number_def takeWhile_append dropWhile_append)
next
  case False
  then show ?thesis using assms(1)
    by (auto simp: scan_digits_def takeWhile_append dropWhile_append dropWhile_eq_Nil_conv)
qed

lemma scan_frac_append:
  assumes "scan_frac s = Some (fp, rest)" and "ends_number u"
  shows "scan_frac (s @ u) = Some (fp, rest @ u)"
  using assms
  by (cases s; cases u)
    (auto simp: scan_frac_def ends_number_def Let_def scan_digits_append split: if_splits prod.splits)

lemma scan_exp_append:
  assumes "scan_exp s = Some (ep, rest)" and u: "ends_number u"
  shows "scan_exp (s @ u) = Some (ep, rest @ u)"
proof (cases s)
  case Nil
  then show ?thesis using assms by (cases u) (auto simp: scan_exp_def ends_number_def)
next
  case (Cons c cs)
  show ?thesis
  proof (cases "lower c = CHR ''e''")
    case False
    then show ?thesis using assms Cons by (auto simp: scan_exp_def)
  next
    case True
    let ?sgn = "takeWhile (\<lambda>x. x = CHR ''+'' \<or> x = CHR ''-'') (take 1 cs)"
    obtain ds r where d: "scan_digits (drop (length ?sgn) cs) = (ds, r)" by (cases "scan_digits (drop (length ?sgn) cs)")
    then have e: "ds \<noteq> []" "ep = c # ?sgn @ ds" "rest = r"
      using assms(1) Cons True by (auto simp: scan_exp_def Let_def split: if_splits)
    have cs: "cs \<noteq> []" using d e by (auto simp: scan_digits_def)
    then have "take 1 (cs @ u) = take 1 cs" by (cases cs) auto
    moreover have "drop (length ?sgn) (cs @ u) = drop (length ?sgn) cs @ u"
      using cs by (cases cs) auto
    ultimately show ?thesis
      using scan_digits_append [OF d u] e Cons True
      by (simp add: scan_exp_def Let_def del: take_append drop_append)
  qed
qed

lemma scan_number_append:
  assumes "scan_number s = Some (n, rest)" and u: "ends_number u"
  shows "scan_number (s @ u) = Some (n, rest @ u)"
proof -
  let ?neg = "takeWhile (\<lambda>x. x = CHR ''-'') (take 1 s)"
  obtain ds s1 where d: "scan_digits (drop (length ?neg) s) = (ds, s1)" by (cases "scan_digits (drop (length ?neg) s)")
  define ip where "ip = (if take 1 ds = ''0'' then ''0'' else ds)"
  define s2 where "s2 = (if take 1 ds = ''0'' then drop 1 ds @ s1 else s1)"
  obtain fp s3 ep where f: "ip \<noteq> []" "scan_frac s2 = Some (fp, s3)" "scan_exp s3 = Some (ep, rest)"
    "n = ?neg @ ip @ fp @ ep"
    using assms(1) d unfolding scan_number_def ip_def s2_def Let_def
    by (auto split: if_splits option.splits prod.splits)
  have s: "s \<noteq> []" using d f(1) by (auto simp: ip_def scan_digits_def split: if_splits)
  have "take 1 (s @ u) = take 1 s" using s by (cases s) auto
  moreover have "drop (length ?neg) (s @ u) = drop (length ?neg) s @ u" using s by (cases s) auto
  ultimately show ?thesis
    using scan_digits_append [OF d u] scan_frac_append [OF f(2) u] scan_exp_append [OF f(3) u] f(1,4)
    by (cases "take 1 ds = ''0''") (simp_all add: scan_number_def ip_def s2_def Let_def del: take_append drop_append)
qed

lemma ends_number_bracket [simp]:
  "ends_number (CHR '','' # s)" "ends_number (CHR '']'' # s)" "ends_number (CHR ''}'' # s)" "ends_number []"
  by (simp_all add: ends_number_def digit_value_def lower_def less_eq_char_def)

text \<open>No value starts with a white space or a closing bracket.\<close>

lemma number_start: "number_ok s \<Longrightarrow> \<exists>c cs. s = c # cs \<and> (is_digit c \<or> c = CHR ''-'')"
proof -
  assume a: "number_ok s"
  then obtain c cs where s: "s = c # cs"
    by (cases s) (auto simp: number_ok_def scan_number_def scan_digits_def)
  show ?thesis
    using a s by (cases "is_digit c"; cases "c = CHR ''-''")
      (auto simp: number_ok_def scan_number_def scan_digits_def Let_def)
qed

lemma digit_byte: "is_digit c \<Longrightarrow> 48 \<le> byte c \<and> byte c \<le> 57"
  by (auto simp: digit_value_def byte_def split: if_splits)

lemma number_char:
  assumes "is_digit c \<or> c = CHR ''-''"
  shows "\<not> is_space c" "c \<notin> {dquote, CHR ''['', CHR ''{'', CHR '']'', CHR ''}'', CHR ''n'', CHR ''t'', CHR ''f''}"
proof -
  have "45 \<le> byte c" "byte c \<le> 57" using assms digit_byte [of c] by (auto simp: byte_def)
  then show "\<not> is_space c" "c \<notin> {dquote, CHR ''['', CHR ''{'', CHR '']'', CHR ''}'', CHR ''n'', CHR ''t'', CHR ''f''}"
    by (auto simp: is_space_def byte_def dquote_def)
qed

lemma render_start:
  assumes "wf_json j"
  shows "\<exists>c cs. render j = c # cs \<and> \<not> is_space c \<and> c \<noteq> CHR '']'' \<and> c \<noteq> CHR ''}''"
proof (cases j)
  case (JNum s)
  then show ?thesis using number_start [of s] number_char assms by fastforce
qed (auto simp: is_space_def byte_def in_quotes_def dquote_def)

lemma skip_render: "wf_json j \<Longrightarrow> skip_space (render j @ rest) = render j @ rest"
  using render_start [of j] by (auto simp: skip_space_def)

lemma scan_raw: "raw_ok s \<Longrightarrow> scan_string (s @ dquote # rest) = Some (s, rest)"
  using scan_string_append [of "s @ [dquote]" s "[]" rest] by (simp add: raw_ok_def)

abbreviation reads_back :: "json \<Rightarrow> bool" where
  "reads_back j \<equiv> \<forall>f d rest. d + nest j \<le> 10000 \<longrightarrow> ends_number rest \<longrightarrow>
     2 * length (render j @ rest) + 1 \<le> f \<longrightarrow> parse_value f d (render j @ rest) = Some (j, rest)"

lemma elems_read_back:
  assumes "js \<noteq> []" "\<And>j. j \<in> set js \<Longrightarrow> reads_back j \<and> wf_json j \<and> d + nest j \<le> 10000"
    and "2 * length (join '','' (map render js) @ '']'' @ rest) + 2 \<le> f"
  shows "parse_elems f d (join '','' (map render js) @ '']'' @ rest) = Some (js, rest)"
  using assms
proof (induction js arbitrary: f)
  case (Cons j js)
  obtain g where f: "f = Suc g" using Cons.prems(3) by (cases f) auto
  show ?case
  proof (cases js)
    case Nil
    then show ?thesis using Cons.prems f by (simp add: skip_space_def is_space_def byte_def)
  next
    case j2: (Cons j2 js2)
    let ?t = "join '','' (map render js) @ '']'' @ rest"
    have "parse_value g d (render j @ '','' @ ?t) = Some (j, '','' @ ?t)"
      using Cons.prems(2) [of j] Cons.prems(3) f j2 by simp
    moreover have "parse_elems g d ?t = Some (js, rest)"
      using Cons.IH [of g] Cons.prems f j2 by simp
    ultimately show ?thesis using f j2 by (simp add: skip_space_def is_space_def byte_def)
  qed
qed simp

abbreviation render_member :: "string \<times> json \<Rightarrow> string" where
  "render_member \<equiv> \<lambda>(k, j). in_quotes k @ '':'' @ render j"

lemma members_read_back:
  assumes "kvs \<noteq> []"
    and "\<And>k j. (k, j) \<in> set kvs \<Longrightarrow> reads_back j \<and> raw_ok k \<and> wf_json j \<and> d + nest j \<le> 10000"
    and "2 * length (join '','' (map render_member kvs) @ ''}'' @ rest) + 2 \<le> f"
  shows "parse_members f d (join '','' (map render_member kvs) @ ''}'' @ rest) = Some (kvs, rest)"
  using assms
proof (induction kvs arbitrary: f)
  case (Cons kj kvs)
  obtain k j where kj: "kj = (k, j)" by (cases kj)
  obtain g where f: "f = Suc g" using Cons.prems(3) by (cases f) auto
  have k: "scan_string (k @ dquote # r) = Some (k, r)" for r
    using Cons.prems(2) [of k j] kj by (intro scan_raw) simp
  have q: "skip_space (dquote # r) = dquote # r" "skip_space (CHR '':'' # r) = CHR '':'' # r"
    "skip_space (CHR '','' # r) = CHR '','' # r" "skip_space (CHR ''}'' # r) = CHR ''}'' # r" for r
    by (simp_all add: skip_space_def is_space_def byte_def dquote_def)
  show ?case
  proof (cases kvs)
    case Nil
    then show ?thesis using Cons.prems f kj k by (simp add: in_quotes_def q)
  next
    case kj2: (Cons kj2 kvs2)
    let ?t = "join '','' (map render_member kvs) @ ''}'' @ rest"
    have "parse_value g d (render j @ '','' @ ?t) = Some (j, '','' @ ?t)"
      using Cons.prems(2) [of k j] Cons.prems(3) f kj kj2 by (simp add: in_quotes_def)
    moreover have "parse_members g d ?t = Some (kvs, rest)"
    proof (rule Cons.IH)
      show "reads_back j \<and> raw_ok k \<and> wf_json j \<and> d + nest j \<le> 10000" if "(k, j) \<in> set kvs" for k j
        using Cons.prems(2) [of k j] that by simp
    qed (use Cons.prems(3) f kj2 in simp_all)
    ultimately show ?thesis using f kj kj2 k by (simp add: in_quotes_def q)
  qed
qed simp

lemma skip_start [simp]:
  "skip_space (dquote # s) = dquote # s" "skip_space (CHR ''['' # s) = CHR ''['' # s"
  "skip_space (CHR ''{'' # s) = CHR ''{'' # s" "skip_space (CHR ''n'' # s) = CHR ''n'' # s"
  "skip_space (CHR ''t'' # s) = CHR ''t'' # s" "skip_space (CHR ''f'' # s) = CHR ''f'' # s"
  "skip_space (CHR '']'' # s) = CHR '']'' # s" "skip_space (CHR ''}'' # s) = CHR ''}'' # s"
  by (simp_all add: skip_space_def is_space_def byte_def dquote_def)

lemma value_array:
  "d < 10000 \<Longrightarrow> skip_space cs = cs \<Longrightarrow> cs = e # es \<Longrightarrow> e \<noteq> CHR '']'' \<Longrightarrow>
    parse_elems g (Suc d) cs = Some (js, rest) \<Longrightarrow> parse_value (Suc g) d (CHR ''['' # cs) = Some (JArr js, rest)"
  by (simp add: dquote_def)

lemma value_object:
  "d < 10000 \<Longrightarrow> skip_space cs = cs \<Longrightarrow> cs = e # es \<Longrightarrow> e \<noteq> CHR ''}'' \<Longrightarrow>
    parse_members g (Suc d) cs = Some (kvs, rest) \<Longrightarrow> parse_value (Suc g) d (CHR ''{'' # cs) = Some (JObj kvs, rest)"
  by (simp add: dquote_def)

lemma value_empty:
  "d < 10000 \<Longrightarrow> parse_value (Suc g) d (CHR ''['' # CHR '']'' # rest) = Some (JArr [], rest)"
  "d < 10000 \<Longrightarrow> parse_value (Suc g) d (CHR ''{'' # CHR ''}'' # rest) = Some (JObj [], rest)"
  by (simp_all add: dquote_def)

lemma value_literal:
  "parse_value (Suc g) d (render JNull @ rest) = Some (JNull, rest)"
  "parse_value (Suc g) d (render (JBool b) @ rest) = Some (JBool b, rest)"
  by (cases b) (simp_all add: dquote_def strip_prefix_def)

lemma value_string: "raw_ok s \<Longrightarrow> parse_value (Suc g) d (render (JStr s) @ rest) = Some (JStr s, rest)"
  by (simp add: in_quotes_def scan_raw)

lemma value_number:
  assumes "number_ok s" and "ends_number rest"
  shows "parse_value (Suc g) d (s @ rest) = Some (JNum s, rest)"
proof -
  obtain c cs where s: "s = c # cs" and c: "is_digit c \<or> c = CHR ''-''"
    using number_start [OF assms(1)] by auto
  have "scan_number (s @ rest) = Some (s, rest)"
    using scan_number_append [of s s "[]" rest] assms by (simp add: number_ok_def)
  then show ?thesis
    using s number_char [OF c] by (simp add: skip_space_def strip_prefix_def)
qed

lemma array_reads_back:
  assumes IH: "\<And>j. j \<in> set js \<Longrightarrow> wf_json j \<and> reads_back j"
  shows "reads_back (JArr js)"
proof (intro allI impI)
  fix f d rest
  assume d: "d + nest (JArr js) \<le> 10000" and f: "2 * length (render (JArr js) @ rest) + 1 \<le> f"
  obtain g where g: "f = Suc g" using f by (cases f) auto
  have n: "d < 10000" "\<forall>j \<in> set js. Suc d + nest j \<le> 10000"
    using d foldr_max_le [of "map nest js" "9999 - d"] by auto
  show "parse_value f d (render (JArr js) @ rest) = Some (JArr js, rest)"
  proof (cases js)
    case Nil
    then show ?thesis using g n by (simp add: value_empty del: parse_value.simps)
  next
    case (Cons j2 js2)
    let ?t = "join '','' (map render js) @ '']'' @ rest"
    have "parse_elems g (Suc d) ?t = Some (js, rest)"
    proof (rule elems_read_back)
      show "reads_back j \<and> wf_json j \<and> Suc d + nest j \<le> 10000" if "j \<in> set js" for j
        using IH [OF that] n that by blast
    qed (use f g Cons in simp_all)
    moreover obtain c cs where c: "render j2 = c # cs" "\<not> is_space c" "c \<noteq> CHR '']''"
      using render_start [of j2] IH [of j2] Cons by auto
    then have "skip_space ?t = ?t" "\<exists>es. ?t = c # es"
      using Cons by (cases js2; simp add: skip_space_def)+
    ultimately have "parse_value (Suc g) d (CHR ''['' # ?t) = Some (JArr js, rest)"
      using value_array [OF n(1)] c(3) by blast
    then show ?thesis using g by (simp del: parse_value.simps)
  qed
qed

lemma object_reads_back:
  assumes IH: "\<And>k j. (k, j) \<in> set kvs \<Longrightarrow> raw_ok k \<and> wf_json j \<and> reads_back j"
  shows "reads_back (JObj kvs)"
proof (intro allI impI)
  fix f d rest
  assume d: "d + nest (JObj kvs) \<le> 10000" and f: "2 * length (render (JObj kvs) @ rest) + 1 \<le> f"
  obtain g where g: "f = Suc g" using f by (cases f) auto
  have n: "d < 10000" "\<forall>(k, j) \<in> set kvs. Suc d + nest j \<le> 10000"
    using d foldr_max_le [of "map (\<lambda>(k, j). nest j) kvs" "9999 - d"] by auto
  show "parse_value f d (render (JObj kvs) @ rest) = Some (JObj kvs, rest)"
  proof (cases kvs)
    case Nil
    then show ?thesis using g n by (simp add: value_empty del: parse_value.simps)
  next
    case (Cons kj2 kvs2)
    let ?t = "join '','' (map render_member kvs) @ ''}'' @ rest"
    have "parse_members g (Suc d) ?t = Some (kvs, rest)"
    proof (rule members_read_back)
      show "reads_back j \<and> raw_ok k \<and> wf_json j \<and> Suc d + nest j \<le> 10000" if "(k, j) \<in> set kvs" for k j
        using IH [OF that] n that by blast
    qed (use f g Cons in simp_all)
    moreover have "\<exists>es. ?t = dquote # es"
      using Cons by (cases kj2; cases kvs2; simp add: in_quotes_def)
    moreover from this have "skip_space ?t = ?t" by auto
    moreover have "dquote \<noteq> CHR ''}''" by (simp add: dquote_def)
    ultimately have "parse_value (Suc g) d (CHR ''{'' # ?t) = Some (JObj kvs, rest)"
      using value_object [OF n(1)] by blast
    then show ?thesis using g by (simp del: parse_value.simps)
  qed
qed

lemma fuel_Suc: "(\<And>g d rest. ends_number rest \<Longrightarrow> parse_value (Suc g) d (render j @ rest) = Some (j, rest)) \<Longrightarrow> reads_back j"
  by (metis Suc_eq_plus1 Suc_le_D)

lemma value_reads_back: "wf_json j \<Longrightarrow> reads_back j"
proof (induction j rule: json.induct)
  case (JArr js)
  show ?case by (rule array_reads_back) (use JArr in \<open>simp add: list_all_iff\<close>)
next
  case (JObj kvs)
  have "raw_ok k \<and> wf_json j \<and> reads_back j" if "(k, j) \<in> set kvs" for k j
    using JObj.IH [OF that, of j] JObj.prems that by (auto simp: list_all_iff)
  then show ?case by (rule object_reads_back)
next
  case (JNum s)
  then show ?case using value_number by (intro fuel_Suc) simp
next
  case (JStr s)
  then show ?case using value_string by (intro fuel_Suc) simp
qed (use value_literal in \<open>intro fuel_Suc, blast\<close>)+

text \<open>The reader undoes the printer.\<close>

theorem parse_render:
  assumes "wf_json j" and "nest j \<le> 10000"
  shows "parse_json (render j) = Some j"
proof -
  have "parse_value (2 * length (render j) + 2) 0 (render j @ []) = Some (j, [])"
    by (rule value_reads_back [OF assms(1), rule_format]) (use assms(2) in simp_all)
  then show ?thesis by (simp add: parse_json_def skip_space_def del: parse_value.simps)
qed

end
