(* ===== verification/Json_Codec.thy ===== *)
theory Json_Codec
  imports Json_Text
begin

text \<open>
  Strings and values through JSON and back: \<open>unquote\<close> undoes \<open>quote\<close> on UTF-8 strings, and
  \<open>decode_any\<close> undoes \<open>marshal_any\<close> on the values that a decoded event holds, up to the order of
  map entries, which \<open>json.Marshal\<close> sorts by key.
\<close>

section \<open>Escapes\<close>

lemma byte_less [simp]: "byte c < 256"
  by (simp add: byte_def)

lemma char_of_byte [simp]: "char_of (byte c) = c"
  by (simp add: byte_def)

lemma byte_inject [simp]: "byte c = byte d \<longleftrightarrow> c = d"
  by (metis char_of_byte)

lemma hex_value_digit [simp]: "n < 16 \<Longrightarrow> hex_value (hex_digit n) = Some (int n)"
proof -
  have "list_all (\<lambda>n. hex_value (hex_digit n) = Some (int n)) [0..<16]" by code_simp
  then show "n < 16 \<Longrightarrow> hex_value (hex_digit n) = Some (int n)" by (simp add: list_all_iff)
qed

lemma hex_digits:
  fixes n :: nat
  assumes "n < 65536"
  shows "4096 * (n div 4096 mod 16) + 256 * (n div 256 mod 16) + 16 * (n div 16 mod 16) + n mod 16 = n"
proof -
  have "n div 4096 mod 16 = n div 4096" using assms by simp
  moreover have "n div 256 = 16 * (n div 4096) + n div 256 mod 16"
    using mult_div_mod_eq [of 16 "n div 256"] by (simp add: div_mult2_eq [symmetric])
  moreover have "n div 16 = 16 * (n div 256) + n div 16 mod 16"
    using mult_div_mod_eq [of 16 "n div 16"] by (simp add: div_mult2_eq [symmetric])
  moreover have "n = 16 * (n div 16) + n mod 16" by simp
  ultimately show ?thesis by linarith
qed

lemma hex4_escape:
  assumes "n < 65536"
  shows "hex4 (drop 2 (escape_u n) @ s) = Some n"
proof -
  have v: "hex_value (hex_digit (k mod 16)) = Some (int (k mod 16))" for k by simp
  have "nat (4096 * int (n div 4096 mod 16) + 256 * int (n div 256 mod 16) + 16 * int (n div 16 mod 16) + int (n mod 16)) = n"
    using hex_digits [OF assms] by linarith
  then show ?thesis by (simp only: hex4_def escape_u_def v drop_Suc_Cons numeral_2_eq_2 drop0 append_Cons
      list.case prod.case option.case)
qed

text \<open>One step of reading over an escape of a code point that is no half of a surrogate pair.\<close>

lemma unquote_escape_u:
  assumes "n < 55296"
  shows "unquote_fuel (Suc f) (escape_u n @ s) = utf8_encode n @ unquote_fuel f s"
  using hex4_escape [of n s] assms by (simp add: escape_u_def backslash_def)

lemma unquote_plain: "c \<noteq> backslash \<Longrightarrow> byte c < 128 \<Longrightarrow> unquote_fuel (Suc f) (c # s) = c # unquote_fuel f s"
  by simp

lemma byte_control:
  "byte c = 8 \<Longrightarrow> c = CHR 0x08" "byte c = 12 \<Longrightarrow> c = CHR 0x0C" "byte c = 10 \<Longrightarrow> c = CHR 0x0A"
  "byte c = 13 \<Longrightarrow> c = CHR 0x0D" "byte c = 9 \<Longrightarrow> c = CHR 0x09"
  by (rule byte_inject [THEN iffD1], simp add: byte_def)+

lemma quote_char_cases:
  "quote_char c = escape_u (byte c) \<or> (quote_char c = [c] \<and> c \<noteq> backslash \<and> c \<noteq> dquote \<and> 32 \<le> byte c) \<or>
    c \<in> {dquote, backslash, CHR 0x08, CHR 0x0C, CHR 0x0A, CHR 0x0D, CHR 0x09}"
  using byte_control [of c] unfolding quote_char_def by (simp split: if_split)

lemma unquote_escape: "e \<noteq> CHR ''u'' \<Longrightarrow> unquote_fuel (Suc f) (backslash # e # s) = unescape_char e # unquote_fuel f s"
  by simp

lemma unquote_short:
  assumes "c \<in> {dquote, backslash, CHR 0x08, CHR 0x0C, CHR 0x0A, CHR 0x0D, CHR 0x09}"
  shows "unquote_fuel (Suc f) (quote_char c @ s) = c # unquote_fuel f s"
proof -
  have "\<exists>e. quote_char c = [backslash, e] \<and> e \<noteq> CHR ''u'' \<and> unescape_char e = c"
    using assms by (elim insertE emptyE) (simp_all add: quote_char_def unescape_char_def dquote_def backslash_def byte_def)
  then show ?thesis using unquote_escape by fastforce
qed

lemma unquote_quote_char:
  assumes "byte c < 128"
  shows "unquote_fuel (Suc f) (quote_char c @ s) = c # unquote_fuel f s"
proof -
  have u: "utf8_encode (byte c) = [c]" using assms by (simp add: utf8_encode_def)
  show ?thesis using quote_char_cases [of c]
  proof (elim disjE)
    assume "quote_char c = escape_u (byte c)"
    then show ?thesis using unquote_escape_u [of "byte c" f s] assms u by simp
  next
    assume "quote_char c = [c] \<and> c \<noteq> backslash \<and> c \<noteq> dquote \<and> 32 \<le> byte c"
    then show ?thesis using unquote_plain [of c f s] assms by simp
  qed (rule unquote_short)
qed

section \<open>UTF-8\<close>

lemma utf8_len_Nil [simp]: "utf8_len [] = 0"
  by (simp add: utf8_len_def)

abbreviation cont_byte :: "nat \<Rightarrow> bool" where
  "cont_byte x \<equiv> 128 \<le> x \<and> x < 192"

text \<open>The length of a sequence from its first four bytes, with 0 for a byte that is missing.\<close>

definition lead3 :: "nat \<Rightarrow> nat \<Rightarrow> bool" where
  "lead3 a b \<longleftrightarrow> 224 \<le> a \<and> a \<le> 239 \<and> (a = 224 \<longrightarrow> 160 \<le> b) \<and> (a = 237 \<longrightarrow> b < 160)"

definition lead4 :: "nat \<Rightarrow> nat \<Rightarrow> bool" where
  "lead4 a b \<longleftrightarrow> 240 \<le> a \<and> a \<le> 244 \<and> (a = 240 \<longrightarrow> 144 \<le> b) \<and> (a = 244 \<longrightarrow> b < 144)"

definition utf8_class :: "nat \<Rightarrow> nat \<Rightarrow> nat \<Rightarrow> nat \<Rightarrow> nat" where
  "utf8_class w x y z =
     (if w < 128 then 1
      else if 194 \<le> w \<and> w \<le> 223 \<and> cont_byte x then 2
      else if lead3 w x \<and> cont_byte x \<and> cont_byte y then 3
      else if lead4 w x \<and> cont_byte x \<and> cont_byte y \<and> cont_byte z then 4
      else 0)"

lemma utf8_class_eq:
  "utf8_class w x y z =
     (if w < 128 then 1
      else if 194 \<le> w \<and> w \<le> 223 \<and> cont_byte x then 2
      else if w = 224 \<and> (160 \<le> x \<and> x \<le> 191) \<and> cont_byte y then 3
      else if 225 \<le> w \<and> w \<le> 236 \<and> cont_byte x \<and> cont_byte y then 3
      else if w = 237 \<and> (128 \<le> x \<and> x \<le> 159) \<and> cont_byte y then 3
      else if 238 \<le> w \<and> w \<le> 239 \<and> cont_byte x \<and> cont_byte y then 3
      else if w = 240 \<and> (144 \<le> x \<and> x \<le> 191) \<and> cont_byte y \<and> cont_byte z then 4
      else if 241 \<le> w \<and> w \<le> 243 \<and> cont_byte x \<and> cont_byte y \<and> cont_byte z then 4
      else if w = 244 \<and> (128 \<le> x \<and> x \<le> 143) \<and> cont_byte y \<and> cont_byte z then 4
      else 0)"
proof -
  have b: "(x \<le> 191) = (x < 192)" "(x \<le> 159) = (x < 160)" "(x \<le> 143) = (x < 144)" by linarith+
  have i: "160 \<le> x \<Longrightarrow> 128 \<le> x" "144 \<le> x \<Longrightarrow> 128 \<le> x" "x < 160 \<Longrightarrow> x < 192" "x < 144 \<Longrightarrow> x < 192" by linarith+
  consider "w < 128" | "128 \<le> w" "w < 194" | "194 \<le> w" "w \<le> 223" | "w = 224" | "225 \<le> w" "w \<le> 236" | "w = 237"
    | "238 \<le> w" "w \<le> 239" | "w = 240" | "241 \<le> w" "w \<le> 243" | "w = 244" | "245 \<le> w" by linarith
  then show ?thesis
    by cases (simp_all add: utf8_class_def lead3_def lead4_def b conj_ac)
qed

definition byte_at :: "string \<Rightarrow> nat \<Rightarrow> nat" where
  "byte_at s i = (if i < length s then byte (s ! i) else 0)"

lemma utf8_len_class: "utf8_len (a # s) = utf8_class (byte a) (byte_at s 0) (byte_at s 1) (byte_at s 2)"
proof -
  let ?b = "map byte (take 4 (a # s))"
  have c: "(i < length ?b \<and> P (?b ! i)) = P (byte_at s (i - 1))" if "0 < i" "i < 4" "\<not> P 0" for i P
    using that by (cases i) (auto simp: byte_at_def)
  have c1: "(1 < length ?b \<and> lo \<le> ?b ! 1 \<and> ?b ! 1 \<le> hi) = (lo \<le> byte_at s 0 \<and> byte_at s 0 \<le> hi)" if "0 < lo" for lo hi
    using c [of 1 "\<lambda>x. lo \<le> x \<and> x \<le> hi"] that by simp
  have c2: "(i < length ?b \<and> 128 \<le> ?b ! i \<and> ?b ! i < 192) = cont_byte (byte_at s (i - 1))" if "0 < i" "i < 4" for i
    using c [of i "\<lambda>x. 128 \<le> x \<and> x < 192"] that by simp
  have h: "hd ?b = byte a" "?b \<noteq> []" by simp_all
  have p: "0 < (1::nat)" "(1::nat) < 4" "0 < (2::nat)" "(2::nat) < 4" "0 < (3::nat)" "(3::nat) < 4"
    "1 - 1 = (0::nat)" "2 - 1 = (1::nat)" "3 - 1 = (2::nat)" "0 < (160::nat)" "0 < (128::nat)" "0 < (144::nat)" by simp_all
  show ?thesis
    unfolding utf8_class_eq utf8_len_def Let_def h(1) c1 [OF p(10)] c1 [OF p(11)] c1 [OF p(12)]
      c2 [OF p(1,2)] c2 [OF p(3,4)] c2 [OF p(5,6)] p(7,8,9) if_not_P [OF h(2)] ..
qed

fun utf8_fuel :: "nat \<Rightarrow> string \<Rightarrow> bool" where
  "utf8_fuel f [] = True"
| "utf8_fuel 0 (c # cs) = False"
| "utf8_fuel (Suc f) (c # cs) =
     (utf8_len (c # cs) \<noteq> 0 \<and> utf8_fuel f (drop (utf8_len (c # cs)) (c # cs)))"

text \<open>\<open>utf8.ValidString\<close>.\<close>

definition utf8_valid :: "string \<Rightarrow> bool" where
  "utf8_valid s = utf8_fuel (length s) s"

lemma utf8_len_ascii: "utf8_len (c # s) = 1 \<longleftrightarrow> byte c < 128"
  by (auto simp: utf8_len_class utf8_class_def split: if_splits)

lemma byte_at_high: "128 \<le> byte_at s i \<Longrightarrow> i < length s"
  by (simp add: byte_at_def split: if_splits)

lemma byte_at_take: "i < k \<Longrightarrow> k \<le> length s \<Longrightarrow> byte_at (take k s @ t) i = byte_at s i"
  by (simp add: byte_at_def nth_append)

text \<open>What a well-formed sequence of \<open>Suc k\<close> bytes looks like after its first byte.\<close>

lemma utf8_len_tail:
  assumes "utf8_len (a # s) = Suc k"
  shows "k \<le> length s \<and> k < 4 \<and> (\<forall>i < k. 128 \<le> byte_at s i) \<and> (0 < k \<longrightarrow> 128 \<le> byte a)"
proof -
  have "k < 4 \<and> (\<forall>i < k. 128 \<le> byte_at s i) \<and> (0 < k \<longrightarrow> 128 \<le> byte a)"
    using assms by (auto simp: utf8_len_class utf8_class_def less_Suc_eq numeral_2_eq_2 numeral_3_eq_3 split: if_splits)
  moreover from this have "k \<le> length s" using byte_at_high [of s "k - 1"] by (cases k) auto
  ultimately show ?thesis by blast
qed

lemma utf8_len_local:
  assumes "utf8_len (a # s) = Suc k"
  shows "utf8_len (a # take k s @ t) = Suc k"
proof -
  have k: "k \<le> length s" "k < 4" using utf8_len_tail [OF assms] by simp_all
  have b: "byte_at (take k s @ t) i = byte_at s i" if "i < k" for i using byte_at_take [OF that k(1)] .
  have "k = 0 \<or> k = 1 \<or> k = 2 \<or> k = 3" using k(2) by linarith
  then show ?thesis
    using assms b [of 0] b [of 1] b [of 2]
    by (elim disjE) (simp_all add: utf8_len_class utf8_class_def split: if_splits)
qed

lemma utf8_len_high:
  assumes "utf8_len (a # s) = Suc k" and "0 < k" and "c \<in> set (take (Suc k) (a # s))"
  shows "128 \<le> byte c"
  using utf8_len_tail [OF assms(1)] assms(2,3) by (auto simp: byte_at_def in_set_conv_nth)

section \<open>Strings there and back\<close>

lemma unquote_sequence:
  assumes "utf8_len (c # cs) = Suc k" and "0 < k"
  shows "unquote_fuel (Suc f) (c # take k cs @ t) = c # take k cs @ unquote_fuel f t"
proof -
  have c: "\<not> byte c < 128" "c \<noteq> backslash"
    using utf8_len_high [OF assms, of c] by (auto simp: backslash_def byte_def)
  have k: "k \<le> length cs" using utf8_len_tail [OF assms(1)] by simp
  show ?thesis using utf8_len_local [OF assms(1), of t] c k by (simp add: Let_def)
qed

text \<open>The two line separators, which \<open>json.Marshal\<close> escapes.\<close>

lemma separator:
  assumes "map byte (take 3 s) = [226, 128, 128 + n]" and "n = 40 \<or> n = 41"
  shows "utf8_len s = 3" "take 3 s = utf8_encode (8192 + n)"
proof -
  obtain a b c r where s: "s = a # b # c # r" using assms(1)
    by (cases s; cases "tl s"; cases "tl (tl s)") auto
  then have b: "byte a = 226" "byte b = 128" "byte c = 128 + n" using assms(1) by simp_all
  show "utf8_len s = 3"
    using s b assms(2) by (auto simp: utf8_len_class utf8_class_def lead3_def byte_at_def)
  have "take 3 s = map char_of [byte a, byte b, byte c]" using s by simp
  also have "... = map char_of [226, 128, 128 + n]" using b by (simp only:)
  also have "... = utf8_encode (8192 + n)" using assms(2) by (elim disjE) (simp_all add: utf8_encode_def)
  finally show "take 3 s = utf8_encode (8192 + n)" .
qed

lemma quote_high:
  assumes "\<not> byte c < 128" and "utf8_len (c # cs) = Suc k"
  shows "(\<exists>n. (n = 40 \<or> n = 41) \<and> map byte (take 3 (c # cs)) = [226, 128, 128 + n] \<and>
        quote_fuel (Suc g) (c # cs) = escape_u (8192 + n) @ quote_fuel g (drop 3 (c # cs))) \<or>
      quote_fuel (Suc g) (c # cs) = take (Suc k) (c # cs) @ quote_fuel g (drop (Suc k) (c # cs))"
proof -
  let ?bs = "map byte (take 3 (c # cs))"
  consider "?bs = [226, 128, 168]" | "?bs = [226, 128, 169]" | "?bs \<noteq> [226, 128, 168]" "?bs \<noteq> [226, 128, 169]" by blast
  then show ?thesis
  proof cases
    case 1
    have "quote_fuel (Suc g) (c # cs) = escape_u (8192 + 40) @ quote_fuel g (drop 3 (c # cs))"
      using assms 1 by (simp add: Let_def)
    then show ?thesis using 1 by (intro disjI1 exI [of _ 40]) simp
  next
    case 2
    have "quote_fuel (Suc g) (c # cs) = escape_u (8192 + 41) @ quote_fuel g (drop 3 (c # cs))"
      using assms 2 by (simp add: Let_def)
    then show ?thesis using 2 by (intro disjI1 exI [of _ 41]) simp
  next
    case 3
    then show ?thesis using assms by (simp add: Let_def)
  qed
qed

text \<open>A sequence is written as a piece that is read back as the sequence.\<close>

lemma quote_piece:
  assumes k: "utf8_len (c # cs) = Suc k"
  shows "\<exists>piece. piece \<noteq> [] \<and> quote_fuel (Suc g) (c # cs) = piece @ quote_fuel g (drop k cs) \<and>
    (\<forall>f t. unquote_fuel (Suc f) (piece @ t) = c # take k cs @ unquote_fuel f t)"
proof (cases "byte c < 128")
  case True
  have "k = 0" using True k utf8_len_ascii [of c cs] by simp
  moreover have "quote_char c \<noteq> []" by (simp add: quote_char_def escape_u_def)
  moreover have "quote_fuel (Suc g) (c # cs) = quote_char c @ quote_fuel g cs" using True by simp
  ultimately show ?thesis using unquote_quote_char [OF True]
    by (intro exI [of _ "quote_char c"]) (simp del: unquote_fuel.simps quote_fuel.simps)
next
  case high: False
  have "utf8_len (c # cs) \<noteq> 1" using high utf8_len_ascii by simp
  then have k0: "0 < k" using k by simp
  show ?thesis using quote_high [OF high k, of g]
  proof
    assume "\<exists>n. (n = 40 \<or> n = 41) \<and> map byte (take 3 (c # cs)) = [226, 128, 128 + n] \<and>
      quote_fuel (Suc g) (c # cs) = escape_u (8192 + n) @ quote_fuel g (drop 3 (c # cs))"
    then obtain n where n: "n = 40 \<or> n = 41" and b: "map byte (take 3 (c # cs)) = [226, 128, 128 + n]"
      and q: "quote_fuel (Suc g) (c # cs) = escape_u (8192 + n) @ quote_fuel g (drop 3 (c # cs))"
      by (elim exE conjE) (rule that)
    have k: "k = 2" using separator(1) [OF b n] k by simp
    have e: "utf8_encode (8192 + n) = c # take k cs" using separator(2) [OF b n] k by simp
    have d: "drop 3 (c # cs) = drop k cs" using k by simp
    have l: "8192 + n < 55296" using n by auto
    show ?thesis
    proof (intro exI conjI allI)
      show "escape_u (8192 + n) \<noteq> []" by (simp add: escape_u_def)
      show "quote_fuel (Suc g) (c # cs) = escape_u (8192 + n) @ quote_fuel g (drop k cs)"
        unfolding q d ..
      show "unquote_fuel (Suc f) (escape_u (8192 + n) @ t) = c # take k cs @ unquote_fuel f t" for f t
        unfolding unquote_escape_u [OF l] e by (simp only: append_Cons)
    qed
  next
    assume 2: "quote_fuel (Suc g) (c # cs) = take (Suc k) (c # cs) @ quote_fuel g (drop (Suc k) (c # cs))"
    show ?thesis
    proof (intro exI conjI allI)
      show "quote_fuel (Suc g) (c # cs) = (c # take k cs) @ quote_fuel g (drop k cs)"
        unfolding 2 by (simp only: take_Suc_Cons drop_Suc_Cons)
      show "unquote_fuel (Suc f) ((c # take k cs) @ t) = c # take k cs @ unquote_fuel f t" for f t
        unfolding append_Cons by (rule unquote_sequence [OF k k0])
    qed (simp only: list.distinct not_False_eq_True)
  qed
qed

lemma unquote_quote_fuel:
  "utf8_fuel g s \<Longrightarrow> length (quote_fuel g s) \<le> f \<Longrightarrow> unquote_fuel f (quote_fuel g s) = s"
proof (induction g s arbitrary: f rule: utf8_fuel.induct)
  case (1 g)
  show ?case by (cases g; cases f) simp_all
next
  case (3 g c cs)
  obtain k where k: "utf8_len (c # cs) = Suc k" using 3(2) by (cases "utf8_len (c # cs)") auto
  obtain piece where p: "piece \<noteq> []" "quote_fuel (Suc g) (c # cs) = piece @ quote_fuel g (drop k cs)"
    "\<And>f t. unquote_fuel (Suc f) (piece @ t) = c # take k cs @ unquote_fuel f t"
    using quote_piece [OF k] by blast
  obtain h where h: "f = Suc h" "length (quote_fuel g (drop k cs)) \<le> h"
    using 3(3) p(1,2) by (cases f; cases piece) (auto simp del: quote_fuel.simps)
  then have "unquote_fuel h (quote_fuel g (drop k cs)) = drop k cs"
    using 3(1) [of h] 3(2) k by simp
  then show ?case using p(2,3) h by (simp del: quote_fuel.simps unquote_fuel.simps)
qed simp

theorem unquote_quote: "utf8_valid s \<Longrightarrow> unquote (quote s) = s"
  by (simp add: utf8_valid_def unquote_def quote_def unquote_quote_fuel)

text \<open>Whatever the string, what \<open>quote\<close> writes may stand between quotes.\<close>

definition scans :: "string \<Rightarrow> bool" where
  "scans x \<longleftrightarrow> (\<forall>t raw rest. scan_string t = Some (raw, rest) \<longrightarrow> scan_string (x @ t) = Some (x @ raw, rest))"

lemma scans_Nil: "scans []"
  by (simp add: scans_def)

lemma scans_append: "scans x \<Longrightarrow> scans y \<Longrightarrow> scans (x @ y)"
  by (simp add: scans_def)

lemma scans_plain: "c \<noteq> dquote \<Longrightarrow> c \<noteq> backslash \<Longrightarrow> 32 \<le> byte c \<Longrightarrow> scans [c]"
  by (simp add: scans_def)

lemma scans_high: "(\<And>c. c \<in> set x \<Longrightarrow> 128 \<le> byte c) \<Longrightarrow> scans x"
proof (induction x)
  case (Cons c x)
  have "scans [c]" using Cons.prems [of c]
    by (intro scans_plain) (auto simp: dquote_def backslash_def byte_def)
  from scans_append [OF this Cons.IH] Cons.prems show ?case by simp
qed (rule scans_Nil)

lemma scans_escape_u: "scans (escape_u n)"
proof -
  have "hex_value (hex_digit (k mod 16)) \<noteq> None" for k by simp
  then show ?thesis
    unfolding scans_def escape_u_def by (simp add: dquote_def backslash_def del: hex_value_digit)
qed

lemma scans_short:
  assumes "c \<in> {dquote, backslash, CHR 0x08, CHR 0x0C, CHR 0x0A, CHR 0x0D, CHR 0x09}"
  shows "scans (quote_char c)"
proof -
  have "\<exists>e. quote_char c = [backslash, e] \<and> (e = dquote \<or> e = backslash \<or> e \<in> set ''/bfnrt'')"
    using assms by (elim insertE emptyE) (simp_all add: quote_char_def dquote_def backslash_def byte_def)
  then obtain e where "quote_char c = [backslash, e]" "e = dquote \<or> e = backslash \<or> e \<in> set ''/bfnrt''" by blast
  moreover have "backslash \<noteq> dquote" by (simp add: dquote_def backslash_def)
  ultimately show ?thesis by (simp add: scans_def)
qed

lemma scans_quote_char: "scans (quote_char c)"
  using quote_char_cases [of c]
proof (elim disjE)
  assume "quote_char c = [c] \<and> c \<noteq> backslash \<and> c \<noteq> dquote \<and> 32 \<le> byte c"
  then show ?thesis using scans_plain [of c] by simp
qed (simp_all add: scans_escape_u scans_short)

lemma scans_quote_fuel: "scans (quote_fuel g s)"
proof (induction g s rule: quote_fuel.induct)
  case (2 g s)
  show ?case
  proof (cases s)
    case (Cons c cs)
    show ?thesis
    proof (cases "byte c < 128")
      case True
      then show ?thesis using 2(1) [OF Cons True] Cons scans_append [OF scans_quote_char] by simp
    next
      case high: False
      show ?thesis
      proof (cases "utf8_len s")
        case 0
        then show ?thesis
          using 2(2) [OF Cons high refl refl] Cons high scans_append [OF scans_escape_u] by (simp add: Let_def)
      next
        case k: (Suc k)
        have k0: "0 < k" using k utf8_len_ascii [of c cs] high Cons by (cases k) auto
        have "scans (take (Suc k) s)"
          using utf8_len_high [of c cs k] k k0 Cons by (intro scans_high) blast
        then have "scans t \<Longrightarrow> scans (c # take k cs @ t)" for t
          using scans_append [of "c # take k cs" t] Cons by simp
        then show ?thesis
          using 2(3-5) [OF Cons high refl refl] k Cons high scans_append scans_escape_u by (auto simp: Let_def)
      qed
    qed
  qed (simp add: scans_Nil)
qed (simp add: scans_Nil)

lemma raw_ok_quote: "raw_ok (quote s)"
  using scans_quote_fuel [of "length s" s] by (auto simp: raw_ok_def quote_def scans_def)

section \<open>Values there and back\<close>

text \<open>
  What a value is read back as: \<open>json.Marshal\<close> prints the entries of a map in the order of their
  keys. The values concerned are the ones that decoding makes (no Go integers), with UTF-8 strings
  and with numbers whose shortest decimal reads as the number.
\<close>

fun sorted_value :: "gval \<Rightarrow> gval" where
  "sorted_value (GSlice xs) = GSlice (map sorted_value xs)"
| "sorted_value (GMap m) = GMap (by_key (map (\<lambda>(k, x). (k, sorted_value x)) m))"
| "sorted_value x = x"

definition number_reads_back :: "float64 \<Rightarrow> bool" where
  "number_reads_back x = (case format_json x of None \<Rightarrow> False | Some s \<Rightarrow> number_ok s \<and> parse_float s = Inr x)"

fun storable_value :: "gval \<Rightarrow> bool" where
  "storable_value GNil = True"
| "storable_value (GBool b) = True"
| "storable_value (GNum x) = number_reads_back x"
| "storable_value (GInt n) = False"
| "storable_value (GInt64 n) = False"
| "storable_value (GStr s) = utf8_valid s"
| "storable_value (GSlice xs) = list_all storable_value xs"
| "storable_value (GMap m) = (distinct (keys m) \<and> list_all (\<lambda>(k, x). utf8_valid k \<and> storable_value x) m)"

lemma insort_map_value:
  "insort_key fst (k, f k x) (map (\<lambda>(k, x). (k, f k x)) m) = map (\<lambda>(k, x). (k, f k x)) (insort_key fst (k, x) m)"
  by (induction m) auto

lemma by_key_map: "by_key (map (\<lambda>(k, x). (k, f k x)) m) = map (\<lambda>(k, x). (k, f k x)) (by_key m)"
  by (induction m) (auto simp: by_key_def insort_map_value)

lemma by_key_set [simp]: "set (by_key m) = set m"
  by (simp add: by_key_def)

lemma keys_map_value [simp]: "keys (map (\<lambda>(k, x). (k, f k x)) m) = keys m"
  by (induction m) (auto simp: keys_def)

lemma distinct_by_key [simp]: "distinct (keys (by_key m)) = distinct (keys m)"
proof -
  have "mset (keys (by_key m)) = mset (keys m)" by (simp add: by_key_def keys_def)
  then show ?thesis by (metis mset_eq_imp_distinct_iff)
qed

lemma keys_append [simp]: "keys (m @ n) = keys m @ keys n"
  by (simp add: keys_def)

lemma keys_Cons [simp]: "keys ((k, x) # m) = k # keys m"
  by (simp add: keys_def)

lemma sequence_sum_all_Inr [simp]: "sequence_sum (map (\<lambda>x. Inr (f x)) xs) = Inr (map f xs)"
  by (induction xs) auto

text \<open>
  The loops that decode the entries of an object into a map, whatever the type of its values: entries
  with distinct keys, quoted, are read in their order. \<open>J\<close> is the tree of an entry.
\<close>

locale entry_decoder =
  fixes entries :: "(string \<times> json) list \<Rightarrow> (string \<times> 'v) list \<Rightarrow> (string \<times> 'v) list option"
    and entry_value :: "json \<Rightarrow> 'v option"
  assumes entries_Nil: "entries [] m = Some m"
    and entries_Cons: "entry_value j = Some x \<Longrightarrow> entries ((k, j) # kvs) m = entries kvs (upsert (unquote k) x m)"
begin

lemma quoted_entries:
  assumes "distinct (keys acc @ keys m)"
    and "\<And>k x. (k, x) \<in> set m \<Longrightarrow> utf8_valid k \<and> entry_value (J x) = Some (v x)"
  shows "entries (map (\<lambda>(k, x). (quote k, J x)) m) acc = Some (acc @ map (\<lambda>(k, x). (k, v x)) m)"
  using assms
proof (induction m arbitrary: acc)
  case Nil
  show ?case by (simp add: entries_Nil)
next
  case (Cons kx m)
  obtain k x where kx: "kx = (k, x)" by (cases kx)
  have "k \<notin> set (keys acc)" using Cons.prems(1) kx by auto
  moreover have "entries (map (\<lambda>(k, x). (quote k, J x)) m) (acc @ [(k, v x)]) =
      Some ((acc @ [(k, v x)]) @ map (\<lambda>(k, x). (k, v x)) m)"
    by (rule Cons.IH) (use Cons.prems kx in auto)
  ultimately show ?case
    using Cons.prems(2) [of k x] entries_Cons [of "J x" "v x"] kx by (simp add: unquote_quote upsert_fresh)
qed

end

interpretation any_entries: entry_decoder decode_entries decode_any
  by unfold_locales simp_all

fun value_depth :: "gval \<Rightarrow> nat" where
  "value_depth (GSlice xs) = Suc (foldr max (map value_depth xs) 0)"
| "value_depth (GMap m) = Suc (foldr max (map (\<lambda>(k, x). value_depth x) m) 0)"
| "value_depth x = 0"

definition codes :: "gval \<Rightarrow> json \<Rightarrow> bool" where
  "codes x j \<longleftrightarrow> marshal_any x = Inr j \<and> wf_json j \<and> nest j \<le> value_depth x \<and> decode_any j = Some (sorted_value x)"

lemma foldr_max_mono:
  "(\<And>x. x \<in> set xs \<Longrightarrow> \<exists>y \<in> set ys. x \<le> y) \<Longrightarrow> foldr max xs 0 \<le> foldr max ys (0 :: nat)"
  unfolding foldr_max_le using foldr_max_le [of ys "foldr max ys 0"] order_trans by blast

lemma codes_list:
  "(\<And>x. x \<in> set xs \<Longrightarrow> codes x (J x)) \<Longrightarrow>
    sequence_sum (map marshal_any xs) = Inr (map J xs) \<and> list_all wf_json (map J xs) \<and>
    foldr max (map nest (map J xs)) 0 \<le> foldr max (map value_depth xs) 0 \<and>
    decode_list (map J xs) = Some (map sorted_value xs)"
  by (induction xs) (auto simp: codes_def max.coboundedI1 max.coboundedI2)

lemma codes_map:
  assumes m: "\<And>k x. (k, x) \<in> set m \<Longrightarrow> utf8_valid k \<and> codes x (J x)" and d: "distinct (keys m)"
  shows "codes (GMap m) (JObj (map (\<lambda>(k, x). (quote k, J x)) (by_key m)))"
proof -
  have "map (\<lambda>(k, r). map_sum id (\<lambda>j. (quote k, j)) r) (by_key (map (\<lambda>(k, x). (k, marshal_any x)) m)) =
      map (\<lambda>kx. Inr ((\<lambda>(k, x). (quote k, J x)) kx)) (by_key m)"
    using m by (auto simp: by_key_map codes_def)
  then have "marshal_any (GMap m) = Inr (JObj (map (\<lambda>(k, x). (quote k, J x)) (by_key m)))"
    by (simp add: object_of_def)
  moreover have "wf_json (JObj (map (\<lambda>(k, x). (quote k, J x)) (by_key m)))"
    using m by (auto simp: list_all_iff raw_ok_quote codes_def)
  moreover have "nest (JObj (map (\<lambda>(k, x). (quote k, J x)) (by_key m))) \<le> value_depth (GMap m)"
  proof -
    have "\<exists>y \<in> set (map (\<lambda>(k, x). value_depth x) m). nest (J x) \<le> y" if "(k, x) \<in> set m" for k x
      using m [OF that] that by (force simp: codes_def)
    then show ?thesis by (auto intro!: foldr_max_mono)
  qed
  moreover have "decode_entries (map (\<lambda>(k, x). (quote k, J x)) (by_key m)) [] =
      Some ([] @ map (\<lambda>(k, x). (k, sorted_value x)) (by_key m))"
    by (rule any_entries.quoted_entries) (use m d in \<open>auto simp: codes_def\<close>)
  ultimately show ?thesis by (simp add: codes_def by_key_map)
qed

theorem value_roundtrip: "storable_value x \<Longrightarrow> \<exists>j. codes x j"
proof (induction x rule: gval.induct)
  case (GNum x)
  then obtain s where "format_json x = Some s" "number_ok s" "parse_float s = Inr x"
    by (auto simp: number_reads_back_def split: option.splits)
  then show ?case by (simp add: codes_def marshal_float_def)
next
  case (GStr s)
  then show ?case by (simp add: codes_def json_string_def raw_ok_quote unquote_quote)
next
  case (GSlice xs)
  have "\<forall>x \<in> set xs. \<exists>j. codes x j" using GSlice by (simp add: list_all_iff)
  then obtain J where J: "\<forall>x \<in> set xs. codes x (J x)" by (rule bchoice [THEN exE])
  have "codes (GSlice xs) (JArr (map J xs))"
    using codes_list [of xs J] J by (simp add: codes_def)
  then show ?case ..
next
  case (GMap m)
  have "\<forall>kx \<in> set m. \<exists>j. codes (snd kx) j"
    using GMap.IH GMap.prems by (fastforce simp: list_all_iff)
  then obtain J where J: "\<forall>kx \<in> set m. codes (snd kx) (J (snd kx))"
    using bchoice [of "snd ` set m" codes] by auto
  have "codes (GMap m) (JObj (map (\<lambda>(k, x). (quote k, J x)) (by_key m)))"
    by (rule codes_map) (use GMap.prems J in \<open>fastforce simp: list_all_iff\<close>)+
  then show ?case ..
next
  case GNil
  have "codes GNil JNull" by (simp add: codes_def)
  then show ?case ..
next
  case (GBool b)
  have "codes (GBool b) (JBool b)" by (simp add: codes_def)
  then show ?case ..
qed simp_all

end
