(* ===== verification/Float_Rounding.thy ===== *)
theory Float_Rounding
  imports Complex_Main Go_Float
begin

text \<open>
  What the rounding of \<open>Go_Float\<close> computes, over the real numbers: a ratio of integers becomes the float
  that is nearest to it. From it follows that seventeen decimal digits are enough to tell every float
  from its neighbours, so that the shortest decimal that \<open>strconv\<close> prints exists and reads back.
\<close>

section \<open>Exponents and ratios\<close>

lemma shl_ratio:
  assumes "0 < d"
  shows "real_of_int (shl n (- e)) / real_of_int (shl d e) = real_of_int n / real_of_int d * 2 powi (- e)"
proof (cases "0 \<le> e")
  case True
  then show ?thesis using assms by (simp add: shl_def power_int_minus power_int_nonneg_exp field_simps)
next
  case False
  then show ?thesis using assms by (simp add: shl_def power_int_nonneg_exp)
qed

lemma shl_pos [simp]: "0 < d \<Longrightarrow> 0 < shl d e"
  by (simp add: shl_def)

lemma bit_length_nonneg: "0 \<le> bit_length n"
proof (induction n rule: bit_length.induct)
  case (1 n)
  then show ?case by (subst bit_length.simps) simp
qed

lemma bit_length_bounds:
  "0 < n \<Longrightarrow> 2 powi (bit_length n - 1) \<le> real_of_int n \<and> real_of_int n < 2 powi bit_length n"
proof (induction n rule: bit_length.induct)
  case (1 n)
  have step: "bit_length n = 1 + bit_length (n div 2)" using 1(2) by (simp add: bit_length.simps [of n])
  show ?case
  proof (cases "n = 1")
    case True
    then show ?thesis using step by (simp add: bit_length.simps [of 0])
  next
    case False
    then have ih: "2 powi (bit_length (n div 2) - 1) \<le> real_of_int (n div 2) \<and> real_of_int (n div 2) < 2 powi bit_length (n div 2)"
      using 1 by (intro 1(1)) auto
    have "2 * real_of_int (n div 2) \<le> real_of_int n" "real_of_int n \<le> 2 * real_of_int (n div 2) + 1"
      using 1(2) by linarith+
    moreover have "2 powi (1 + bit_length (n div 2)) = 2 * (2 :: real) powi bit_length (n div 2)"
      "2 powi (1 + bit_length (n div 2) - 1) = 2 * (2 :: real) powi (bit_length (n div 2) - 1)"
      by (simp_all add: power_int_add power_int_diff)
    moreover have "2 * real_of_int (n div 2) + 1 < 2 * 2 powi bit_length (n div 2)"
    proof -
      obtain P where P: "(2 :: real) powi bit_length (n div 2) = real_of_int P"
        using bit_length_nonneg [of "n div 2"] by (metis of_int_numeral of_int_power power_int_nonneg_exp)
      with ih have "2 * (n div 2) + 1 < 2 * P" by simp
      then have "real_of_int (2 * (n div 2) + 1) < real_of_int (2 * P)" by (simp only: of_int_less_iff)
      with P show ?thesis by simp
    qed
    ultimately show ?thesis unfolding step using ih by (intro conjI) linarith+
  qed
qed

lemma powi_less_iff: "(2 :: real) powi a < 2 powi b \<longleftrightarrow> a < b"
  by (meson linorder_not_less one_less_numeral_iff power_int_increasing power_int_strict_increasing semiring_norm(76) order_less_le)

lemma round_div_even_near: "0 < d \<Longrightarrow> \<bar>real_of_int n / real_of_int d - real_of_int (round_div_even n d)\<bar> \<le> 1 / 2"
proof -
  assume d: "0 < d"
  have "real_of_int n = real_of_int (n div d) * real_of_int d + real_of_int (n mod d)"
    by (metis div_mult_mod_eq of_int_add of_int_mult)
  then have n: "real_of_int n / real_of_int d = real_of_int (n div d) + real_of_int (n mod d) / real_of_int d"
    using d by (simp add: add_divide_distrib)
  have "0 \<le> n mod d" "n mod d < d" using d by simp_all
  have q: "2 * (n mod d) \<le> d \<Longrightarrow> \<bar>real_of_int (n mod d) / real_of_int d\<bar> \<le> 1 / 2"
    using d \<open>0 \<le> n mod d\<close> by (simp add: field_simps)
  have r: "d \<le> 2 * (n mod d) \<Longrightarrow> \<bar>real_of_int (n mod d) / real_of_int d - 1\<bar> \<le> 1 / 2"
    using d \<open>n mod d < d\<close> by (simp add: field_simps abs_if)
  show ?thesis
    unfolding n using q r by (auto simp: round_div_even_def Let_def)
qed

lemma round_div_even_unique:
  assumes "0 < d" and "\<bar>real_of_int n / real_of_int d - real_of_int m\<bar> < 1 / 2"
  shows "round_div_even n d = m"
proof -
  have "\<bar>real_of_int (round_div_even n d) - real_of_int m\<bar> < 1"
    using round_div_even_near [OF assms(1), of n] assms(2) by linarith
  then show ?thesis by linarith
qed

section \<open>The nearest float\<close>

lemma scaled_less: "(x :: real) * 2 powi (- e) < b \<longleftrightarrow> x < b * 2 powi e"
  by (simp add: power_int_minus field_simps)

lemma scaled_between: "a * 2 powi e < (x :: real) \<Longrightarrow> x < b * 2 powi e \<Longrightarrow> a < x * 2 powi (- e) \<and> x * 2 powi (- e) < b"
  by (simp add: power_int_minus field_simps)

lemma binary_exponent:
  assumes "0 < n" and "0 < d" and e0: "e0 = bit_length n - bit_length d - 53"
    and e1: "e1 = (if shl n (- e0) < shl d e0 * 2 ^ 53 then e0 else e0 + 1)"
  shows "2 powi (e1 + 52) \<le> real_of_int n / real_of_int d \<and> real_of_int n / real_of_int d < 2 powi (e1 + 53)"
proof -
  let ?x = "real_of_int n / real_of_int d"
  note n = bit_length_bounds [OF assms(1)] and d = bit_length_bounds [OF assms(2)]
  have "2 powi (bit_length n - 1) / 2 powi bit_length d < ?x"
    using n d assms(1,2) by (intro frac_less2) auto
  then have low: "2 powi (e0 + 52) < ?x" by (simp add: e0 power_int_diff power_int_add)
  have "?x < 2 powi bit_length n / 2 powi (bit_length d - 1)"
    using n d assms(1,2) by (intro frac_less) auto
  then have up: "?x < 2 powi (e0 + 54)" by (simp add: e0 power_int_diff power_int_add mult.commute)
  have "shl n (- e0) < shl d e0 * 2 ^ 53 \<longleftrightarrow> real_of_int (shl n (- e0)) < real_of_int (shl d e0) * 2 ^ 53"
    by (metis of_int_less_iff of_int_mult of_int_numeral of_int_power)
  also have "\<dots> \<longleftrightarrow> ?x * 2 powi (- e0) < 2 ^ 53"
    unfolding shl_ratio [OF assms(2), symmetric] using assms(2) by (simp add: pos_divide_less_eq mult.commute)
  also have "\<dots> \<longleftrightarrow> ?x < 2 powi (e0 + 53)"
    unfolding scaled_less by (simp add: power_int_add mult.commute)
  finally show ?thesis using low up e1 by (auto simp: add.assoc)
qed

lemma exponent_unique:
  assumes "2 powi (a + 52) \<le> (x :: real)" and "x < 2 powi (a + 53)" and "2 powi (b + 52) \<le> x" and "x < 2 powi (b + 53)"
  shows "a = b"
proof -
  have "(2 :: real) powi (a + 52) < 2 powi (b + 53)" "(2 :: real) powi (b + 52) < 2 powi (a + 53)"
    using assms by linarith+
  then show ?thesis by (simp add: powi_less_iff)
qed

lemma round_float_eq:
  assumes "0 < n" and "0 < d" and "2 powi (e1 + 52) \<le> real_of_int n / real_of_int d"
    and "real_of_int n / real_of_int d < 2 powi (e1 + 53)"
    and e: "e = max e1 (- 1074)" and m: "m = round_div_even (shl n (- e)) (shl d e)"
  shows "round_float s n d =
    (if m = 2 ^ 53 then if 971 < e + 1 then FInf s else FFin s (2 ^ 52) (e + 1) else if 971 < e then FInf s else FFin s m e)"
proof -
  define e0 where "e0 = bit_length n - bit_length d - 53"
  have h: "(if shl n (- e0) < shl d e0 * 2 ^ 53 then e0 else e0 + 1) = e1"
    using exponent_unique binary_exponent [OF assms(1,2) e0_def refl] assms(3,4) by blast
  show ?thesis
    unfolding round_float_def Let_def e0_def [symmetric] h e [symmetric] m [symmetric] using assms(1) by simp
qed

definition canonical_float :: "int \<Rightarrow> int \<Rightarrow> bool" where
  "canonical_float m e \<longleftrightarrow> 0 \<le> m \<and> m < 2 ^ 53 \<and> - 1074 \<le> e \<and> e \<le> 971 \<and> (e = - 1074 \<or> 2 ^ 52 \<le> m)"

lemma round_float_near:
  assumes "0 < n" and "0 < d" and "0 < m" and c: "canonical_float m e"
    and up: "real_of_int n / real_of_int d < (real_of_int m + 1 / 2) * 2 powi e"
    and low: "(real_of_int m - (if m = 2 ^ 52 \<and> e \<noteq> - 1074 then 1 / 4 else 1 / 2)) * 2 powi e < real_of_int n / real_of_int d"
  shows "round_float s n d = FFin s m e"
proof -
  let ?x = "real_of_int n / real_of_int d"
  obtain e1 where e1: "2 powi (e1 + 52) \<le> ?x" "?x < 2 powi (e1 + 53)"
    using binary_exponent [OF assms(1,2) refl refl] by blast
  note r = round_float_eq [OF assms(1,2) e1 refl refl]
  have near: "round_div_even (shl n (- f)) (shl d f) = k" if "\<bar>?x * 2 powi (- f) - real_of_int k\<bar> < 1 / 2" for f k
    using round_div_even_unique [of "shl d f" "shl n (- f)" k] that assms(2) by (simp add: shl_ratio)
  have half: "(real_of_int m - 1 / 2) * 2 powi e < ?x"
    using low by (rule le_less_trans [rotated]) (simp add: mult_right_mono)
  have at: "\<bar>?x * 2 powi (- e) - real_of_int m\<bar> < 1 / 2"
    using scaled_between [OF half up] by (elim conjE) linarith
  show ?thesis
  proof (cases "max e1 (- 1074) = e")
    case True
    then show ?thesis using r near [OF at] c by (simp add: canonical_float_def)
  next
    case False
    have "2 powi (e1 + 52) < (2 :: real) ^ 53 * 2 powi e"
    proof -
      have "real_of_int m + 1 / 2 < 2 ^ 53" using c by (simp add: canonical_float_def)
      then have "(real_of_int m + 1 / 2) * 2 powi e < 2 ^ 53 * 2 powi e" by simp
      then show ?thesis using e1(1) up by linarith
    qed
    then have "(2 :: real) powi (e1 + 52) < 2 powi (e + 53)" by (simp add: power_int_add mult.commute)
    then have lt: "e1 < e" "e \<noteq> - 1074" using False c by (auto simp: powi_less_iff canonical_float_def)
    then have m52: "2 ^ 52 \<le> m" using c by (simp add: canonical_float_def)
    have below: "?x < 2 ^ 52 * 2 powi e"
    proof -
      have "(2 :: real) powi (e1 + 53) \<le> 2 powi (e + 52)" using lt by (simp add: power_int_increasing)
      then show ?thesis using e1(2) by (simp add: power_int_add mult.commute)
    qed
    then have "(real_of_int m - 1 / 2) * 2 powi e < 2 ^ 52 * 2 powi e" using half by linarith
    then have "real_of_int m < 4503599627370497" by simp
    then have m: "m = 2 ^ 52" using m52 by simp
    then have quarter: "(2 ^ 52 - 1 / 4) * 2 powi e < ?x" using low lt by simp
    have "(2 :: real) powi (e + 51) < 2 powi (e1 + 53)"
    proof -
      have "(2 :: real) ^ 51 * 2 powi e < (2 ^ 52 - 1 / 4) * 2 powi e" by simp
      moreover have "(2 :: real) powi (e + 51) = 2 ^ 51 * 2 powi e" by (simp add: power_int_add mult.commute)
      ultimately show ?thesis using quarter e1(2) by linarith
    qed
    then have e: "max e1 (- 1074) = e - 1" using lt c by (auto simp: powi_less_iff canonical_float_def)
    have "\<bar>?x * 2 powi (- (e - 1)) - real_of_int (2 ^ 53)\<bar> < 1 / 2"
      using scaled_between [of "2 ^ 53 - 1 / 2" "e - 1" ?x "2 ^ 53"] below quarter by (simp add: power_int_diff abs_less_iff)
    from near [OF this] show ?thesis using r c m unfolding e by (simp add: canonical_float_def)
  qed
qed

text \<open>Rounding gives canonical floats, and depends on the ratio alone.\<close>

lemma round_float_canonical:
  assumes "0 \<le> n" and "0 < d" and r: "round_float s n d = FFin t m e"
  shows "t = s \<and> canonical_float m e"
proof (cases "n = 0")
  case True
  then show ?thesis using r by (simp add: round_float_def canonical_float_def)
next
  case False
  then have n: "0 < n" using assms(1) by simp
  let ?x = "real_of_int n / real_of_int d"
  obtain e1 where e1: "2 powi (e1 + 52) \<le> ?x" "?x < 2 powi (e1 + 53)"
    using binary_exponent [OF n assms(2) refl refl] by blast
  define f where "f = max e1 (- 1074)"
  define k where "k = round_div_even (shl n (- f)) (shl d f)"
  have near: "\<bar>?x * 2 powi (- f) - real_of_int k\<bar> \<le> 1 / 2"
    using round_div_even_near [of "shl d f" "shl n (- f)"] assms(2) by (simp add: k_def shl_ratio)
  have "?x * 2 powi (- f) < 9007199254740992"
  proof -
    have "(2 :: real) powi (e1 + 53) \<le> 2 powi (f + 53)" by (simp add: f_def power_int_increasing)
    then show ?thesis unfolding scaled_less using e1(2) by (simp add: power_int_add mult.commute)
  qed
  moreover have "0 < ?x * 2 powi (- f)" using n assms(2) by simp
  ultimately have "- 1 < real_of_int k" "real_of_int k < 9007199254740993" using near by linarith+
  then have k: "0 \<le> k" "k \<le> 2 ^ 53" by simp_all
  have big: "2 ^ 52 \<le> k" if "f \<noteq> - 1074"
  proof -
    have "f = e1" using that by (simp add: f_def max_def split: if_splits)
    then have "\<not> ?x * 2 powi (- f) < 4503599627370496" unfolding scaled_less using e1(1) by (simp add: power_int_add mult.commute)
    then have "4503599627370495 < real_of_int k" using near by linarith
    then show ?thesis by simp
  qed
  show ?thesis
    using r k big unfolding round_float_eq [OF n assms(2) e1 f_def k_def]
    by (auto simp: canonical_float_def f_def split: if_splits)
qed

lemma round_div_even_scale: "0 < k \<Longrightarrow> round_div_even (k * n) (k * d) = round_div_even n d"
  by (simp add: round_div_even_def Let_def mult.left_commute [of _ k])

lemma round_div_even_ratio: "0 < d \<Longrightarrow> 0 < d' \<Longrightarrow> n * d' = n' * d \<Longrightarrow> round_div_even n d = round_div_even n' d'"
  using round_div_even_scale [of d' n d] round_div_even_scale [of d n' d'] by (simp add: mult.commute)

lemma ratio_int:
  assumes "0 < d" and "0 < d'" and "real_of_int n / real_of_int d = real_of_int n' / real_of_int d'"
  shows "n * d' = n' * d"
proof -
  have "real_of_int (n * d') = real_of_int (n' * d)" using assms by (simp add: frac_eq_eq)
  then show ?thesis by (simp only: of_int_eq_iff)
qed

lemma round_float_ratio:
  assumes "0 \<le> n" and "0 < d" and "0 \<le> n'" and "0 < d'"
    and r: "real_of_int n / real_of_int d = real_of_int n' / real_of_int d'"
  shows "round_float s n d = round_float s n' d'"
proof (cases "n = 0")
  case True
  then show ?thesis using r assms(4) by (simp add: round_float_def)
next
  case False
  then have n: "0 < n" "0 < n'" using r assms by (auto simp: less_le)
  obtain e1 where e1: "2 powi (e1 + 52) \<le> real_of_int n / real_of_int d" "real_of_int n / real_of_int d < 2 powi (e1 + 53)"
    using binary_exponent [OF n(1) assms(2) refl refl] by blast
  have h: "round_div_even (shl n (- f)) (shl d f) = round_div_even (shl n' (- f)) (shl d' f)" for f
    by (intro round_div_even_ratio ratio_int) (simp_all add: assms(2,4) shl_ratio r)
  show ?thesis
    unfolding round_float_eq [OF n(1) assms(2) e1 refl refl] round_float_eq [OF n(2) assms(4) e1 [unfolded r] refl refl] h by (rule refl)
qed

section \<open>Decimal digits\<close>

lemma ten_pow_pos [simp]: "0 < ten_pow k"
  by (simp add: ten_pow_def)

lemma ten_pow_ratio: "real_of_int (ten_pow k) / real_of_int (ten_pow (- k)) = 10 powi k"
  by (simp add: ten_pow_def power_int_def power_one_over)

lemma show_nat_bounds: "0 < n \<Longrightarrow> 10 ^ (length (show_nat n) - 1) \<le> n \<and> n < 10 ^ length (show_nat n)"
proof (induction n rule: show_nat.induct)
  case (1 n)
  show ?case
  proof (cases "n < 10")
    case True
    then show ?thesis using 1(2) by (simp add: show_nat.simps [of n])
  next
    case False
    let ?l = "length (show_nat (n div 10))"
    have "10 ^ (?l - 1) \<le> n div 10" "n div 10 < 10 ^ ?l" using 1(1) False by auto
    moreover have "(10 :: int) ^ ?l = 10 * 10 ^ (?l - 1)"
      by (cases "show_nat (n div 10)") simp_all
    ultimately show ?thesis using False by (simp add: show_nat.simps [of n]) linarith
  qed
qed

lemma dec_point_bounds:
  assumes "0 < n" and "0 < d"
  shows "10 powi (dec_point n d - 1) \<le> real_of_int n / real_of_int d \<and> real_of_int n / real_of_int d < 10 powi dec_point n d"
  using assms
proof (induction n d rule: dec_point.induct)
  case (1 n d)
  consider "d \<le> n" | "n < d" "d \<le> 10 * n" | "10 * n < d" by linarith
  then show ?case
  proof cases
    case 1
    let ?q = "n div d"
    have q: "0 < ?q" using 1 \<open>0 < d\<close> by (simp add: pos_imp_zdiv_pos_iff)
    have p: "dec_point n d = int (length (show_nat ?q))" using 1 \<open>0 < n\<close> \<open>0 < d\<close> by (simp add: dec_point.simps [of n d])
    have f: "real_of_int ?q \<le> real_of_int n / real_of_int d" "real_of_int n / real_of_int d < real_of_int ?q + 1"
      using floor_correct [of "real_of_int n / real_of_int d"] by (simp_all add: floor_divide_of_int_eq)
    have "real_of_int (10 ^ (length (show_nat ?q) - 1)) \<le> real_of_int ?q"
      "real_of_int (?q + 1) \<le> real_of_int (10 ^ length (show_nat ?q))"
      using show_nat_bounds [OF q] by (simp_all only: of_int_le_iff) simp_all
    then have b: "10 ^ (length (show_nat ?q) - 1) \<le> real_of_int ?q" "real_of_int ?q + 1 \<le> 10 ^ length (show_nat ?q)"
      by (simp_all only: of_int_power of_int_numeral of_int_add of_int_1)
    have "(10 :: real) powi (int (length (show_nat ?q)) - 1) = 10 ^ (length (show_nat ?q) - 1)"
      by (cases "show_nat ?q") simp_all
    moreover have "(10 :: real) powi int (length (show_nat ?q)) = 10 ^ length (show_nat ?q)" by simp
    ultimately show ?thesis unfolding p using f b by (intro conjI) linarith+
  next
    case 2
    then show ?thesis using \<open>0 < n\<close> \<open>0 < d\<close> by (simp add: dec_point.simps [of n d] field_simps)
  next
    case 3
    have ih: "10 powi (dec_point (10 * n) d - 1) \<le> real_of_int (10 * n) / real_of_int d \<and>
        real_of_int (10 * n) / real_of_int d < 10 powi dec_point (10 * n) d"
      using 1 3 by simp
    have p: "dec_point (10 * n) d = dec_point n d + 1" using 3 \<open>0 < n\<close> \<open>0 < d\<close> by (simp add: dec_point.simps [of n d])
    have "(10 :: real) powi (dec_point n d + 1) = 10 * 10 powi dec_point n d"
      "(10 :: real) powi (dec_point n d + 1 - 1) = 10 * 10 powi (dec_point n d - 1)"
      by (simp_all add: power_int_add power_int_diff)
    then show ?thesis using ih unfolding p by simp
  qed
qed

section \<open>Seventeen digits\<close>

lemma ratio_mult:
  "real_of_int (a * b) / real_of_int (c * d) = real_of_int a / real_of_int c * (real_of_int b / real_of_int d)"
  by simp

lemma digits_ratio:
  "real_of_int (c * ten_pow k) / real_of_int (ten_pow (- k)) = real_of_int c * 10 powi k"
  using ten_pow_ratio [of k] by (metis of_int_mult times_divide_eq_right)

text \<open>A decimal of seventeen digits next to a float is rounded to it.\<close>

lemma neighbour_rounds:
  assumes c: "canonical_float m e" and m: "0 < m" and k: "0 < k"
    and near: "\<bar>real_of_int k * 10 powi q - real_of_int m * 2 powi e\<bar> \<le> 10 powi q / 2"
    and fine: "10 ^ 16 * 10 powi q \<le> real_of_int m * 2 powi e"
  shows "round_float s (k * ten_pow q) (ten_pow (- q)) = FFin s m e"
proof (rule round_float_near [OF _ _ m c])
  let ?p = "2 powi e :: real" and ?u = "10 powi q :: real"
  have p: "0 < ?p" by simp
  have small: "10000000000000000 * ?u \<le> real_of_int m * ?p" using fine by simp
  have "real_of_int m \<le> 9007199254740992" using c by (simp add: canonical_float_def)
  then have "real_of_int m * ?p \<le> 9007199254740992 * ?p" by (rule mult_right_mono) simp
  then have u: "?u / 2 < 1 / 2 * ?p" using small p by linarith
  have u52: "?u / 2 < 1 / 4 * ?p" if "m = 2 ^ 52"   proof -
    have "real_of_int m * ?p = 4503599627370496 * ?p" using that by simp
    then show ?thesis using small p by linarith
  qed
  have near: "real_of_int k * ?u - real_of_int m * ?p \<le> ?u / 2" "real_of_int m * ?p - real_of_int k * ?u \<le> ?u / 2"
    using near by linarith+
  show "real_of_int (k * ten_pow q) / real_of_int (ten_pow (- q)) < (real_of_int m + 1 / 2) * ?p"
    unfolding digits_ratio distrib_right using near u by linarith
  have w: "?u / 2 < (if m = 2 ^ 52 \<and> e \<noteq> - 1074 then 1 / 4 else 1 / 2) * ?p" using u u52 by (auto simp: mult.commute)
  show "(real_of_int m - (if m = 2 ^ 52 \<and> e \<noteq> - 1074 then 1 / 4 else 1 / 2)) * ?p
      < real_of_int (k * ten_pow q) / real_of_int (ten_pow (- q))"
    unfolding digits_ratio left_diff_distrib using near w by linarith
qed (use k in simp_all)

lemma candidate_exact:
  assumes "candidate s m e p k = Some c"
  shows "round_float s (c * ten_pow (p - k)) (ten_pow (k - p)) = FFin s m e"
    and "c = shl m e * ten_pow (k - p) div (shl 1 (- e) * ten_pow (p - k)) \<or>
      c = shl m e * ten_pow (k - p) div (shl 1 (- e) * ten_pow (p - k)) + 1"
  using assms by (auto simp: candidate_def Let_def round_div_even_def split: if_splits)

lemma candidate_ratio:
  "real_of_int (shl m e * ten_pow (k - p)) / real_of_int (shl 1 (- e) * ten_pow (p - k)) =
    real_of_int m * 2 powi e * 10 powi (k - p)"
  using shl_ratio [of 1 m "- e"] ten_pow_ratio [of "k - p"] unfolding ratio_mult by simp

lemma candidate_17:
  assumes c: "canonical_float m e" and m: "0 < m"
    and low: "10 powi (p - 1) \<le> real_of_int m * 2 powi e"
  shows "candidate s m e p 17 \<noteq> None"
proof -
  let ?x = "real_of_int m * 2 powi e" and ?u = "10 powi (p - 17) :: real"
  let ?lo = "shl m e * ten_pow (17 - p) div (shl 1 (- e) * ten_pow (p - 17))"
  have y: "?x * 10 powi (17 - p) = ?x / ?u" by (simp add: power_int_diff field_simps)
  let ?r = "real_of_int (shl m e * ten_pow (17 - p)) / real_of_int (shl 1 (- e) * ten_pow (p - 17))"
  have "real_of_int ?lo \<le> ?r \<and> ?r < real_of_int ?lo + 1"
    using floor_correct [of ?r] by (simp only: floor_divide_of_int_eq of_int_add of_int_1)
  then have lo: "real_of_int ?lo \<le> ?x / ?u" "?x / ?u < real_of_int ?lo + 1"
    unfolding candidate_ratio y by blast+
  have fine: "10 ^ 16 * ?u \<le> ?x" using low by (simp add: power_int_diff)
  then have "10 ^ 16 \<le> ?x / ?u" by (simp add: field_simps)
  then have pos: "0 < ?lo" using lo(2) by (smt (verit) of_int_0_less_iff one_le_power of_int_le_0_iff)
  have le: "real_of_int ?lo * ?u \<le> ?x" "?x < (real_of_int ?lo + 1) * ?u"
    using lo by (simp_all add: pos_le_divide_eq pos_divide_less_eq)
  have "round_float s (?lo * ten_pow (p - 17)) (ten_pow (- (p - 17))) = FFin s m e \<or>
      round_float s ((?lo + 1) * ten_pow (p - 17)) (ten_pow (- (p - 17))) = FFin s m e"
  proof (cases "?x - real_of_int ?lo * ?u \<le> ?u / 2")
    case True
    then have "\<bar>real_of_int ?lo * ?u - ?x\<bar> \<le> ?u / 2" using le by linarith
    then show ?thesis using neighbour_rounds [OF c m pos _ fine] by blast
  next
    case False
    then have "\<bar>real_of_int (?lo + 1) * ?u - ?x\<bar> \<le> ?u / 2" using le by (simp add: distrib_right)
    then show ?thesis using neighbour_rounds [OF c m _ _ fine, of "?lo + 1"] pos by simp
  qed
  then show ?thesis by (auto simp: candidate_def Let_def)
qed

lemma first_candidate_found:
  "\<exists>k \<in> set ks. candidate s m e p k \<noteq> None \<Longrightarrow> first_candidate s m e p ks = (c, k) \<Longrightarrow>
    k \<in> set ks \<and> candidate s m e p k = Some c"
  by (induction ks) (auto split: option.splits)

end
