(* ===== verification/Float_Text.thy ===== *)
theory Float_Text
  imports Float_Rounding Json_Text Go_Time
begin

text \<open>
  The text of a number and back: what \<open>encoding/json\<close> prints for a finite \<open>float64\<close> is a literal of JSON, and
  \<open>strconv.ParseFloat\<close> reads it as the same float, for every float.
\<close>

section \<open>Shortest digits\<close>

lemma digit_zero: "is_digit CHR ''0''" "digit_value CHR ''0'' = Some 0"
  by (simp_all add: digit_value_def)

lemma show_nat_first: "0 < n \<Longrightarrow> hd (show_nat n) \<noteq> CHR ''0''"
proof (induction n rule: show_nat.induct)
  case (1 n)
  show ?case
  proof (cases "n < 10")
    case True
    then show ?thesis using 1(2) by (simp add: show_nat.simps [of n] digit_char_def)
  next
    case False
    then show ?thesis using 1 by (simp add: show_nat.simps [of n])
  qed
qed

lemma read_zeros: "read_digits a (replicate z CHR ''0'') = Some (a * 10 ^ z)"
  by (induction z arbitrary: a) (simp_all add: digit_zero)

lemma read_digits_some: "(\<forall>c \<in> set ds. is_digit c) \<Longrightarrow> \<exists>v. read_digits a ds = Some v"
  by (induction ds arbitrary: a) auto

lemma strip_zeros:
  "\<exists>z. s = rev (dropWhile (\<lambda>x. x = CHR ''0'') (rev s)) @ replicate z CHR ''0''"
proof -
  let ?p = "\<lambda>x. x = CHR ''0''"
  have "rev (takeWhile ?p (rev s)) = replicate (length (takeWhile ?p (rev s))) CHR ''0''"
    by (rule replicate_eqI) (auto dest: set_takeWhileD)
  moreover have "s = rev (dropWhile ?p (rev s)) @ rev (takeWhile ?p (rev s))"
    by (simp flip: rev_append)
  ultimately show ?thesis by (intro exI [of _ "length (takeWhile ?p (rev s))"]) simp
qed

text \<open>
  What is needed of the digits \<open>ds\<close> and the position \<open>q\<close> of the point: they are the digits of a number that
  rounds to the float.
\<close>

definition digits_of_float :: "bool \<Rightarrow> int \<Rightarrow> int \<Rightarrow> string \<Rightarrow> int \<Rightarrow> int \<Rightarrow> bool" where
  "digits_of_float s m e ds q v \<longleftrightarrow>
     ds \<noteq> [] \<and> hd ds \<noteq> CHR ''0'' \<and> (\<forall>c \<in> set ds. is_digit c) \<and> read_digits 0 ds = Some v \<and> 0 < v \<and>
     \<bar>q\<bar> < 5000 \<and> round_float s (v * ten_pow (q - int (length ds))) (ten_pow (int (length ds) - q)) = FFin s m e"

lemma two_ten: "0 \<le> n \<Longrightarrow> (2 :: real) powi n \<le> 10 powi n"
  by (rule power_int_mono) simp_all

lemma ten_two: "n \<le> 0 \<Longrightarrow> (10 :: real) powi n \<le> 2 powi n"
  using two_ten [of "- n"] by (simp add: power_int_minus)

lemma point_bound:
  assumes c: "canonical_float m e" and m: "0 < m"
    and p: "10 powi (p - 1) \<le> real_of_int m * 2 powi e" "real_of_int m * 2 powi e < 10 powi p"
  shows "\<bar>p\<bar> < 2000"
proof -
  have "real_of_int m < 2 powi 53" using c by (simp add: canonical_float_def)
  then have "real_of_int m * 2 powi e < 2 powi 53 * 2 powi e" by (rule mult_strict_right_mono) simp
  also have "\<dots> = 2 powi (53 + e)" by (rule power_int_add [symmetric]) simp
  also have "\<dots> \<le> 2 powi (1024 :: int)" by (rule power_int_increasing) (use c in \<open>simp_all add: canonical_float_def\<close>)
  also have "\<dots> \<le> (10 :: real) powi (1024 :: int)" by (rule two_ten) simp
  finally have "p - 1 < 1024" using p(1) by (meson le_less_trans not_less one_le_numeral power_int_increasing)
  moreover have "(10 :: real) powi (- 1074) \<le> 2 powi (- 1074)" by (rule ten_two) simp
  moreover have "2 powi (- 1074) \<le> (2 :: real) powi e" by (rule power_int_increasing) (use c in \<open>simp_all add: canonical_float_def\<close>)
  moreover have "1 * 2 powi e \<le> real_of_int m * 2 powi e" using m by (intro mult_right_mono) simp_all
  ultimately have "(10 :: real) powi (- 1074) < 10 powi p" using p(2) by linarith
  then have "- 1074 < p" by (meson not_less one_le_numeral power_int_increasing)
  with \<open>p - 1 < 1024\<close> show ?thesis by simp
qed

lemma stripped_digits:
  assumes c: "0 < c" and ds: "ds = rev (dropWhile (\<lambda>x. x = CHR ''0'') (rev (show_nat c)))"
  shows "\<exists>z v. length (show_nat c) = length ds + z \<and> c = v * 10 ^ z \<and> read_digits 0 ds = Some v \<and> 0 < v \<and>
    ds \<noteq> [] \<and> hd ds \<noteq> CHR ''0'' \<and> (\<forall>x \<in> set ds. is_digit x)"
proof -
  obtain z where z: "show_nat c = ds @ replicate z CHR ''0''" using strip_zeros ds by metis
  have digits: "\<forall>x \<in> set ds. is_digit x" using show_nat_digits [of c] unfolding z by simp
  have first: "hd (show_nat c) \<noteq> CHR ''0''" by (rule show_nat_first [OF c])
  have "ds \<noteq> []"
  proof
    assume "ds = []"
    moreover then have "z \<noteq> 0" using z show_nat_ne [of c] by auto
    ultimately show False using first z by (cases z) simp_all
  qed
  moreover obtain v where v: "read_digits 0 ds = Some v" using read_digits_some [OF digits] by blast
  have "read_digits 0 (show_nat c) = Some (v * 10 ^ z)" unfolding z by (simp add: read_digits_append v read_zeros)
  then have "c = v * 10 ^ z" using read_show_nat [of c] c by simp
  moreover have "0 < v" using c \<open>c = v * 10 ^ z\<close> by (simp add: zero_less_mult_iff)
  ultimately show ?thesis using v digits first z by (intro exI [of _ z] exI [of _ v]) simp
qed

lemma shortest_digits_back:
  assumes c: "canonical_float m e" and m: "0 < m" and "shortest_digits s m e = (ds, q)"
  shows "\<exists>v. digits_of_float s m e ds q v"
proof -
  let ?ks = "[1, 2, 3, 4, 5, 6, 7, 8, 9, 10, 11, 12, 13, 14, 15, 16, 17] :: int list"
  define p where "p = dec_point (shl m e) (shl 1 (- e))"
  obtain b k where f: "first_candidate s m e p ?ks = (b, k)" by (cases "first_candidate s m e p ?ks")
  have pos: "0 < shl m e" "0 < shl 1 (- e)" using m by simp_all
  have "real_of_int (shl m e) / real_of_int (shl 1 (- e)) = real_of_int m * 2 powi e"
    using shl_ratio [of 1 m "- e"] by simp
  then have p: "10 powi (p - 1) \<le> real_of_int m * 2 powi e" "real_of_int m * 2 powi e < 10 powi p"
    using dec_point_bounds [OF pos] by (simp_all add: p_def)
  have "k \<in> set ?ks \<and> candidate s m e p k = Some b"
    by (rule first_candidate_found [OF _ f]) (use candidate_17 [OF c m p(1)] in simp)
  then have k: "1 \<le> k" "k \<le> 17" and b: "candidate s m e p k = Some b" by auto
  have r: "round_float s (b * ten_pow (p - k)) (ten_pow (k - p)) = FFin s m e" by (rule candidate_exact(1) [OF b])
  have "b \<noteq> 0" using r m by (auto simp: round_float_def)
  let ?y = "real_of_int (shl m e * ten_pow (k - p)) / real_of_int (shl 1 (- e) * ten_pow (p - k))"
  let ?lo = "shl m e * ten_pow (k - p) div (shl 1 (- e) * ten_pow (p - k))"
  have "0 \<le> ?lo" using pos by (simp add: pos_imp_zdiv_nonneg_iff less_imp_le)
  then have "0 < b" using candidate_exact(2) [OF b] \<open>b \<noteq> 0\<close> by linarith
  have "real_of_int ?lo \<le> ?y" using floor_correct [of ?y] by (simp only: floor_divide_of_int_eq)
  also have "?y < 10 powi p * 10 powi (k - p)" unfolding candidate_ratio using p(2) by (rule mult_strict_right_mono) simp
  also have "\<dots> = 10 powi k" by (simp add: power_int_add [symmetric])
  also have "\<dots> = real_of_int (10 ^ nat k)" using k by (simp add: power_int_nonneg_exp)
  finally have "b \<le> 10 ^ nat k" using candidate_exact(2) [OF b] by (simp only: of_int_less_iff) linarith
  moreover have "(10 :: int) ^ nat k < 10 ^ 18" using k by (intro power_strict_increasing) simp_all
  ultimately have len: "length (show_nat b) \<le> 18" using \<open>0 < b\<close> by (intro length_show_nat) simp_all
  have out: "ds = rev (dropWhile (\<lambda>x. x = CHR ''0'') (rev (show_nat b)))" "q = p + int (length (show_nat b)) - k"
    using assms(3) m f by (simp_all add: shortest_digits_def Let_def p_def [symmetric])
  obtain z v where z: "length (show_nat b) = length ds + z" "b = v * 10 ^ z" "read_digits 0 ds = Some v" "0 < v"
    "ds \<noteq> []" "hd ds \<noteq> CHR ''0''" "\<forall>x \<in> set ds. is_digit x"
    using stripped_digits [OF \<open>0 < b\<close> out(1)] by blast
  have q: "q - int (length ds) = p - k + int z" using out(2) z(1) by simp
  have "round_float s (v * ten_pow (q - int (length ds))) (ten_pow (- (q - int (length ds)))) = FFin s m e"
  proof -
    have "real_of_int b * 10 powi (p - k) = real_of_int v * 10 powi (p - k + int z)"
      by (simp add: z(2) power_int_add)
    then have "real_of_int (v * ten_pow (p - k + int z)) / real_of_int (ten_pow (- (p - k + int z))) =
        real_of_int (b * ten_pow (p - k)) / real_of_int (ten_pow (- (p - k)))"
      unfolding digits_ratio by simp
    then have "round_float s (v * ten_pow (p - k + int z)) (ten_pow (- (p - k + int z))) =
        round_float s (b * ten_pow (p - k)) (ten_pow (- (p - k)))"
      using \<open>0 < v\<close> \<open>0 < b\<close> by (intro round_float_ratio) (simp_all add: less_imp_le)
    then show ?thesis unfolding q using r by simp
  qed
  moreover have "\<bar>q\<bar> < 5000" using point_bound [OF c m p] out(2) len k by linarith
  ultimately show ?thesis using z by (intro exI [of _ v]) (simp add: digits_of_float_def)
qed

section \<open>Reading literals\<close>

definition number_chars :: "char set" where
  "number_chars = {c. is_digit c} \<union> {CHR ''.'', CHR ''-'', CHR ''+'', CHR ''e'', CHR ''E''}"

lemma digit_chars:
  assumes "is_digit c"
  shows "c \<notin> {CHR ''_'', CHR ''i'', CHR ''n'', CHR ''x'', CHR ''.'', CHR ''-'', CHR ''+'', CHR ''e'', CHR ''E''}" and "lower c = c" and "c \<in> number_chars"
  using assms digit_byte [OF assms] by (auto simp: byte_def number_chars_def lower_def less_eq_char_def)

lemma lower_E: "lower CHR ''E'' = CHR ''e''"
  by code_simp

lemma number_lower: "c \<in> number_chars \<Longrightarrow> lower c \<notin> {CHR ''i'', CHR ''n'', CHR ''x'', CHR ''_''} \<and> c \<noteq> CHR ''_''"
proof -
  assume "c \<in> number_chars"
  then consider "is_digit c" | "c \<in> {CHR ''.'', CHR ''-'', CHR ''+'', CHR ''e'', CHR ''E''}"
    by (auto simp: number_chars_def)
  then show ?thesis
  proof cases
    case 1
    then show ?thesis using digit_chars(1,2) [of c] by auto
  next
    case 2
    then show ?thesis using lower_E by (auto simp: lower_def less_eq_char_def)
  qed
qed

text \<open>Neither a name, nor hexadecimal, nor with underscores.\<close>

lemma scan_mantissa_plain:
  "CHR ''_'' \<notin> set t \<Longrightarrow> (case scan_mantissa hex t acc fr dot digs und of (a, f, d, u, rest) \<Rightarrow> u = und \<and> set rest \<subseteq> set t)"
  by (induction hex t acc fr dot digs und rule: scan_mantissa.induct) (auto split: prod.splits option.splits)

lemma scan_exponent_plain:
  "CHR ''_'' \<notin> set t \<Longrightarrow> (case scan_exponent t acc und of (a, u, rest) \<Rightarrow> u = und)"
  by (induction t acc und rule: scan_exponent.induct) (auto split: option.splits prod.splits)

definition read_plain :: "bool \<Rightarrow> string \<Rightarrow> num_error + float64" where
  "read_plain s t =
     (let (acc, fr, digs, und, rest) = scan_mantissa False t 0 0 False False False
      in if \<not> digs then Inl ErrSyntax
         else (case rest of [] \<Rightarrow> float_result False s acc (- fr)
           | c # cs \<Rightarrow>
               (if lower c \<noteq> CHR ''e'' then Inl ErrSyntax
                else (let (es, ds) = strip_sign cs
                      in if ds = [] \<or> \<not> is_digit (hd ds) then Inl ErrSyntax
                         else (let (e, und, rest') = scan_exponent ds 0 False
                               in if rest' \<noteq> [] then Inl ErrSyntax else float_result False s acc (- fr + signed es e))))))"

lemma read_number_plain:
  assumes "set t \<subseteq> number_chars"
  shows "read_number s t = read_plain s t"
proof -
  have hex: "\<not> (2 < length t \<and> take 1 t = ''0'' \<and> lower (t ! 1) = CHR ''x'')"
  proof
    assume a: "2 < length t \<and> take 1 t = ''0'' \<and> lower (t ! 1) = CHR ''x''"
    then have "t ! 1 \<in> number_chars" using assms nth_mem [of 1 t] by auto
    then show False using a number_lower [of "t ! 1"] by simp
  qed
  then have hex: "(2 < length t \<and> take 1 t = ''0'' \<and> lower (t ! 1) = CHR ''x'') = False" by blast
  have t: "CHR ''_'' \<notin> set t" using number_lower assms by blast
  obtain acc fr digs und rest where m: "scan_mantissa False t 0 0 False False False = (acc, fr, digs, und, rest)"
    by (metis prod_cases5)
  have u: "und = False" "CHR ''_'' \<notin> set rest" using scan_mantissa_plain [OF t, where hex = False and acc = 0 and fr = 0 and dot = False and digs = False and und = False] t m by auto
  have e: "fst (snd (scan_exponent ds 0 False)) = False" if "set ds \<subseteq> set rest" for ds
  proof -
    have "CHR ''_'' \<notin> set ds" using u(2) that by blast
    from scan_exponent_plain [OF this, where acc = 0 and und = False] show ?thesis by (simp split: prod.splits)
  qed
  show ?thesis
  proof (cases rest)
    case Nil
    then show ?thesis unfolding read_number_def read_plain_def Let_def hex using m u by simp
  next
    case (Cons c cs)
    obtain es ds where d: "strip_sign cs = (es, ds)" by (cases "strip_sign cs")
    then have "set ds \<subseteq> set rest" using Cons by (auto simp: strip_sign_def split: list.splits if_splits)
    from e [OF this] show ?thesis
      unfolding read_number_def read_plain_def Let_def hex using m u Cons d by (auto split: prod.splits)
  qed
qed

lemma parse_float_plain:
  assumes "set s \<subseteq> number_chars"
  shows "parse_float s = (case strip_sign s of (neg, t) \<Rightarrow> read_plain neg t)"
proof -
  obtain neg t where t: "strip_sign s = (neg, t)" by (cases "strip_sign s")
  then have sub: "set t \<subseteq> set s" by (auto simp: strip_sign_def split: list.splits if_splits)
  have names: "map lower u \<noteq> c # cs" if "c \<in> {CHR ''i'', CHR ''n''}" "set u \<subseteq> number_chars" for u c cs
    using that number_lower by (cases u) auto
  then show ?thesis
    using t sub assms read_number_plain [of t neg] names [of _ t] names [of _ s] by (simp add: parse_float_def)
qed

lemma scan_mantissa_digits:
  "\<forall>c \<in> set ds. is_digit c \<Longrightarrow> read_digits acc ds = Some v \<Longrightarrow>
    scan_mantissa False (ds @ rest) acc fr dot digs und =
    scan_mantissa False rest v (if dot then fr + int (length ds) else fr) dot (digs \<or> ds \<noteq> []) und"
proof (induction ds arbitrary: acc fr digs)
  case (Cons c ds)
  obtain d where d: "digit_value c = Some d" using Cons.prems(1) by auto
  moreover have "c \<noteq> CHR ''_'' \<and> c \<noteq> CHR ''.''" using digit_chars(1) [of c] Cons.prems(1) by simp
  ultimately show ?case using Cons by (simp add: add.assoc)
qed simp

lemma scan_exponent_digits:
  "\<forall>c \<in> set ds. is_digit c \<Longrightarrow> read_digits acc ds = Some v \<Longrightarrow> 0 \<le> acc \<Longrightarrow> v < 10000 \<Longrightarrow>
    scan_exponent ds acc und = (v, und, [])"
proof (induction ds arbitrary: acc)
  case (Cons c ds)
  obtain d where d: "digit_value c = Some d" using Cons.prems(1) by auto
  moreover have "c \<noteq> CHR ''_''" using digit_chars(1) [of c] Cons.prems(1) by simp
  moreover have "acc < 10000" using read_digits_ge [OF Cons.prems(2,3)] Cons.prems(4) by simp
  moreover have "0 \<le> 10 * acc + d" using d digit_value_range [of c d] Cons.prems(3) by simp
  ultimately show ?case using Cons by simp
qed simp

lemma float_result_back:
  assumes d: "digits_of_float s m e ds q v" and a: "0 \<le> a"
    and r: "real_of_int a * 10 powi x = real_of_int v * 10 powi (q - int (length ds))"
  shows "float_result False s a x = Inr (FFin s m e)"
proof -
  let ?y = "q - int (length ds)"
  have "0 \<le> v" using d by (simp add: digits_of_float_def)
  then have "round_float s (a * ten_pow x) (ten_pow (- x)) = round_float s (v * ten_pow ?y) (ten_pow (- ?y))"
    using a r by (intro round_float_ratio) (simp_all only: digits_ratio ten_pow_pos, simp_all add: less_imp_le)
  then show ?thesis using d by (simp add: float_result_def digits_of_float_def)
qed

section \<open>Printing and reading back\<close>

lemma read_point:
  assumes "\<forall>c \<in> set ds. is_digit c" and "\<forall>c \<in> set es. is_digit c" and "ds \<noteq> []" and "read_digits 0 (ds @ es) = Some v"
    and "rest = [] \<or> hd rest = CHR ''e''"
  shows "scan_mantissa False (ds @ CHR ''.'' # es @ rest) 0 0 False False False = (v, int (length es), True, False, rest)"
proof -
  obtain u where u: "read_digits 0 ds = Some u" "read_digits u es = Some v"
    using assms(4) by (auto simp: read_digits_append split: option.splits)
  have e: "digit_value CHR ''e'' = None" by (simp add: digit_value_def)
  show ?thesis
    using assms(3,5) scan_mantissa_digits [OF assms(1) u(1), of "CHR ''.'' # es @ rest"]
      scan_mantissa_digits [OF assms(2) u(2), of rest] e by (cases rest) simp_all
qed

lemma read_digits_f:
  assumes d: "digits_of_float s m e ds q v"
  shows "read_plain s (digits_f ds q) = Inr (FFin s m e)"
proof -
  let ?n = "nat q"
  have digits: "\<forall>c \<in> set ds. is_digit c" and v: "read_digits 0 ds = Some v" "0 < v" and ds: "ds \<noteq> []"
    using d by (simp_all add: digits_of_float_def)
  have exact: "float_result False s v (q - int (length ds)) = Inr (FFin s m e)"
    by (rule float_result_back [OF d]) (use v in simp_all)
  consider (whole) "0 < q" "int (length ds) \<le> q" | (split) "0 < q" "q < int (length ds)" | (small) "q \<le> 0" by linarith
  then show ?thesis
  proof cases
    case whole
    then have t: "digits_f ds q = ds @ replicate (?n - length ds) CHR ''0''" by (simp add: digits_f_def Let_def)
    have "read_digits 0 (ds @ replicate (?n - length ds) CHR ''0'') = Some (v * 10 ^ (?n - length ds))"
      by (simp add: read_digits_append v read_zeros)
    moreover have "\<forall>c \<in> set (ds @ replicate (?n - length ds) CHR ''0''). is_digit c"
      using digits by (auto simp: digit_zero)
    ultimately have m: "scan_mantissa False (digits_f ds q) 0 0 False False False = (v * 10 ^ (?n - length ds), 0, True, False, [])"
      using scan_mantissa_digits [where rest = "[]"] ds unfolding t by simp
    have "float_result False s (v * 10 ^ (?n - length ds)) 0 = Inr (FFin s m e)"
      by (rule float_result_back [OF d]) (use whole v in \<open>simp_all add: power_int_def nat_diff_distrib\<close>)
    then show ?thesis by (simp add: read_plain_def m)
  next
    case split
    then have n: "0 < ?n" "?n < length ds" by simp_all
    then have t: "digits_f ds q = take ?n ds @ CHR ''.'' # drop ?n ds @ []"
      using split by (simp add: digits_f_def Let_def)
    have "take ?n ds \<noteq> []" using n by auto
    then have "scan_mantissa False (digits_f ds q) 0 0 False False False = (v, int (length (drop ?n ds)), True, False, [])"
      unfolding t using digits v by (intro read_point) (auto dest: in_set_takeD in_set_dropD)
    moreover have "- int (length (drop ?n ds)) = q - int (length ds)" using n split by simp
    ultimately show ?thesis using exact split by (simp add: read_plain_def)
  next
    case small
    then have t: "digits_f ds q = ''0'' @ CHR ''.'' # (replicate (nat (- q)) CHR ''0'' @ ds) @ []"
      using ds by (simp add: digits_f_def Let_def)
    have "read_digits 0 (''0'' @ replicate (nat (- q)) CHR ''0'' @ ds) = Some v"
      using v by (simp add: digit_zero read_digits_replicate_0)
    then have "scan_mantissa False (digits_f ds q) 0 0 False False False =
        (v, int (length (replicate (nat (- q)) CHR ''0'' @ ds)), True, False, [])"
      unfolding t using digits by (intro read_point) (auto simp: digit_zero)
    moreover have "- int (length (replicate (nat (- q)) CHR ''0'' @ ds)) = q - int (length ds)" using small by simp
    ultimately show ?thesis using exact by (simp add: read_plain_def)
  qed
qed

lemma pad_left_digits: "\<forall>c \<in> set s. is_digit c \<Longrightarrow> \<forall>c \<in> set (pad_left w s). is_digit c"
  by (auto simp: pad_left_def digit_zero)

lemma digit_not_sign: "is_digit c \<Longrightarrow> strip_sign (c # cs) = (False, c # cs)"
  using digit_chars(1) [of c] by (simp add: strip_sign_def)

lemma strip_sign_digits: "s \<noteq> [] \<Longrightarrow> is_digit (hd s) \<Longrightarrow> strip_sign s = (False, s)"
  using digit_not_sign by (cases s) simp_all

lemma lower_is_e:
  assumes "lower c = CHR ''e''"
  shows "c = CHR ''e'' \<or> c = CHR ''E''"
proof -
  have "c = CHR ''e''" if "\<not> (CHR ''A'' \<le> c \<and> c \<le> CHR ''Z'')" using assms that by (simp add: lower_def)
  moreover have "c = CHR ''E''" if u: "CHR ''A'' \<le> c \<and> c \<le> CHR ''Z''"
  proof -
    have "of_char c \<le> (90 :: nat)" using u by (simp add: less_eq_char_def)
    moreover have "char_of (of_char c + 32 :: nat) = CHR ''e''" using assms u by (simp add: lower_def)
    then have "of_char (char_of (of_char c + 32 :: nat)) = (of_char CHR ''e'' :: nat)" by simp
    ultimately have "of_char c = (of_char CHR ''E'' :: nat)" by simp
    then show ?thesis by (simp only: of_char_eq_iff)
  qed
  ultimately show ?thesis by blast
qed

lemma lower_e: "lower CHR ''e'' = CHR ''e''"
  by code_simp

lemma read_exponent:
  assumes d: "digits_of_float s m e ds q v"
    and m: "scan_mantissa False t 0 0 False False False =
      (v, int (length ds) - 1, True, False, CHR ''e'' # (if x < 0 then CHR ''-'' else CHR ''+'') # pad_left w (show_nat \<bar>x\<bar>))"
    and x: "x = q - 1"
  shows "read_plain s t = Inr (FFin s m e)"
proof -
  let ?es = "pad_left w (show_nat \<bar>x\<bar>)"
  have digits: "\<forall>c \<in> set ?es. is_digit c" by (rule pad_left_digits) (rule show_nat_digits)
  moreover have ne: "?es \<noteq> []" by (simp add: pad_left_def)
  ultimately have h: "is_digit (hd ?es)" by simp
  have "\<bar>q\<bar> < 5000" using d by (simp add: digits_of_float_def)
  then have "\<bar>x\<bar> < 10000" using x by linarith
  then have e: "scan_exponent ?es 0 False = (\<bar>x\<bar>, False, [])"
    using scan_exponent_digits [OF digits read_pad_left] by simp
  have "float_result False s v (- (int (length ds) - 1) + signed (x < 0) \<bar>x\<bar>) = Inr (FFin s m e)"
    by (rule float_result_back [OF d]) (use d x in \<open>simp_all add: digits_of_float_def signed_def algebra_simps\<close>)
  then show ?thesis using ne h e by (cases "x < 0") (simp_all add: read_plain_def m lower_e strip_sign_def)
qed

lemma read_digits_e:
  assumes d: "digits_of_float s m e ds q v"
  shows "read_plain s (digits_e w ds q) = Inr (FFin s m e)"
proof -
  have digits: "\<forall>c \<in> set ds. is_digit c" and v: "read_digits 0 ds = Some v" and ds: "ds \<noteq> []"
    using d by (simp_all add: digits_of_float_def)
  then obtain a as where a: "ds = a # as" by (cases ds) auto
  let ?tail = "CHR ''e'' # (if q - 1 < 0 then CHR ''-'' else CHR ''+'') # pad_left w (show_nat \<bar>q - 1\<bar>)"
  have e: "digit_value CHR ''e'' = None" by (simp add: digit_value_def)
  show ?thesis
  proof (rule read_exponent [OF d _ refl])
    show "scan_mantissa False (digits_e w ds q) 0 0 False False False = (v, int (length ds) - 1, True, False, ?tail)"
    proof (cases "as = []")
      case True
      then have t: "digits_e w ds q = ds @ ?tail" using a by (simp add: digits_e_def Let_def)
      show ?thesis unfolding t scan_mantissa_digits [OF digits v] using True a e by simp
    next
      case False
      then have t: "digits_e w ds q = [a] @ CHR ''.'' # as @ ?tail"
        using a by (cases as) (simp_all add: digits_e_def Let_def)
      have "scan_mantissa False (digits_e w ds q) 0 0 False False False = (v, int (length as), True, False, ?tail)"
        unfolding t using digits v a by (intro read_point) simp_all
      then show ?thesis using a by simp
    qed
  qed
qed

text \<open>The literals are numbers of JSON.\<close>

lemma takeWhile_digits: "\<forall>c \<in> set ds. is_digit c \<Longrightarrow> scan_digits (ds @ s) = (ds @ fst (scan_digits s), snd (scan_digits s))"
  by (simp add: scan_digits_def takeWhile_append dropWhile_append)

definition fraction_text :: "string \<Rightarrow> bool" where
  "fraction_text t \<longleftrightarrow> t = [] \<or> (\<exists>ds. t = CHR ''.'' # ds \<and> ds \<noteq> [] \<and> (\<forall>c \<in> set ds. is_digit c))"

definition exponent_text :: "string \<Rightarrow> bool" where
  "exponent_text t \<longleftrightarrow> t = [] \<or> (\<exists>c sg ds. t = c # sg @ ds \<and> lower c = CHR ''e'' \<and> sg \<in> {[], ''+'', ''-''} \<and>
     ds \<noteq> [] \<and> (\<forall>c \<in> set ds. is_digit c))"

lemma mark_no_digit: "lower c = CHR ''e'' \<Longrightarrow> digit_value c = None"
  using digit_chars(1,2) [of c] by (cases "digit_value c") auto

lemma number_shape:
  assumes ip: "\<forall>c \<in> set ip. is_digit c" "ip \<noteq> []" "ip = ''0'' \<or> hd ip \<noteq> CHR ''0''"
    and fp: "fraction_text fp" and ep: "exponent_text ep"
    and neg: "neg = [] \<or> neg = ''-''"
  shows "number_ok (neg @ ip @ fp @ ep)"
proof -
  obtain a as where a: "ip = a # as" using ip(2) by (cases ip) auto
  have nd: "\<not> is_digit CHR ''.''" by (simp add: digit_value_def)
  have minus: "a \<noteq> CHR ''-''" using digit_chars(1) [of a] ip(1) a by simp
  have stop_e: "scan_digits ep = ([], ep)" using ep mark_no_digit by (auto simp: scan_digits_def exponent_text_def)
  have stop_f: "scan_digits (fp @ ep) = ([], fp @ ep)" using fp stop_e nd by (auto simp: scan_digits_def fraction_text_def)
  have f: "scan_frac (fp @ ep) = Some (fp, ep)"
  proof (cases "fp = []")
    case True
    have "lower CHR ''.'' = CHR ''.''" by code_simp
    then show ?thesis using ep True by (auto simp: scan_frac_def exponent_text_def)
  next
    case False
    then obtain ds where "fp = CHR ''.'' # ds" "ds \<noteq> []" "\<forall>c \<in> set ds. is_digit c" using fp by (auto simp: fraction_text_def)
    then show ?thesis using takeWhile_digits [of ds ep] stop_e by (simp add: scan_frac_def)
  qed
  have e: "scan_exp ep = Some (ep, [])"
  proof (cases "ep = []")
    case False
    then obtain c sg ds where s: "ep = c # sg @ ds" "lower c = CHR ''e''" "sg \<in> {[], ''+'', ''-''}" "ds \<noteq> []"
      "\<forall>c \<in> set ds. is_digit c" using ep by (auto simp: exponent_text_def)
    have d: "scan_digits ds = (ds, [])" using takeWhile_digits [OF s(5), of "[]"] by (simp add: scan_digits_def)
    have "takeWhile (\<lambda>x. x = CHR ''+'' \<or> x = CHR ''-'') (take 1 (sg @ ds)) = sg"
      using s(3,4,5) digit_chars(1) [of "hd ds"] by (cases ds) auto
    then show ?thesis using s d by (simp add: scan_exp_def Let_def)
  qed (simp add: scan_exp_def)
  have n: "takeWhile (\<lambda>x. x = CHR ''-'') (take 1 (neg @ ip @ fp @ ep)) = neg" using neg minus a by auto
  have d: "drop (length neg) (neg @ ip @ fp @ ep) = ip @ fp @ ep" by simp
  show ?thesis
    unfolding number_ok_def scan_number_def Let_def n d takeWhile_digits [OF ip(1)] stop_f
    using ip f e a by (auto split: if_splits)
qed

definition literal :: "string \<Rightarrow> bool" where
  "literal t \<longleftrightarrow> set t \<subseteq> number_chars \<and> t \<noteq> [] \<and> is_digit (hd t) \<and> number_ok t \<and> number_ok (CHR ''-'' # t)"

lemma exponent_chars:
  assumes "exponent_text ep"
  shows "set ep \<subseteq> number_chars"
proof (cases "ep = []")
  case False
  then obtain c sg ds where s: "ep = c # sg @ ds" "lower c = CHR ''e''" "sg \<in> {[], ''+'', ''-''}"
    "\<forall>c \<in> set ds. is_digit c" using assms by (auto simp: exponent_text_def)
  have "c \<in> number_chars" using lower_is_e [OF s(2)] by (auto simp: number_chars_def)
  moreover have "set sg \<subseteq> number_chars" "set ds \<subseteq> number_chars" using s(3,4) by (auto simp: number_chars_def)
  ultimately show ?thesis using s(1) by simp
qed simp

lemma literal_shape:
  assumes ip: "\<forall>c \<in> set ip. is_digit c" "ip \<noteq> []" "ip = ''0'' \<or> hd ip \<noteq> CHR ''0''"
    and fp: "fraction_text fp" and ep: "exponent_text ep"
  shows "literal (ip @ fp @ ep)"
proof -
  have "set ip \<subseteq> number_chars" "set fp \<subseteq> number_chars"
    using ip(1) fp by (auto simp: number_chars_def fraction_text_def)
  moreover have "set ep \<subseteq> number_chars" by (rule exponent_chars [OF ep])
  moreover have "is_digit (hd (ip @ fp @ ep))" using ip by (cases ip) auto
  ultimately show ?thesis
    using ip(2) number_shape [OF ip fp ep, of "[]"] number_shape [OF ip fp ep, of "''-''"] by (simp add: literal_def)
qed

lemma literal_f:
  assumes "digits_of_float s m e ds q v"
  shows "literal (digits_f ds q)"
proof -
  let ?n = "nat q"
  have digits: "\<forall>c \<in> set ds. is_digit c" and ds: "ds \<noteq> []" "hd ds \<noteq> CHR ''0''"
    using assms by (simp_all add: digits_of_float_def)
  consider (whole) "0 < q" "int (length ds) \<le> q" | (split) "0 < q" "q < int (length ds)" | (small) "q \<le> 0" by linarith
  then show ?thesis
  proof cases
    case whole
    then have t: "digits_f ds q = (ds @ replicate (?n - length ds) CHR ''0'') @ [] @ []" by (simp add: digits_f_def Let_def)
    show ?thesis unfolding t using digits ds by (intro literal_shape) (auto simp: digit_zero fraction_text_def exponent_text_def)
  next
    case split
    then have n: "0 < ?n" "?n < length ds" by simp_all
    then have t: "digits_f ds q = take ?n ds @ (CHR ''.'' # drop ?n ds) @ []"
      using split by (simp add: digits_f_def Let_def)
    show ?thesis unfolding t using digits ds n
      by (intro literal_shape) (auto simp: fraction_text_def exponent_text_def dest: in_set_takeD in_set_dropD)
  next
    case small
    then have t: "digits_f ds q = ''0'' @ (CHR ''.'' # replicate (nat (- q)) CHR ''0'' @ ds) @ []"
      using ds by (simp add: digits_f_def Let_def)
    show ?thesis unfolding t using digits ds
      by (intro literal_shape) (auto simp: digit_zero fraction_text_def exponent_text_def)
  qed
qed

lemma literal_e:
  assumes "digits_of_float s m e ds q v"
  shows "literal (digits_e w ds q)"
proof -
  have digits: "\<forall>c \<in> set ds. is_digit c" and ds: "ds \<noteq> []" "hd ds \<noteq> CHR ''0''"
    using assms by (simp_all add: digits_of_float_def)
  then obtain a as where a: "ds = a # as" by (cases ds) auto
  let ?ep = "CHR ''e'' # (if q - 1 < 0 then CHR ''-'' else CHR ''+'') # pad_left w (show_nat \<bar>q - 1\<bar>)"
  have t: "digits_e w ds q = [a] @ (if as = [] then [] else CHR ''.'' # as) @ ?ep"
    using a by (cases as) (simp_all add: digits_e_def Let_def)
  have "\<forall>c \<in> set (pad_left w (show_nat \<bar>q - 1\<bar>)). is_digit c" by (rule pad_left_digits) (rule show_nat_digits)
  moreover have "pad_left w (show_nat \<bar>q - 1\<bar>) \<noteq> []" by (simp add: pad_left_def)
  ultimately have "exponent_text ?ep" using lower_e unfolding exponent_text_def
    by (intro disjI2 exI [of _ "CHR ''e''"] exI [of _ "if q - 1 < 0 then ''-'' else ''+''"]
      exI [of _ "pad_left w (show_nat \<bar>q - 1\<bar>)"]) auto
  then show ?thesis unfolding t using digits ds a by (intro literal_shape) (auto simp: fraction_text_def)
qed

lemma parse_signed_literal:
  assumes "literal t"
  shows "parse_float ((if s then ''-'' else []) @ t) = read_plain s t" "number_ok ((if s then ''-'' else []) @ t)"
proof -
  have "set ((if s then ''-'' else []) @ t) \<subseteq> number_chars" using assms by (auto simp: literal_def number_chars_def)
  moreover have "strip_sign ((if s then ''-'' else []) @ t) = (s, t)"
    using assms strip_sign_digits [of t] by (cases s) (simp_all add: literal_def strip_sign_def [of "_ # _"])
  ultimately show "parse_float ((if s then ''-'' else []) @ t) = read_plain s t" by (simp add: parse_float_plain)
  show "number_ok ((if s then ''-'' else []) @ t)" using assms by (simp add: literal_def)
qed

theorem float_roundtrip:
  assumes "canonical_float m e"
  shows "\<exists>t. format_json (FFin s m e) = Some t \<and> number_ok t \<and> parse_float t = Inr (FFin s m e)"
proof (cases "m = 0")
  case True
  have "literal ''0''" using literal_shape [of "''0''" "[]" "[]"] by (simp add: digit_zero fraction_text_def exponent_text_def)
  moreover have "read_plain s ''0'' = Inr (FFin s 0 (- 1074))"
    by (simp add: read_plain_def digit_zero float_result_def round_float_def)
  moreover have "format_json (FFin s m e) = Some ((if s then ''-'' else []) @ ''0'')"
    using True by (simp add: shortest_digits_def digits_f_def)
  ultimately show ?thesis using parse_signed_literal [of "''0''" s] True assms by (simp add: canonical_float_def)
next
  case False
  then have m: "0 < m" using assms by (simp add: canonical_float_def)
  obtain ds q where sd: "shortest_digits s m e = (ds, q)" by (cases "shortest_digits s m e")
  then obtain v where d: "digits_of_float s m e ds q v" using shortest_digits_back [OF assms m] by blast
  define t where "t = (if ds \<noteq> [] \<and> (q - 1 < - 6 \<or> 21 \<le> q - 1) then digits_e 1 ds q else digits_f ds q)"
  have "literal t" "read_plain s t = Inr (FFin s m e)"
    using literal_e [OF d] literal_f [OF d] read_digits_e [OF d] read_digits_f [OF d] by (simp_all add: t_def)
  moreover have "format_json (FFin s m e) = Some ((if s then ''-'' else []) @ t)" by (simp add: sd t_def)
  ultimately show ?thesis using parse_signed_literal [of t s] by simp
qed

end
