(* ===== verification/Json_Decoded.thy ===== *)
theory Json_Decoded
  imports Json_Codec Float_Text
begin

text \<open>
  What the reader of JSON gives, whatever bytes it is given: trees that can be printed and read again,
  strings that are UTF-8, and values that survive \<open>json.Marshal\<close> and \<open>json.Unmarshal\<close>.
\<close>

section \<open>Strings are UTF-8\<close>

inductive escaped :: "string \<Rightarrow> bool" where
  esc_end: "escaped []"
| esc_plain: "c \<noteq> dquote \<Longrightarrow> c \<noteq> backslash \<Longrightarrow> 32 \<le> byte c \<Longrightarrow> escaped s \<Longrightarrow> escaped (c # s)"
| esc_short: "e \<noteq> CHR ''u'' \<Longrightarrow> e = dquote \<or> e = backslash \<or> e \<in> set ''/bfnrt'' \<Longrightarrow> escaped s \<Longrightarrow> escaped (backslash # e # s)"
| esc_u: "hex_value a \<noteq> None \<Longrightarrow> hex_value b \<noteq> None \<Longrightarrow> hex_value d \<noteq> None \<Longrightarrow> hex_value f \<noteq> None \<Longrightarrow>
    escaped s \<Longrightarrow> escaped (backslash # CHR ''u'' # a # b # d # f # s)"

inductive_cases escaped_cons: "escaped (c # s)"
inductive_cases escaped_escape: "escaped (backslash # s)"

lemma special_chars [simp]: "dquote \<noteq> backslash" "backslash \<noteq> dquote" "dquote \<noteq> CHR ''u''" "backslash \<noteq> CHR ''u''"
  "CHR ''u'' \<noteq> dquote" "CHR ''u'' \<noteq> backslash"
  by (simp_all add: dquote_def backslash_def)

lemma scan_escaped: "scan_string s = Some (raw, rest) \<Longrightarrow> escaped raw"
proof (induction s arbitrary: raw rest rule: length_induct)
  case (1 s)
  have IH: "escaped raw'" if "scan_string x = Some (raw', rest)" "length x < length s" for x raw'
    using 1 that by blast
  obtain c cs where s: "s = c # cs" using 1(2) by (cases s) auto
  show ?case
  proof (cases "c = backslash")
    case True
    then obtain e es where cs: "cs = e # es" using 1(2) s by (cases cs) (auto simp: dquote_def backslash_def)
    show ?thesis
    proof (cases "e = CHR ''u''")
      case u: True
      then obtain a b d f gs raw' where "es = a # b # d # f # gs" "hex_value a \<noteq> None" "hex_value b \<noteq> None"
        "hex_value d \<noteq> None" "hex_value f \<noteq> None" "scan_string gs = Some (raw', rest)" "raw = c # e # a # b # d # f # raw'"
        using 1(2) s cs True by (auto split: if_splits list.splits option.splits)
      then show ?thesis using IH [of gs raw'] True u s cs by (auto intro: escaped.intros)
    next
      case False
      then obtain raw' where "e = dquote \<or> e = backslash \<or> e \<in> set ''/bfnrt''" "scan_string es = Some (raw', rest)" "raw = c # e # raw'"
        using 1(2) s cs True by (auto split: if_splits option.splits)
      then show ?thesis using IH [of es raw'] True False s cs esc_short by auto
    qed
  next
    case False
    show ?thesis
    proof (cases "c = dquote")
      case True
      then show ?thesis using 1(2) s by (auto intro: escaped.intros)
    next
      case d: False
      then obtain raw' where "scan_string cs = Some (raw', rest)" "raw = c # raw'" "32 \<le> byte c"
        using 1(2) s False by (auto split: if_splits option.splits)
      then show ?thesis using IH [of cs raw'] False d s by (auto intro: escaped.intros)
    qed
  qed
qed

lemma escaped_raw_ok: "escaped s \<Longrightarrow> raw_ok s"
  unfolding raw_ok_def
proof (induction rule: escaped.induct)
  case (esc_short e s)
  have "scan_string ((backslash # e # s) @ [dquote]) =
      (case scan_string (s @ [dquote]) of None \<Rightarrow> None | Some (raw, rest) \<Rightarrow> Some (backslash # e # raw, rest))"
    unfolding append_Cons scan_string.simps(2) list.case if_P [OF esc_short(2)] by simp
  then show ?case using esc_short by simp
next
  case (esc_u a b d f s)
  then show ?case by simp
qed simp_all

lemma raw_ok_escaped: "raw_ok s \<Longrightarrow> escaped s"
  unfolding raw_ok_def by (rule scan_escaped)

lemma escaped_drop_high:
  assumes "escaped s" and "\<forall>c \<in> set (take k s). 128 \<le> byte c"
  shows "escaped (drop k s)"
  using assms
proof (induction k arbitrary: s)
  case (Suc k)
  show ?case
  proof (cases s)
    case (Cons c cs)
    have "c \<noteq> backslash" using Suc.prems(2) Cons by (auto simp: backslash_def byte_def)
    then have "escaped cs" using Suc.prems(1) Cons by (auto elim: escaped_cons)
    then show ?thesis using Suc Cons by simp
  qed (simp add: esc_end)
qed simp

lemma byte_char_of [simp]: "n < 256 \<Longrightarrow> byte (char_of n) = n"
  by (simp add: byte_def)

lemma utf8_encode_len:
  assumes "n < 1114112" and "n < 55296 \<or> 57344 \<le> n"
  shows "utf8_len (utf8_encode n) = length (utf8_encode n)" "utf8_encode n \<noteq> []"
proof -
  have d: "n div 64 div 64 = n div 4096" "n div 4096 div 64 = n div 262144" by (simp_all add: div_mult2_eq [symmetric])
  have m: "n div 64 = 64 * (n div 4096) + n div 64 mod 64" "n div 4096 = 64 * (n div 262144) + n div 4096 mod 64"
    using mult_div_mod_eq [of 64 "n div 64"] mult_div_mod_eq [of 64 "n div 4096"] d by simp_all
  consider "n < 128" | "128 \<le> n" "n < 2048" | "2048 \<le> n" "n < 65536" | "65536 \<le> n" by linarith
  then show "utf8_len (utf8_encode n) = length (utf8_encode n)"
  proof cases
    case 1
    then show ?thesis by (simp add: utf8_encode_def utf8_len_class utf8_class_def)
  next
    case 2
    then have "2 \<le> n div 64" "n div 64 < 32" by linarith+
    then show ?thesis using 2 by (simp add: utf8_encode_def utf8_len_class utf8_class_def byte_at_def)
  next
    case 3
    then have "n div 4096 < 16" "32 \<le> n div 64" "n < 55296 \<Longrightarrow> n div 64 < 864" "57344 \<le> n \<Longrightarrow> 14 \<le> n div 4096" by linarith+
    then have "n div 4096 = 0 \<Longrightarrow> 32 \<le> n div 64 mod 64" "n div 4096 = 13 \<Longrightarrow> n div 64 mod 64 < 32"
      using m(1) assms(2) by linarith+
    then show ?thesis using 3 \<open>n div 4096 < 16\<close>
      by (auto simp: utf8_encode_def utf8_len_class utf8_class_def lead3_def byte_at_def)
  next
    case 4
    then have "n div 262144 \<le> 4" "16 \<le> n div 4096" "n div 4096 < 272" using assms(1) by linarith+
    then have "n div 262144 = 0 \<Longrightarrow> 16 \<le> n div 4096 mod 64" "n div 262144 = 4 \<Longrightarrow> n div 4096 mod 64 < 16"
      using m(2) by linarith+
    then show ?thesis using 4 \<open>n div 262144 \<le> 4\<close>
      by (auto simp: utf8_encode_def utf8_len_class utf8_class_def lead3_def lead4_def byte_at_def)
  qed
  show "utf8_encode n \<noteq> []" by (simp add: utf8_encode_def)
qed

lemma utf8_fuel_enough: "utf8_fuel f s \<Longrightarrow> length s \<le> g \<Longrightarrow> utf8_fuel g s"
proof (induction f s arbitrary: g rule: utf8_fuel.induct)
  case (3 f c cs)
  then obtain h where g: "g = Suc h" by (cases g) auto
  obtain k where k: "utf8_len (c # cs) = Suc k" using 3(2) by (cases "utf8_len (c # cs)") auto
  have "length (drop (utf8_len (c # cs)) (c # cs)) \<le> h" using 3(3) g k by simp
  then show ?case using 3(1,2) g by simp
qed simp_all

lemma utf8_valid_sequence:
  assumes x: "utf8_len x = length x" "x \<noteq> []" and t: "utf8_valid t"
  shows "utf8_valid (x @ t)"
proof -
  obtain a s where s: "x = a # s" using x(2) by (cases x) auto
  have l: "utf8_len (a # s @ t) = Suc (length s)"
    using utf8_len_local [of a s "length s" t] x(1) s by simp
  have "utf8_fuel (length (s @ t)) t" by (rule utf8_fuel_enough [OF t [unfolded utf8_valid_def]]) simp
  then show ?thesis using l s by (simp add: utf8_valid_def)
qed

lemma utf8_valid_Nil [simp]: "utf8_valid []"
  by (simp add: utf8_valid_def)

lemma utf8_valid_ascii: "byte c < 128 \<Longrightarrow> utf8_valid t \<Longrightarrow> utf8_valid (c # t)"
  using utf8_valid_sequence [of "[c]" t] utf8_len_ascii [of c "[]"] by simp

lemma utf8_valid_encode:
  "n < 1114112 \<Longrightarrow> n < 55296 \<or> 57344 \<le> n \<Longrightarrow> utf8_valid t \<Longrightarrow> utf8_valid (utf8_encode n @ t)"
  using utf8_valid_sequence utf8_encode_len by blast

lemma hex_value_range: "hex_value c = Some v \<Longrightarrow> 0 \<le> v \<and> v < 16"
  using digit_value_range [of c] by (auto simp: hex_value_def Let_def split: option.splits if_splits)

lemma hex4_range:
  assumes "hex4 s = Some n"
  shows "n < 65536"
proof -
  obtain a b c d r w x y z where "s = a # b # c # d # r" "hex_value a = Some w" "hex_value b = Some x"
    "hex_value c = Some y" "hex_value d = Some z" "n = nat (4096 * w + 256 * x + 16 * y + z)"
    using assms by (auto simp: hex4_def split: list.splits option.splits)
  moreover from this have "4096 * w + 256 * x + 16 * y + z < 65536"
    using hex_value_range [of a w] hex_value_range [of b x] hex_value_range [of c y] hex_value_range [of d z] by simp
  ultimately show ?thesis by (simp add: nat_less_iff)
qed

lemma escaped_low_surrogate:
  assumes "escaped s" and l: "low_surrogate s = Some l"
  shows "56320 \<le> l \<and> l < 57344 \<and> escaped (drop 6 s)"
proof -
  have t: "take 2 s = [backslash, CHR ''u'']" and "56320 \<le> l \<and> l < 57344"
    using l by (auto simp: low_surrogate_def split: if_splits option.splits)
  moreover obtain r where "s = backslash # CHR ''u'' # r" using t by (cases s; cases "tl s") auto
  ultimately show ?thesis using assms(1) by (auto elim!: escaped_escape)
qed

lemma short_ascii: "e = dquote \<or> e = backslash \<or> e \<in> set ''/bfnrt'' \<Longrightarrow> byte (unescape_char e) < 128"
proof -
  have "list_all (\<lambda>e. byte (unescape_char e) < 128) (dquote # backslash # ''/bfnrt'')" by code_simp
  then show "e = dquote \<or> e = backslash \<or> e \<in> set ''/bfnrt'' \<Longrightarrow> byte (unescape_char e) < 128"
    unfolding list_all_iff by auto
qed

theorem unquote_utf8: "escaped s \<Longrightarrow> utf8_valid (unquote_fuel f s)"
proof (induction f arbitrary: s)
  case (Suc f)
  note IH = Suc.IH
  show ?case
  proof (cases s)
    case (Cons c cs)
    show ?thesis
    proof (cases "c = backslash")
      case True
      consider (1) e t where "cs = e # t" "e \<noteq> CHR ''u''" "e = dquote \<or> e = backslash \<or> e \<in> set ''/bfnrt''" "escaped t"
        | (2) a b d g t where "cs = CHR ''u'' # a # b # d # g # t" "hex_value a \<noteq> None" "hex_value b \<noteq> None"
            "hex_value d \<noteq> None" "hex_value g \<noteq> None" "escaped t"
        using Suc.prems [unfolded Cons True] by (rule escaped_escape) auto
      then show ?thesis
      proof cases
        case 1
        have "utf8_valid (unescape_char e # unquote_fuel f t)"
          by (rule utf8_valid_ascii [OF short_ascii [OF 1(3)] IH [OF 1(4)]])
        then show ?thesis using 1 Cons True by simp
      next
        case 2
        obtain n where n: "hex4 (a # b # d # g # t) = Some n" using 2 by (auto simp: hex4_def)
        note r = hex4_range [OF n]
        have repl: "utf8_valid (replacement @ u)" if "utf8_valid u" for u
          unfolding replacement_def by (rule utf8_valid_encode) (use that in simp_all)
        show ?thesis
        proof (cases "55296 \<le> n \<and> n < 56320")
          case pair: True
          show ?thesis
          proof (cases "low_surrogate t")
            case None
            then show ?thesis using 2 Cons True n pair repl [OF IH [of t]] by simp
          next
            case (Some l)
            note l = escaped_low_surrogate [OF 2(6) Some]
            have "utf8_valid (utf8_encode (65536 + (n - 55296) * 1024 + (l - 56320)) @ unquote_fuel f (drop 6 t))"
              by (rule utf8_valid_encode) (use l pair IH in auto)
            then show ?thesis using 2 Cons True n pair Some by simp
          qed
        next
          case False
          then have "utf8_valid (utf8_encode n @ unquote_fuel f t)" if "n < 56320 \<or> 57344 \<le> n"
            by (intro utf8_valid_encode) (use that r IH 2 in auto)
          then show ?thesis using 2 Cons True n False repl [OF IH [of t]] by auto
        qed
      qed
    next
      case plain: False
      then have e: "escaped cs" using Suc.prems Cons by (auto elim: escaped_cons)
      show ?thesis
      proof (cases "byte c < 128")
        case True
        then show ?thesis using plain Cons utf8_valid_ascii [OF True IH [OF e]] by simp
      next
        case False
        have repl: "utf8_valid (replacement @ unquote_fuel f cs)"
          unfolding replacement_def by (rule utf8_valid_encode) (use IH [OF e] in simp_all)
        show ?thesis
        proof (cases "utf8_len (c # cs)")
          case 0
          then show ?thesis using plain False Cons repl by simp
        next
          case (Suc k)
          have k: "0 < k" using Suc False utf8_len_ascii [of c cs] by (cases k) auto
          have len: "k \<le> length cs" using utf8_len_tail [OF Suc] by simp
          have "\<forall>x \<in> set (take (Suc k) s). 128 \<le> byte x" using utf8_len_high [OF Suc k] Cons by blast
          then have d: "escaped (drop (Suc k) s)" using Suc.prems by (rule escaped_drop_high [rotated])
          have "utf8_len (take (Suc k) s) = Suc k" using utf8_len_local [OF Suc, of "[]"] Cons by simp
          then have "utf8_valid (take (Suc k) s @ unquote_fuel f (drop (Suc k) s))"
            using len Cons by (intro utf8_valid_sequence IH [OF d]) simp_all
          then show ?thesis using plain False Cons Suc by (simp add: Let_def)
        qed
      qed
    qed
  qed simp
qed simp

section \<open>Numbers\<close>

lemma scan_digits_all: "scan_digits s = (ds, rest) \<Longrightarrow> \<forall>c \<in> set ds. is_digit c"
  unfolding scan_digits_def by (auto dest: set_takeWhileD)

lemma scan_frac_text: "scan_frac s = Some (fp, rest) \<Longrightarrow> fraction_text fp"
  by (cases s) (auto simp: scan_frac_def fraction_text_def Let_def dest: scan_digits_all split: if_splits prod.splits)

lemma scan_exp_text:
  assumes "scan_exp s = Some (ep, rest)"
  shows "exponent_text ep"
proof (cases s)
  case (Cons c cs)
  let ?sg = "takeWhile (\<lambda>x. x = CHR ''+'' \<or> x = CHR ''-'') (take 1 cs)"
  show ?thesis
  proof (cases "lower c = CHR ''e''")
    case True
    obtain ds r where d: "scan_digits (drop (length ?sg) cs) = (ds, r)" by (cases "scan_digits (drop (length ?sg) cs)")
    then have "ds \<noteq> []" "ep = c # ?sg @ ds" using assms Cons True by (auto simp: scan_exp_def Let_def split: if_splits)
    moreover have "?sg \<in> {[], ''+'', ''-''}" by (cases cs) auto
    ultimately show ?thesis using scan_digits_all [OF d] True unfolding exponent_text_def by blast
  qed (use assms Cons in \<open>auto simp: scan_exp_def exponent_text_def\<close>)
qed (use assms in \<open>auto simp: scan_exp_def exponent_text_def\<close>)

lemma scan_number_shape:
  assumes "scan_number s = Some (n, rest)"
  shows "\<exists>neg ip fp ep. n = neg @ ip @ fp @ ep \<and> (neg = [] \<or> neg = ''-'') \<and> (\<forall>c \<in> set ip. is_digit c) \<and> ip \<noteq> [] \<and>
    (ip = ''0'' \<or> hd ip \<noteq> CHR ''0'') \<and> fraction_text fp \<and> exponent_text ep"
proof -
  let ?neg = "takeWhile (\<lambda>x. x = CHR ''-'') (take 1 s)"
  obtain ds s1 where d: "scan_digits (drop (length ?neg) s) = (ds, s1)" by (cases "scan_digits (drop (length ?neg) s)")
  define ip where "ip = (if take 1 ds = ''0'' then ''0'' else ds)"
  define s2 where "s2 = (if take 1 ds = ''0'' then drop 1 ds @ s1 else s1)"
  obtain fp s3 ep where f: "ip \<noteq> []" "scan_frac s2 = Some (fp, s3)" "scan_exp s3 = Some (ep, rest)"
    "n = ?neg @ ip @ fp @ ep"
    using assms d unfolding scan_number_def ip_def s2_def Let_def
    by (auto split: if_splits option.splits prod.splits)
  have "?neg = [] \<or> ?neg = ''-''" by (cases s) auto
  moreover have "\<forall>c \<in> set ip. is_digit c" using scan_digits_all [OF d] by (auto simp: ip_def digit_zero)
  moreover have "ip = ''0'' \<or> hd ip \<noteq> CHR ''0''" using f(1) by (cases ds) (auto simp: ip_def)
  ultimately show ?thesis using f scan_frac_text [OF f(2)] scan_exp_text [OF f(3)] by metis
qed

lemma scan_number_ok:
  assumes "scan_number s = Some (n, rest)"
  shows "number_ok n \<and> set n \<subseteq> number_chars"
proof -
  obtain neg ip fp ep where n: "n = neg @ ip @ fp @ ep" "neg = [] \<or> neg = ''-''"
    and shape: "\<forall>c \<in> set ip. is_digit c" "ip \<noteq> []" "ip = ''0'' \<or> hd ip \<noteq> CHR ''0''" "fraction_text fp" "exponent_text ep"
    using scan_number_shape [OF assms] by blast
  have "set (ip @ fp @ ep) \<subseteq> number_chars" using literal_shape [OF shape] by (simp add: literal_def)
  then have "set n \<subseteq> number_chars" using n by (auto simp: number_chars_def)
  then show ?thesis using number_shape [OF shape n(2)] n(1) by simp
qed

lemma round_float_cases:
  assumes "0 \<le> n" and "0 < d"
  shows "round_float s n d = FInf s \<or> (\<exists>m e. round_float s n d = FFin s m e \<and> canonical_float m e)"
proof (cases "round_float s n d")
  case FNaN
  then show ?thesis by (simp add: round_float_def Let_def split: if_splits prod.splits)
next
  case (FInf t)
  then show ?thesis by (auto simp: round_float_def Let_def split: if_splits prod.splits)
next
  case (FFin t m e)
  then show ?thesis using round_float_canonical [OF assms FFin] by simp
qed

lemma scan_mantissa_nonneg:
  "0 \<le> acc \<Longrightarrow> (case scan_mantissa hex t acc fr dot digs und of (a, f, d, u, rest) \<Rightarrow> 0 \<le> a)"
proof (induction hex t acc fr dot digs und rule: scan_mantissa.induct)
  case (2 hex c cs acc fr dot digs und)
  have "0 \<le> d" if "(if hex then hex_value c else digit_value c) = Some d" for d
    using that hex_value_range [of c d] digit_value_range [of c d] by (cases hex) simp_all
  then show ?case using 2 by (auto split: option.splits)
qed simp

lemma float_result_canonical:
  assumes "0 \<le> a" and "float_result False s a x = Inr y"
  shows "\<exists>m e. y = FFin s m e \<and> canonical_float m e"
proof -
  have "round_float s (a * ten_pow x) (ten_pow (- x)) = FInf s \<or>
      (\<exists>m e. round_float s (a * ten_pow x) (ten_pow (- x)) = FFin s m e \<and> canonical_float m e)"
    by (rule round_float_cases) (use assms(1) in \<open>simp_all add: less_imp_le\<close>)
  then show ?thesis using assms(2) by (auto simp: float_result_def)
qed

lemma read_plain_canonical:
  assumes "read_plain s t = Inr y"
  shows "\<exists>m e. y = FFin s m e \<and> canonical_float m e"
proof -
  obtain a f d u rest where m: "scan_mantissa False t 0 0 False False False = (a, f, d, u, rest)" by (metis prod_cases5)
  have "0 \<le> a" using scan_mantissa_nonneg [of 0 False t 0 False False False] m by simp
  moreover have "\<exists>x. float_result False s a x = Inr y"
    using assms m by (auto simp: read_plain_def Let_def split: if_splits list.splits prod.splits)
  ultimately show ?thesis using float_result_canonical by blast
qed

text \<open>Every number that JSON can write is read as a float whose own text reads back.\<close>

theorem number_decodes:
  assumes "set s \<subseteq> number_chars" and "parse_float s = Inr y"
  shows "number_reads_back y"
proof -
  obtain neg t where t: "strip_sign s = (neg, t)" by (cases "strip_sign s")
  then have "read_plain neg t = Inr y" using assms parse_float_plain by simp
  then obtain m e where "y = FFin neg m e" "canonical_float m e" using read_plain_canonical by blast
  then show ?thesis using float_roundtrip [of m e neg] by (auto simp: number_reads_back_def)
qed

section \<open>Trees\<close>

text \<open>What the reader gives can be printed and read again, and is nested no deeper than it allows.\<close>

lemma wf_number: "number_ok s \<Longrightarrow> set s \<subseteq> number_chars"
  using scan_number_ok unfolding number_ok_def by blast

lemma parse_sound:
  "parse_value f d s = Some (j, rest) \<Longrightarrow> d \<le> 10000 \<Longrightarrow> wf_json j \<and> d + nest j \<le> 10000"
  "parse_elems f d s = Some (js, rest) \<Longrightarrow> d \<le> 10000 \<Longrightarrow> \<forall>j \<in> set js. wf_json j \<and> d + nest j \<le> 10000"
  "parse_members f d s = Some (kvs, rest) \<Longrightarrow> d \<le> 10000 \<Longrightarrow>
    \<forall>(k, j) \<in> set kvs. raw_ok k \<and> wf_json j \<and> d + nest j \<le> 10000"
proof (induction f d s and f d s and f d s arbitrary: j rest and js rest and kvs rest
    rule: parse_value_parse_elems_parse_members.induct)
  case (2 f d s)
  obtain c cs where s: "skip_space s = c # cs" using 2(3) by (cases "skip_space s") auto
  have raw: "raw_ok raw" if "scan_string t = Some (raw, r)" for t raw r
    using scan_escaped [OF that] by (rule escaped_raw_ok)
  have le: "foldr max xs 0 + Suc d \<le> 10000" if "\<forall>x \<in> set xs. Suc d + x \<le> 10000" "Suc d \<le> 10000" for xs
    using foldr_max_le [of xs "10000 - Suc d"] that by fastforce
  consider (string) "c = dquote" | (array) "c = CHR ''[''" | (object) "c = CHR ''{''"
    | (other) "c \<noteq> dquote" "c \<noteq> CHR ''[''" "c \<noteq> CHR ''{''" by blast
  then show ?case
  proof cases
    case string
    then show ?thesis using 2(3,4) s raw by (auto split: option.splits)
  next
    case array
    then have "c \<noteq> dquote" by (simp add: dquote_def)
    with array have d: "Suc d \<le> 10000" and v: "(case skip_space cs of [] \<Rightarrow> None
        | d' # ds \<Rightarrow> if d' = CHR '']'' then Some (JArr [], ds)
          else (case parse_elems f (Suc d) (d' # ds) of None \<Rightarrow> None | Some (js, rest) \<Rightarrow> Some (JArr js, rest))) = Some (j, rest)"
      using 2(3) s by (auto split: if_splits)
    obtain x xs where x: "skip_space cs = x # xs" using v by (cases "skip_space cs") auto
    show ?thesis
    proof (cases "x = CHR '']''")
      case True
      then show ?thesis using v x d by auto
    next
      case False
      then obtain js where p: "parse_elems f (Suc d) (x # xs) = Some (js, rest)" "j = JArr js"
        using v x by (auto split: option.splits)
      have "\<forall>j \<in> set js. wf_json j \<and> Suc d + nest j \<le> 10000"
        using 2(1) [OF s _ array _ x False p(1) d] d \<open>c \<noteq> dquote\<close> by auto
      then show ?thesis using p(2) le [of "map nest js"] d by (auto simp: list_all_iff)
    qed
  next
    case object
    then have "c \<noteq> dquote" "c \<noteq> CHR ''[''" by (simp_all add: dquote_def)
    with object have d: "Suc d \<le> 10000" and v: "(case skip_space cs of [] \<Rightarrow> None
        | d' # ds \<Rightarrow> if d' = CHR ''}'' then Some (JObj [], ds)
          else (case parse_members f (Suc d) (d' # ds) of None \<Rightarrow> None | Some (kvs, rest) \<Rightarrow> Some (JObj kvs, rest))) = Some (j, rest)"
      using 2(3) s by (auto split: if_splits)
    obtain x xs where x: "skip_space cs = x # xs" using v by (cases "skip_space cs") auto
    show ?thesis
    proof (cases "x = CHR ''}''")
      case True
      then show ?thesis using v x d by auto
    next
      case False
      then obtain kvs where p: "parse_members f (Suc d) (x # xs) = Some (kvs, rest)" "j = JObj kvs"
        using v x by (auto split: option.splits)
      have "\<forall>(k, j) \<in> set kvs. raw_ok k \<and> wf_json j \<and> Suc d + nest j \<le> 10000"
        using 2(2) [OF s _ _ object _ x False p(1) d] d \<open>c \<noteq> dquote\<close> \<open>c \<noteq> CHR ''[''\<close> by auto
      then show ?thesis using p(2) le [of "map (\<lambda>(k, j). nest j) kvs"] d by (fastforce simp: list_all_iff)
    qed
  next
    case other
    then show ?thesis using 2(3,4) s scan_number_ok
      by (auto split: if_splits option.splits)
  qed
next
  case (4 f d s)
  obtain j s1 where v: "parse_value f d s = Some (j, s1)" using 4(3) by (auto split: option.splits)
  have j: "wf_json j \<and> d + nest j \<le> 10000" by (rule 4(1) [OF v 4(4)])
  obtain c cs where c: "skip_space s1 = c # cs" using 4(3) v by (cases "skip_space s1") auto
  show ?case
  proof (cases "c = CHR '']''")
    case True
    then show ?thesis using 4(3) v c j by auto
  next
    case False
    then obtain js' where "c = CHR '',''" "parse_elems f d cs = Some (js', rest)" "js = j # js'"
      using 4(3) v c by (auto split: if_splits option.splits)
    then show ?thesis using 4(2) [OF v refl c False] 4(4) j by auto
  qed
next
  case (6 f d s)
  obtain q qs where q: "skip_space s = q # qs" and qd: "q = dquote" using 6(3) by (cases "skip_space s") (auto split: if_splits)
  obtain k s1 where k: "scan_string qs = Some (k, s1)" using 6(3) q qd by (auto split: option.splits)
  obtain x xs where x: "skip_space s1 = x # xs" and xd: "x = CHR '':''" using 6(3) q qd k
    by (cases "skip_space s1") (auto split: if_splits)
  obtain j s2 where v: "parse_value f d xs = Some (j, s2)" using 6(3) q qd k x xd by (auto split: option.splits)
  have j: "wf_json j \<and> d + nest j \<le> 10000" using 6(1) [OF q _ k refl x _ v 6(4)] qd xd by simp
  have kr: "raw_ok k" using scan_escaped [OF k] by (rule escaped_raw_ok)
  obtain c cs where c: "skip_space s2 = c # cs" using 6(3) q qd k x xd v by (cases "skip_space s2") auto
  show ?case
  proof (cases "c = CHR ''}''")
    case True
    then show ?thesis using 6(3) q qd k x xd v c j kr by auto
  next
    case False
    then obtain kvs' where "c = CHR '',''" "parse_members f d cs = Some (kvs', rest)" "kvs = (k, j) # kvs'"
      using 6(3) q qd k x xd v c by (auto split: if_splits option.splits)
    then show ?thesis using 6(2) [OF q _ k refl x _ v refl c False] 6(4) j kr qd xd by auto
  qed
qed simp_all

theorem parsed_tree: "parse_json s = Some j \<Longrightarrow> wf_json j \<and> nest j \<le> 10000"
  using parse_sound(1) [of "2 * length s + 2" 0 s j] by (auto simp: parse_json_def split: option.splits if_splits)

section \<open>Values\<close>

text \<open>The values of a map, which the loops over the entries keep within a bound.\<close>

definition storable_map :: "nat \<Rightarrow> (string \<times> gval) list \<Rightarrow> bool" where
  "storable_map n m \<longleftrightarrow> distinct (keys m) \<and> (\<forall>(k, x) \<in> set m. utf8_valid k \<and> storable_value x \<and> value_depth x \<le> n)"

lemma upsert_sub: "set (upsert k x m) \<subseteq> insert (k, x) (set m)"
  by (induction k x m rule: upsert.induct) (auto split: if_splits)

lemma storable_map_upsert:
  "storable_map n m \<Longrightarrow> utf8_valid k \<Longrightarrow> storable_value x \<Longrightarrow> value_depth x \<le> n \<Longrightarrow> storable_map n (upsert k x m)"
  using upsert_sub [of k x m] distinct_keys_upsert [of m k x] unfolding storable_map_def by fastforce

lemma storable_map_value:
  "storable_map n m \<Longrightarrow> storable_value (GMap m) \<and> value_depth (GMap m) \<le> Suc n"
  using foldr_max_le [of "map (\<lambda>(k, x). value_depth x) m" n] by (auto simp: storable_map_def list_all_iff)

lemma unquoted_utf8: "raw_ok s \<Longrightarrow> utf8_valid (unquote s)"
  unfolding unquote_def by (rule unquote_utf8) (rule raw_ok_escaped)

lemma decode_sound:
  "decode_any j = Some x \<Longrightarrow> wf_json j \<Longrightarrow> storable_value x \<and> value_depth x \<le> nest j"
  "decode_list js = Some xs \<Longrightarrow> list_all wf_json js \<Longrightarrow> (\<And>j. j \<in> set js \<Longrightarrow> nest j \<le> n) \<Longrightarrow>
    \<forall>x \<in> set xs. storable_value x \<and> value_depth x \<le> n"
  "decode_entries kvs m = Some m' \<Longrightarrow> list_all (\<lambda>(k, j). raw_ok k \<and> wf_json j) kvs \<Longrightarrow>
    (\<And>k j. (k, j) \<in> set kvs \<Longrightarrow> nest j \<le> n) \<Longrightarrow> storable_map n m \<Longrightarrow> storable_map n m'"
proof (induction j and js and kvs m arbitrary: x and xs n and m' n rule: decode_any_decode_list_decode_entries.induct)
  case (3 s)
  then obtain y where y: "parse_float s = Inr y" "x = GNum y" by (auto split: sum.splits)
  have "number_reads_back y" by (rule number_decodes [OF wf_number y(1)]) (use 3(2) in simp)
  then show ?case using y(2) by simp
next
  case (4 s)
  then show ?case using unquoted_utf8 by auto
next
  case (5 js)
  then obtain xs where xs: "decode_list js = Some xs" "x = GSlice xs" by auto
  let ?n = "foldr max (map nest js) 0"
  have "nest j \<le> ?n" if "j \<in> set js" for j using that foldr_max_le [of "map nest js" ?n] by auto
  then have "\<forall>x \<in> set xs. storable_value x \<and> value_depth x \<le> ?n"
    using 5(1) [OF xs(1), of ?n] 5(3) by simp
  then show ?case using xs(2) foldr_max_le [of "map value_depth xs" ?n] by (auto simp: list_all_iff)
next
  case (6 kvs)
  then obtain m where m: "decode_entries kvs [] = Some m" "x = GMap m" by auto
  let ?n = "foldr max (map (\<lambda>(k, j). nest j) kvs) 0"
  have "nest j \<le> ?n" if "(k, j) \<in> set kvs" for k j
    using that foldr_max_le [of "map (\<lambda>(k, j). nest j) kvs" ?n] by fastforce
  then have "storable_map ?n m" using 6(1) [OF m(1), of ?n] 6(3) by (simp add: storable_map_def)
  then show ?case using m(2) storable_map_value by simp
next
  case (8 j js)
  obtain y ys where y: "decode_any j = Some y" "decode_list js = Some ys" "xs = y # ys" using 8(3) by (auto split: option.splits)
  have "storable_value y \<and> value_depth y \<le> nest j" using 8(1) [OF y(1)] 8(4) by simp
  moreover have "\<forall>x \<in> set ys. storable_value x \<and> value_depth x \<le> n" using 8(2) [OF y(2), of n] 8(4,5) by simp
  ultimately show ?case using y(3) 8(5) [of j] by auto
next
  case (10 k j kvs m)
  obtain y where y: "decode_any j = Some y" "decode_entries kvs (upsert (unquote k) y m) = Some m'"
    using 10(3) by (auto split: option.splits)
  have v: "storable_value y \<and> value_depth y \<le> nest j" using 10(1) [OF y(1)] 10(4) by simp
  have k: "utf8_valid (unquote k)" using 10(4) unquoted_utf8 by simp
  have "value_depth y \<le> n" using v 10(5) [of k j] by simp
  then have "storable_map n (upsert (unquote k) y m)" using storable_map_upsert [OF 10(6) k] v by simp
  moreover have "nest j' \<le> n" if "(k', j') \<in> set kvs" for k' j' using 10(5) [of k' j'] that by simp
  ultimately show ?case using 10(2) [OF y(1) y(2), of n] 10(4) by simp
qed auto

end
