(* ===== verification/Payloads.thy ===== *)
theory Payloads
  imports Json_Decoded Flat_Filters Producers
begin

text \<open>
  What the processor writes as JSON is read back as what was written: the columns of a flat filter
  (\<open>models/flat_filters.go\<close>) and the event inside a dead letter (\<open>models/event.go\<close>), which can be
  sent again to the topic that it came from.
\<close>

section \<open>Columns\<close>

definition utf8_filter_values :: "FlatFilterValues \<Rightarrow> bool" where
  "utf8_filter_values fm =
     (case fm of None \<Rightarrow> True
      | Some m \<Rightarrow> distinct (keys m) \<and> list_all (\<lambda>(k, vs). utf8_valid k \<and> list_all utf8_valid vs) m)"

lemma decode_json_strings: "list_all utf8_valid ss \<Longrightarrow> decode_string_slice (json_strings ss) = Some (Some ss)"
proof -
  have "decode_strings (map json_string ss) = Some ss" if "list_all utf8_valid ss"
    using that by (induction ss) (simp_all add: decode_string_def json_string_def unquote_quote)
  then show "list_all utf8_valid ss \<Longrightarrow> ?thesis" by (simp add: decode_string_slice_def json_strings_def)
qed

lemma wf_json_strings: "wf_json (json_strings ss)" "nest (json_strings ss) = 1"
proof -
  have "foldr max (map (nest \<circ> json_string) ss) 0 = 0" by (induction ss) (simp_all add: json_string_def)
  then show "nest (json_strings ss) = 1" by (simp add: json_strings_def)
qed (simp add: json_strings_def json_string_def list_all_iff raw_ok_quote)

definition filter_entry :: "json \<Rightarrow> string list option" where
  "filter_entry j = map_option (\<lambda>vs. case vs of None \<Rightarrow> [] | Some l \<Rightarrow> l) (decode_string_slice j)"

interpretation filter_entries: entry_decoder decode_filter_entries filter_entry
  by unfold_locales (auto simp: filter_entry_def)

lemma filter_values_text:
  assumes "utf8_filter_values (Some m)"
  shows "unmarshal_filter_values (render (JObj (map (\<lambda>(k, vs). (quote k, json_strings vs)) (by_key m)))) =
    Some (Some (by_key m))"
proof -
  let ?kvs = "map (\<lambda>(k, vs). (quote k, json_strings vs)) (by_key m)"
  have m: "distinct (keys m)" "\<And>k vs. (k, vs) \<in> set m \<Longrightarrow> utf8_valid k \<and> list_all utf8_valid vs"
    using assms by (auto simp: utf8_filter_values_def list_all_iff)
  have "wf_json (JObj ?kvs)" by (auto simp: list_all_iff raw_ok_quote wf_json_strings)
  moreover have "nest (JObj ?kvs) \<le> 10000"
    using foldr_max_le [of "map (\<lambda>(k, j). nest j) ?kvs" 9999] by (auto simp: wf_json_strings)
  ultimately have "parse_json (render (JObj ?kvs)) = Some (JObj ?kvs)" by (rule parse_render)
  moreover have "decode_filter_entries ?kvs [] = Some ([] @ map (\<lambda>(k, vs). (k, vs)) (by_key m))"
    by (rule filter_entries.quoted_entries) (use m in \<open>auto simp: filter_entry_def decode_json_strings\<close>)
  ultimately show ?thesis by (simp add: unmarshal_filter_values_def)
qed

lemma group_keys_text:
  "list_all utf8_valid ss \<Longrightarrow> unmarshal_group_keys (render (json_strings ss)) = Some (Some ss)"
  using parse_render [of "json_strings ss"] wf_json_strings [of ss]
  by (simp add: unmarshal_group_keys_def decode_json_strings)

text \<open>
  C19: the JSONB columns of a flat filter survive the way to the database and back: what \<open>Scan\<close> makes of
  what \<open>Value\<close> made is the same list of keys, and the same map of filter values with its entries in
  the order of the keys (a map of Go has none of its own); \<open>nil\<close> stays \<open>nil\<close>.
\<close>

theorem columns_roundtrip:
  assumes "utf8_filter_values fm" and "list_all utf8_valid (case pgk of None \<Rightarrow> [] | Some ss \<Rightarrow> ss)"
  shows "FlatFilterValues_Scan (FlatFilterValues_Value fm) = Inr (map_option by_key fm) \<and>
    PricingGroupKeys_Scan (PricingGroupKeys_Value pgk) = Inr pgk"
proof
  show "FlatFilterValues_Scan (FlatFilterValues_Value fm) = Inr (map_option by_key fm)"
    using filter_values_text [of "the fm"] assms(1)
    by (cases fm) (simp_all add: FlatFilterValues_Scan_def FlatFilterValues_Value_def scan_column_def by_key_map
        comp_def case_prod_beta)
  show "PricingGroupKeys_Scan (PricingGroupKeys_Value pgk) = Inr pgk"
    using group_keys_text [of "the pgk"] assms(2)
    by (cases pgk) (simp_all add: PricingGroupKeys_Scan_def PricingGroupKeys_Value_def scan_column_def)
qed

theorem columns_roundtrip_witness:
  "FlatFilterValues_Scan (FlatFilterValues_Value (Some [(''scheme'', [''visa'', ''a<b'']), (''country'', [])])) =
    Inr (Some [(''country'', []), (''scheme'', [''visa'', ''a<b''])])"
proof -
  have "utf8_filter_values (Some [(''scheme'', [''visa'', ''a<b'']), (''country'', [])])" by code_simp
  from columns_roundtrip [OF this, of None]
  have "FlatFilterValues_Scan (FlatFilterValues_Value (Some [(''scheme'', [''visa'', ''a<b'']), (''country'', [])])) =
    Inr (map_option by_key (Some [(''scheme'', [''visa'', ''a<b'']), (''country'', [])]))" by simp
  moreover have "by_key [(''scheme'', [''visa'', ''a<b'']), (''country'', [])] =
    [(''country'', []), (''scheme'', [''visa'', ''a<b''])]" by code_simp
  ultimately show ?thesis by (simp only: option.map)
qed

section \<open>Events\<close>

definition event_keys :: "string list" where
  "event_keys = [''organization_id'', ''external_subscription_id'', ''transaction_id'', ''code'', ''properties'',
     ''precise_total_amount_cents'', ''source'', ''timestamp'', ''source_metadata'', ''ingested_at'',
     ''api_post_processed'']"

lemma plain_keys: "k \<in> set event_keys \<Longrightarrow> quote k = k \<and> unquote k = k"
proof -
  have "list_all (\<lambda>k. quote k = k \<and> unquote k = k) event_keys" by code_simp
  then show "k \<in> set event_keys \<Longrightarrow> ?thesis" by (simp add: list_all_iff)
qed

lemma names_keys: "k \<in> set event_keys \<Longrightarrow> names k l \<longleftrightarrow> k = l"
proof -
  have "list_all (\<lambda>k. fold_fuel (length k) k = k) event_keys" by code_simp
  then show "k \<in> set event_keys \<Longrightarrow> ?thesis" by (auto simp: list_all_iff names_def)
qed

lemma in_event_keys [simp]:
  "''organization_id'' \<in> set event_keys" "''external_subscription_id'' \<in> set event_keys"
  "''transaction_id'' \<in> set event_keys" "''code'' \<in> set event_keys" "''properties'' \<in> set event_keys"
  "''precise_total_amount_cents'' \<in> set event_keys" "''source'' \<in> set event_keys"
  "''timestamp'' \<in> set event_keys" "''source_metadata'' \<in> set event_keys"
  "''ingested_at'' \<in> set event_keys" "''api_post_processed'' \<in> set event_keys"
  by (simp_all add: event_keys_def)

lemma keys_plain [simp]:
  "quote ''organization_id'' = ''organization_id''" "unquote ''organization_id'' = ''organization_id''"
  "quote ''external_subscription_id'' = ''external_subscription_id''"
  "unquote ''external_subscription_id'' = ''external_subscription_id''"
  "quote ''transaction_id'' = ''transaction_id''" "unquote ''transaction_id'' = ''transaction_id''"
  "quote ''code'' = ''code''" "unquote ''code'' = ''code''"
  "quote ''properties'' = ''properties''" "unquote ''properties'' = ''properties''"
  "quote ''precise_total_amount_cents'' = ''precise_total_amount_cents''"
  "unquote ''precise_total_amount_cents'' = ''precise_total_amount_cents''"
  "quote ''source'' = ''source''" "unquote ''source'' = ''source''"
  "quote ''timestamp'' = ''timestamp''" "unquote ''timestamp'' = ''timestamp''"
  "quote ''source_metadata'' = ''source_metadata''" "unquote ''source_metadata'' = ''source_metadata''"
  "quote ''ingested_at'' = ''ingested_at''" "unquote ''ingested_at'' = ''ingested_at''"
  "unquote ''api_post_processed'' = ''api_post_processed''"
  using plain_keys by simp_all

lemma decode_field_keys:
  "decode_field cvt ''organization_id'' j ev =
     map_option (\<lambda>s. ev\<lparr>ev_OrganizationID := s\<rparr>) (decode_string j (ev_OrganizationID ev))"
  "decode_field cvt ''external_subscription_id'' j ev =
     map_option (\<lambda>s. ev\<lparr>ev_ExternalSubscriptionID := s\<rparr>) (decode_string j (ev_ExternalSubscriptionID ev))"
  "decode_field cvt ''transaction_id'' j ev =
     map_option (\<lambda>s. ev\<lparr>ev_TransactionID := s\<rparr>) (decode_string j (ev_TransactionID ev))"
  "decode_field cvt ''code'' j ev = map_option (\<lambda>s. ev\<lparr>ev_Code := s\<rparr>) (decode_string j (ev_Code ev))"
  "decode_field cvt ''properties'' j ev =
     map_option (\<lambda>m. ev\<lparr>ev_Properties := m\<rparr>) (decode_properties j (ev_Properties ev))"
  "decode_field cvt ''precise_total_amount_cents'' j ev =
     map_option (\<lambda>s. ev\<lparr>ev_PreciseTotalAmountCents := s\<rparr>) (decode_string j (ev_PreciseTotalAmountCents ev))"
  "decode_field cvt ''source'' j ev = map_option (\<lambda>s. ev\<lparr>ev_Source := s\<rparr>) (decode_string j (ev_Source ev))"
  "decode_field cvt ''timestamp'' j ev = map_option (\<lambda>x. ev\<lparr>ev_Timestamp := x\<rparr>) (decode_any j)"
  "decode_field cvt ''source_metadata'' j ev =
     map_option (\<lambda>m. ev\<lparr>ev_SourceMetadata := m\<rparr>) (decode_metadata j (ev_SourceMetadata ev))"
  "decode_field cvt ''ingested_at'' j ev =
     map_option (\<lambda>t. ev\<lparr>ev_IngestedAt := t\<rparr>) (CustomTime_UnmarshalJSON cvt (render j) (ev_IngestedAt ev))"
  by (simp_all add: decode_field_def names_keys)

lemma raw_ok_text:
  assumes "dquote \<notin> set x" and "backslash \<notin> set x" and "\<And>c. c \<in> set x \<Longrightarrow> 32 \<le> byte c"
  shows "raw_ok x"
proof -
  have "scans x" using assms
  proof (induction x)
    case (Cons c x)
    have "scans [c]" by (rule scans_plain) (use Cons.prems in auto)
    from scans_append [OF this Cons.IH] Cons.prems show ?case by simp
  qed (rule scans_Nil)
  then show ?thesis by (simp add: scans_def raw_ok_def)
qed

lemma digit_text: "is_digit c \<Longrightarrow> c \<noteq> dquote \<and> c \<noteq> backslash \<and> 32 \<le> byte c"
  using digit_byte [of c] by (auto simp: dquote_def backslash_def byte_def)

lemma raw_ok_time: "raw_ok (format_time t)"
proof (rule raw_ok_text)
  show "dquote \<notin> set (format_time t)" by (rule dquote_not_in_format)
  show "backslash \<notin> set (format_time t)" by (rule not_in_format) (simp_all add: backslash_def digit_value_def)
  fix c assume "c \<in> set (format_time t)"
  then have "is_digit c \<or> c \<in> {CHR ''-'', CHR '':'', CHR ''T''}" using not_in_format [of c t] by blast
  then show "32 \<le> byte c" using digit_text [of c] by (auto simp: byte_def)
qed

text \<open>
  The events that JSON keeps: UTF-8 strings, values that read back and are nested no deeper than the
  reader goes, an ingestion time of four digits.
\<close>

definition storable_event :: "Event \<Rightarrow> bool" where
  "storable_event ev \<longleftrightarrow>
     utf8_valid (ev_OrganizationID ev) \<and> utf8_valid (ev_ExternalSubscriptionID ev) \<and>
     utf8_valid (ev_TransactionID ev) \<and> utf8_valid (ev_Code ev) \<and>
     utf8_valid (ev_PreciseTotalAmountCents ev) \<and> utf8_valid (ev_Source ev) \<and>
     storable_value (case ev_Properties ev of None \<Rightarrow> GNil | Some m \<Rightarrow> GMap m) \<and>
     storable_value (ev_Timestamp ev) \<and> value_depth (ev_Timestamp ev) \<le> 9998 \<and>
     value_depth (case ev_Properties ev of None \<Rightarrow> GNil | Some m \<Rightarrow> GMap m) \<le> 9998 \<and>
     four_digit_year (ev_IngestedAt ev)"

definition canonical_event :: "Event \<Rightarrow> Event" where
  "canonical_event ev =
     ev\<lparr>ev_Properties := map_option (\<lambda>m. by_key (map (\<lambda>(k, x). (k, sorted_value x)) m)) (ev_Properties ev),
        ev_Timestamp := sorted_value (ev_Timestamp ev),
        ev_IngestedAt := (if ev_IngestedAt ev = zero_time then zero_time
                          else ev_IngestedAt ev - ev_IngestedAt ev mod second)\<rparr>"

text \<open>
  Every event that is read from JSON is one of them, when the JSON leaves the two levels that a dead
  letter puts around its values, and the ingestion time has a year of four digits.
\<close>

definition decoded_event :: "nat \<Rightarrow> Event \<Rightarrow> bool" where
  "decoded_event n ev \<longleftrightarrow>
     utf8_valid (ev_OrganizationID ev) \<and> utf8_valid (ev_ExternalSubscriptionID ev) \<and>
     utf8_valid (ev_TransactionID ev) \<and> utf8_valid (ev_Code ev) \<and>
     utf8_valid (ev_PreciseTotalAmountCents ev) \<and> utf8_valid (ev_Source ev) \<and>
     storable_value (ev_Timestamp ev) \<and> value_depth (ev_Timestamp ev) \<le> Suc n \<and>
     (\<forall>m. ev_Properties ev = Some m \<longrightarrow> storable_map n m)"

lemma decode_string_utf8:
  "decode_string j old = Some s \<Longrightarrow> wf_json j \<Longrightarrow> utf8_valid old \<Longrightarrow> utf8_valid s"
  by (cases j) (auto simp: decode_string_def unquoted_utf8)

lemma decode_properties_storable:
  assumes "decode_properties j old = Some ps" and "wf_json j" and "nest j \<le> Suc n"
    and "\<And>m. old = Some m \<Longrightarrow> storable_map n m" and "ps = Some m"
  shows "storable_map n m"
proof -
  obtain kvs where j: "j = JObj kvs" and d: "decode_entries kvs (case old of None \<Rightarrow> [] | Some m \<Rightarrow> m) = Some m"
    using assms(1,5) by (auto simp: decode_properties_def split: json.splits)
  have "storable_map n (case old of None \<Rightarrow> [] | Some m \<Rightarrow> m)"
    using assms(4) by (cases old) (auto simp: storable_map_def)
  moreover have "nest j' \<le> n" if "(k, j') \<in> set kvs" for k j'
    using assms(3) j that foldr_max_le [of "map (\<lambda>(k, j). nest j) kvs" n] by fastforce
  ultimately show ?thesis using decode_sound(3) [OF d] assms(2) j by simp
qed

lemma decode_field_storable:
  assumes "decode_field cvt key j ev = Some ev'" and w: "wf_json j" and n: "nest j \<le> Suc n" and ev: "decoded_event n ev"
  shows "decoded_event n ev'"
proof -
  note str = decode_string_utf8 [OF _ w]
  note ps = decode_properties_storable [OF _ w n]
  have any: "storable_value x \<and> value_depth x \<le> Suc n" if "decode_any j = Some x" for x
    using decode_sound(1) [OF that w] n by simp
  show ?thesis
    using assms(1) ev unfolding decode_field_def
    by (auto simp: decoded_event_def any split: if_splits dest: str intro: ps)
qed

lemma decode_fields_storable:
  "decode_fields cvt kvs ev = Some ev' \<Longrightarrow> list_all (\<lambda>(k, j). wf_json j \<and> nest j \<le> Suc n) kvs \<Longrightarrow> decoded_event n ev \<Longrightarrow>
    decoded_event n ev'"
  by (induction cvt kvs ev rule: decode_fields.induct) (auto split: option.splits dest: decode_field_storable)

lemma decoded_storable: "decoded_event 9997 ev \<Longrightarrow> four_digit_year (ev_IngestedAt ev) \<Longrightarrow> storable_event ev"
  using storable_map_value [of 9997] by (auto simp: decoded_event_def storable_event_def split: option.splits)

lemma unmarshalled_decoded:
  assumes u: "unmarshal_event cvt b = Some ev" and j: "parse_json b = Some j" and n: "nest j \<le> 9999"
  shows "decoded_event 9997 ev"
proof -
  have w: "wf_json j" using parsed_tree [OF j] by simp
  have z: "decoded_event 9997 zero_event" by (simp add: decoded_event_def zero_event_def)
  show ?thesis
  proof (cases j)
    case (JObj kvs)
    have "nest j' \<le> 9998" if "(k, j') \<in> set kvs" for k j'
      using n JObj that foldr_max_le [of "map (\<lambda>(k, j). nest j) kvs" 9998] by fastforce
    then have "list_all (\<lambda>(k, j). wf_json j \<and> nest j \<le> Suc 9997) kvs" using w JObj by (auto simp: list_all_iff)
    then show ?thesis using decode_fields_storable [OF _ _ z] u j JObj by (simp add: unmarshal_event_def)
  qed (use u j z in \<open>simp_all add: unmarshal_event_def\<close>)
qed

lemma properties_read_back:
  assumes "storable_value (case ps of None \<Rightarrow> GNil | Some m \<Rightarrow> GMap m)"
  shows "\<exists>j. json_properties ps = Inr j \<and> wf_json j \<and>
    nest j \<le> value_depth (case ps of None \<Rightarrow> GNil | Some m \<Rightarrow> GMap m) \<and>
    decode_properties j None = Some (map_option (\<lambda>m. by_key (map (\<lambda>(k, x). (k, sorted_value x)) m)) ps)"
proof (cases ps)
  case None
  then show ?thesis by (simp add: json_properties_def decode_properties_def)
next
  case (Some m)
  then obtain j where j: "codes (GMap m) j" using assms value_roundtrip [of "GMap m"] by auto
  then obtain kvs where "j = JObj kvs" by (auto simp: codes_def object_of_def split: sum.splits)
  then show ?thesis using j Some by (auto simp: codes_def json_properties_def decode_properties_def)
qed

lemma metadata_reads_back:
  "decode_metadata (case sm of None \<Rightarrow> JNull | Some m \<Rightarrow> JObj [(''api_post_processed'', JBool (sm_ApiPostProcess m))]) None =
    Some sm"
  by (cases sm) (simp_all add: decode_metadata_def names_keys)

lemma ingested_reads_back:
  assumes "four_digit_year t"
  shows "CustomTime_UnmarshalJSON cvt (render (json_custom_time t)) zero_time =
    Some (if t = zero_time then zero_time else t - t mod second)" "wf_json (json_custom_time t)"
proof -
  have "render (json_custom_time t) = CustomTime_MarshalJSON t"
    by (simp add: json_custom_time_def CustomTime_MarshalJSON_def)
  then show "CustomTime_UnmarshalJSON cvt (render (json_custom_time t)) zero_time =
    Some (if t = zero_time then zero_time else t - t mod second)"
    using custom_time_roundtrip [OF assms] by simp
  show "wf_json (json_custom_time t)" by (simp add: json_custom_time_def raw_ok_time)
qed

lemma string_reads_back: "utf8_valid s \<Longrightarrow> decode_string (json_string s) old = Some s"
  by (simp add: decode_string_def json_string_def unquote_quote)

text \<open>The fields of an event in their order, given the trees of its dynamic values.\<close>

definition event_fields :: "Event \<Rightarrow> json \<Rightarrow> json \<Rightarrow> (string \<times> json) list" where
  "event_fields ev pj tj =
     [(''organization_id'', json_string (ev_OrganizationID ev)),
      (''external_subscription_id'', json_string (ev_ExternalSubscriptionID ev)),
      (''transaction_id'', json_string (ev_TransactionID ev)),
      (''code'', json_string (ev_Code ev)),
      (''properties'', pj),
      (''precise_total_amount_cents'', json_string (ev_PreciseTotalAmountCents ev))] @
     (if ev_Source ev = [] then [] else [(''source'', json_string (ev_Source ev))]) @
     [(''timestamp'', tj),
      (''source_metadata'', case ev_SourceMetadata ev of None \<Rightarrow> JNull
        | Some m \<Rightarrow> JObj [(''api_post_processed'', JBool (sm_ApiPostProcess m))]),
      (''ingested_at'', json_custom_time (ev_IngestedAt ev))]"

lemma json_event_fields:
  assumes "json_properties (ev_Properties ev) = Inr pj" and "marshal_any (ev_Timestamp ev) = Inr tj"
  shows "json_event ev = Inr (JObj (event_fields ev pj tj))"
  using assms by (simp add: json_event_def struct_of_def object_of_def event_fields_def omit_empty_def map_filter_simps)

lemma decode_event_fields:
  assumes ev: "storable_event ev"
    and p: "decode_properties pj None = Some ps" and t: "decode_any tj = Some ts"
  shows "decode_fields cvt (event_fields ev pj tj) zero_event =
    Some (ev\<lparr>ev_Properties := ps, ev_Timestamp := ts, ev_IngestedAt := ev_IngestedAt (canonical_event ev)\<rparr>)"
  using ev p t
  by (simp add: event_fields_def decode_field_keys string_reads_back metadata_reads_back ingested_reads_back
      storable_event_def zero_event_def canonical_event_def)

lemma raw_ok_keys: "k \<in> set event_keys \<Longrightarrow> raw_ok k"
  using plain_keys [of k] raw_ok_quote [of k] by simp

lemma wf_event_fields:
  assumes "storable_event ev" and "wf_json pj" and "wf_json tj"
  shows "wf_json (JObj (event_fields ev pj tj))"
  using assms ingested_reads_back(2)
  by (simp add: event_fields_def raw_ok_keys json_string_def raw_ok_quote storable_event_def split: option.split)

lemma nest_string [simp]: "nest (json_string s) = 0"
  by (simp add: json_string_def)

lemma nest_event_fields:
  "nest pj \<le> n \<Longrightarrow> nest tj \<le> n \<Longrightarrow> 1 \<le> n \<Longrightarrow> nest (JObj (event_fields ev pj tj)) \<le> Suc n"
  by (simp add: event_fields_def json_custom_time_def split: option.split)

lemma event_reads_back:
  assumes "storable_event ev"
  shows "\<exists>kvs. json_event ev = Inr (JObj kvs) \<and> wf_json (JObj kvs) \<and> nest (JObj kvs) \<le> 9999 \<and>
    decode_fields cvt kvs zero_event = Some (canonical_event ev)"
proof -
  obtain pj where p: "json_properties (ev_Properties ev) = Inr pj" "wf_json pj" "nest pj \<le> 9998"
    "decode_properties pj None = Some (ev_Properties (canonical_event ev))"
    using properties_read_back [of "ev_Properties ev"] assms
    by (fastforce simp: storable_event_def canonical_event_def)
  obtain tj where t: "marshal_any (ev_Timestamp ev) = Inr tj" "wf_json tj" "nest tj \<le> 9998"
    "decode_any tj = Some (ev_Timestamp (canonical_event ev))"
    using value_roundtrip [of "ev_Timestamp ev"] assms
    by (fastforce simp: storable_event_def canonical_event_def codes_def)
  have "json_event ev = Inr (JObj (event_fields ev pj tj))" by (rule json_event_fields) (rule p t)+
  moreover have "wf_json (JObj (event_fields ev pj tj))" by (rule wf_event_fields) (rule assms p t)+
  moreover have "nest (JObj (event_fields ev pj tj)) \<le> Suc 9998"
    by (rule nest_event_fields) (use p t in simp_all)
  moreover have "decode_fields cvt (event_fields ev pj tj) zero_event = Some (canonical_event ev)"
    using decode_event_fields [OF assms p(4) t(4)] by (simp add: canonical_event_def)
  ultimately show ?thesis by (intro exI [of _ "event_fields ev pj tj"]) simp
qed

lemma unmarshal_marshalled:
  assumes "wf_json (JObj kvs)" and "nest (JObj kvs) \<le> 10000"
  shows "unmarshal_event cvt (render (JObj kvs)) = decode_fields cvt kvs zero_event"
  using parse_render [OF assms] by (simp add: unmarshal_event_def)

section \<open>Dead letters\<close>

lemma raw_ok_nano: "raw_ok (format_rfc3339_nano t)"
proof (rule raw_ok_text)
  have digits: "is_digit c \<or> c \<in> {CHR ''-'', CHR '':'', CHR ''T'', CHR ''.'', CHR ''Z''}"
    if c: "c \<in> set (format_rfc3339_nano t)" for c
  proof -
    let ?ds = "rev (dropWhile (\<lambda>c. c = CHR ''0'') (rev (pad_left 9 (show_nat (t mod second)))))"
    have "is_digit c" if "c \<in> set ?ds"
      using that set_dropWhileD [of c] pad_left_no [of c] by fastforce
    then show ?thesis using c not_in_format [of c t] by (auto simp: format_rfc3339_nano_def Let_def split: if_splits)
  qed
  show "dquote \<notin> set (format_rfc3339_nano t)"
    using digits [of dquote] digit_text [of dquote] by (auto simp: dquote_def)
  show "backslash \<notin> set (format_rfc3339_nano t)"
    using digits [of backslash] digit_text [of backslash] by (auto simp: backslash_def)
  fix c assume "c \<in> set (format_rfc3339_nano t)"
  then show "32 \<le> byte c" using digits [of c] digit_text [of c] by (auto simp: byte_def)
qed

lemma dead_letter_tree:
  assumes ev: "storable_event ev" and now: "four_digit_year now"
  shows "\<exists>kvs rest. dead_letter now ev r = Some (render (JObj ((''event'', JObj kvs) # rest))) \<and>
    parse_json (render (JObj ((''event'', JObj kvs) # rest))) = Some (JObj ((''event'', JObj kvs) # rest)) \<and>
    unmarshal_event cvt (render (JObj kvs)) = Some (canonical_event ev)"
proof -
  obtain kvs where k: "json_event ev = Inr (JObj kvs)" "wf_json (JObj kvs)" "nest (JObj kvs) \<le> 9999"
    "decode_fields cvt kvs zero_event = Some (canonical_event ev)"
    using event_reads_back [OF ev] by blast
  let ?rest = "[(''initial_error_message'', json_string (ErrorMsg r)), (''error_message'', json_string (ErrorMessage r)),
    (''error_code'', json_string (ErrorCode r)), (''failed_at'', JStr (format_rfc3339_nano now))]"
  let ?j = "JObj ((''event'', JObj kvs) # ?rest)"
  have q: "list_all (\<lambda>k. quote k = k) [''event'', ''initial_error_message'', ''error_message'', ''error_code'', ''failed_at'']"
    by code_simp
  then have o: "list_all raw_ok [''event'', ''initial_error_message'', ''error_message'', ''error_code'', ''failed_at'']"
    unfolding list_all_iff using raw_ok_quote by metis
  have t: "marshal_time now = Some (format_rfc3339_nano now)"
    using now by (simp add: marshal_time_def four_digit_year_def split: prod.splits)
  have "json_failed (failed_event now ev r) = Inr ?j"
    using q k(1) t by (simp add: json_failed_def failed_event_def struct_of_def object_of_def json_opt_time_def map_filter_simps)
  then have "dead_letter now ev r = Some (render ?j)" by (simp add: dead_letter_def marshal_failed_def)
  moreover have "parse_json (render ?j) = Some ?j"
  proof (rule parse_render)
    show "wf_json ?j" using o k(2) by (simp add: json_string_def raw_ok_quote raw_ok_nano)
    show "nest ?j \<le> 10000" using k(3) by simp
  qed
  moreover have "unmarshal_event cvt (render (JObj kvs)) = Some (canonical_event ev)"
    using unmarshal_marshalled [OF k(2)] k(3,4) by simp
  ultimately show ?thesis by blast
qed

text \<open>
  A dead letter can be replayed. The first thing that is sent for a failed event is its record on
  the dead letter topic, whose value is a JSON object that starts with the event, and the text of
  this event is read as the event that failed: the same strings, the same properties and timestamp
  (maps in the order of their keys), the same ingestion time to the second.
\<close>

theorem dead_letter_replay:
  assumes "storable_event ev" and "four_digit_year now"
  shows "\<exists>payload kvs rest after.
    ProduceToDeadLetterQueue (NewEventProducerService rp tps) now ev r effs =
      effs @ ProduceSync (tp_dead_letter tps) None (Some payload) # after \<and>
    parse_json payload = Some (JObj ((''event'', JObj kvs) # rest)) \<and>
    unmarshal_event cvt (render (JObj kvs)) = Some (canonical_event ev)"
proof -
  obtain kvs rest where d: "dead_letter now ev r = Some (render (JObj ((''event'', JObj kvs) # rest)))"
    and p: "parse_json (render (JObj ((''event'', JObj kvs) # rest))) = Some (JObj ((''event'', JObj kvs) # rest))"
    and u: "unmarshal_event cvt (render (JObj kvs)) = Some (canonical_event ev)"
    using dead_letter_tree [OF assms, of r cvt] by blast
  obtain before after where "ProduceToDeadLetterQueue (NewEventProducerService rp tps) now ev r effs =
      effs @ before @ ProduceSync (tp_dead_letter tps) None (dead_letter now ev r) # after"
    and "before = [] \<longleftrightarrow> dead_letter now ev r \<noteq> None"
    using dead_letter_shape [of rp tps now ev r effs] by blast
  then have "ProduceToDeadLetterQueue (NewEventProducerService rp tps) now ev r effs =
      effs @ ProduceSync (tp_dead_letter tps) None (Some (render (JObj ((''event'', JObj kvs) # rest)))) # after"
    using d by simp
  with p u show ?thesis by blast
qed

definition replay_sample :: Event where
  "replay_sample =
     zero_event\<lparr>ev_OrganizationID := ''org'', ev_Code := ''a<b'',
       ev_Properties := Some [(''zone'', GStr ''eu''), (''card'', GSlice [GNil, GBool True])],
       ev_Timestamp := GStr ''1741007009.5'', ev_IngestedAt := 1741007009343000000\<rparr>"

theorem dead_letter_replay_witness:
  "\<exists>payload kvs rest after.
    ProduceToDeadLetterQueue (NewEventProducerService (\<lambda>effs e. None) \<lparr>tp_enriched = ''e'', tp_expanded = ''x'',
        tp_in_advance = ''a'', tp_dead_letter = ''d''\<rparr>) 1741007010000000000 replay_sample (FailedBoolResult ''lost'') [] =
      ProduceSync ''d'' None (Some payload) # after \<and>
    parse_json payload = Some (JObj ((''event'', JObj kvs) # rest)) \<and>
    unmarshal_event (\<lambda>x. 0) (render (JObj kvs)) =
      Some (replay_sample\<lparr>ev_Properties := Some [(''card'', GSlice [GNil, GBool True]), (''zone'', GStr ''eu'')],
                         ev_IngestedAt := 1741007009000000000\<rparr>)"
proof -
  have "storable_event replay_sample" by code_simp
  moreover have "four_digit_year 1741007010000000000" by code_simp
  moreover have "canonical_event replay_sample =
      replay_sample\<lparr>ev_Properties := Some [(''card'', GSlice [GNil, GBool True]), (''zone'', GStr ''eu'')],
                    ev_IngestedAt := 1741007009000000000\<rparr>" by code_simp
  ultimately show ?thesis
    using dead_letter_replay [of replay_sample 1741007010000000000 "\<lambda>effs e. None" "\<lparr>tp_enriched = ''e'', tp_expanded = ''x'',
        tp_in_advance = ''a'', tp_dead_letter = ''d''\<rparr>" "FailedBoolResult ''lost''" "[]" "\<lambda>x. 0"]
    by (simp only: append_Nil topics.simps)
qed

end
