(* ===== verification/Replay.thy ===== *)
theory Replay
  imports Payloads Processor
begin

text \<open>
  From a consumed record to its dead letter and back: the event that \<open>ProcessEvents\<close> could not process is
  in the dead letter as it was read, but for the property that an expression has set, and the text of it
  is read as that event again, whatever the payload of the record was.
\<close>

section \<open>What enriching does to an event that was read\<close>

text \<open>
  Go strings that come from outside: the values of the expression library, which is written in Rust, and
  the names of fields in PostgreSQL are UTF-8.
\<close>

definition utf8_surroundings :: "surroundings \<Rightarrow> bool" where
  "utf8_surroundings sr \<longleftrightarrow>
     (\<forall>expression event v. sr_Evaluate sr expression event = Some v \<longrightarrow> utf8_valid v) \<and>
     (\<forall>q bm. db_First (sr_apiStore sr) q = Inr bm \<longrightarrow> utf8_valid (bm_FieldName bm))"

definition storable_properties :: "nat \<Rightarrow> properties \<Rightarrow> bool" where
  "storable_properties n ps \<longleftrightarrow> (\<forall>m. ps = Some m \<longrightarrow> storable_map n m)"

lemma decoded_properties: "decoded_event n ev \<Longrightarrow> storable_properties n (ev_Properties ev)"
  "decoded_event n ev \<Longrightarrow> storable_properties n ps \<Longrightarrow> decoded_event n (ev\<lparr>ev_Properties := ps\<rparr>)"
  by (simp_all add: decoded_event_def storable_properties_def)

lemma set_property_storable:
  "set_property k v ee = Inr ee' \<Longrightarrow> utf8_valid k \<Longrightarrow> utf8_valid v \<Longrightarrow> storable_properties n (ee_Properties ee) \<Longrightarrow>
    storable_properties n (ee_Properties ee')"
  by (auto simp: set_property_def Let_def storable_properties_def storable_map_upsert split: option.splits)

lemma evaluateExpression_storable:
  "evaluateExpression sr ee bm = Inr (r, ee') \<Longrightarrow> utf8_surroundings sr \<Longrightarrow> utf8_valid (bm_FieldName bm) \<Longrightarrow>
    storable_properties n (ee_Properties ee) \<Longrightarrow> storable_properties n (ee_Properties ee')"
  by (auto simp: evaluateExpression_def utf8_surroundings_def split: if_splits sum.splits option.splits
    intro: set_property_storable)

lemma enrichWithBillableMetric_storable:
  "enrichWithBillableMetric sr ee bm = Inr (r, ee') \<Longrightarrow> utf8_surroundings sr \<Longrightarrow> utf8_valid (bm_FieldName bm) \<Longrightarrow>
    storable_properties n (ee_Properties ee) \<Longrightarrow> storable_properties n (ee_Properties ee')"
  by (auto simp: enrichWithBillableMetric_def Let_def split: sum.splits prod.splits if_splits
    dest: evaluateExpression_storable [where n = n])

lemma fetched_metric:
  "\<not> Failure (FetchBillableMetric db org code) \<Longrightarrow> Value (FetchBillableMetric db org code) = Some bm \<Longrightarrow>
    \<exists>q. db_First db q = Inr bm"
  by (auto simp: FetchBillableMetric_def failedBillabmeMetricResult_def Let_def split: sum.splits if_splits)

lemma metric_step_storable:
  assumes "metric_step sr event = Inr (r, ee)" and "\<not> Failure (ToEnrichedEvent (sr_cvt sr) event)"
    and found: "\<not> Failure (FetchBillableMetric (sr_apiStore sr) (ev_OrganizationID event) (ev_Code event))"
    and utf8: "utf8_surroundings sr" and ps: "storable_properties n (ev_Properties event)"
  shows "storable_properties n (ee_Properties ee)"
proof -
  let ?ee = "the (Value (ToEnrichedEvent (sr_cvt sr) event))"
  have p: "storable_properties n (ee_Properties ?ee)"
    using assms(2) ps by (simp add: ToEnrichedEvent_ok initial_enriched_def)
  show ?thesis
  proof (cases "Value (FetchBillableMetric (sr_apiStore sr) (ev_OrganizationID event) (ev_Code event))")
    case None
    then show ?thesis using assms(1) p by (simp add: metric_step_def Let_def)
  next
    case (Some bm)
    then have "utf8_valid (bm_FieldName bm)" using fetched_metric [OF found] utf8 by (auto simp: utf8_surroundings_def)
    then show ?thesis
      using assms(1) Some p utf8 by (auto simp: metric_step_def Let_def intro: enrichWithBillableMetric_storable)
  qed
qed

lemma EnrichEvent_decoded:
  assumes "EnrichEvent sr event = Inr (r, event')" and "utf8_surroundings sr" and "decoded_event n event"
  shows "decoded_event n event' \<and> event' = event\<lparr>ev_Properties := ev_Properties event'\<rparr>"
proof (cases "Failure (ToEnrichedEvent (sr_cvt sr) event) \<or>
    Failure (FetchBillableMetric (sr_apiStore sr) (ev_OrganizationID event) (ev_Code event))")
  case True
  then have "event' = event" using assms(1) EnrichEvent_early [of sr event] by auto
  then show ?thesis using assms(3) by simp
next
  case False
  then obtain r' ee where m: "metric_step sr event = Inr (r', ee)" and e: "event' = ee_InitialEvent ee"
    using assms(1) by (auto simp: EnrichEvent_steps split: sum.splits if_splits)
  have "stems_from event ee" using metric_step_stems [OF m] False by simp
  then have "event' = event\<lparr>ev_Properties := ee_Properties ee\<rparr>" using e by (simp add: stems_from_def)
  moreover have "storable_properties n (ee_Properties ee)"
    by (rule metric_step_storable [OF m]) (use False assms(2,3) decoded_properties(1) in auto)
  ultimately show ?thesis using decoded_properties(2) [OF assms(3)] by simp
qed

lemma processEvent_decoded:
  assumes "processEvent tps w event = Inr (result, event', es)" and "utf8_surroundings (w_surroundings w)"
    and "decoded_event n event"
  shows "decoded_event n event' \<and> event' = event\<lparr>ev_Properties := ev_Properties event'\<rparr>"
proof -
  obtain out where out: "processEvent_body (w_replies w 0) (w_surroundings w) event = Inr out" and "event' = out_event out"
    using assms(1) by (auto simp: processEvent_def split: sum.splits)
  then obtain r where "EnrichEvent (w_surroundings w) event = Inr (r, event')"
    by (auto simp: processEvent_body_def Let_def simp del: ExpireCache.simps pay_in_advance.simps
      split: sum.splits prod.splits if_splits list.splits)
  then show ?thesis using EnrichEvent_decoded assms(2,3) by blast
qed

section \<open>Properties\<close>

definition replay_record :: kgo_record where
  "replay_record = sample_record (render (JObj [(''code'', JStr ''api''), (''properties'', JObj [(''b'', JNum ''0.1''), (''a'', JArr [])]),
     (''timestamp'', JStr ''now''), (''ingested_at'', JStr ''2025-03-03T13:03:29'')])) 5"

definition replay_event :: Event where
  "replay_event =
     zero_event\<lparr>ev_Code := ''api'', ev_Properties := Some [(''b'', GNum (round_float False 1 10)), (''a'', GSlice [])],
       ev_Timestamp := GStr ''now'', ev_IngestedAt := the (parse_time ''2025-03-03T13:03:29'')\<rparr>"

text \<open>
  C17: no event is lost or damaged on the way to the dead letter queue. For every record of a batch that is
  readable and not withheld, whatever bytes its payload is made of, the event was processed with success
  or a dead letter was sent from which it can be read again: its JSON starts with the event as it was
  read (maps in the order of their keys, numbers and strings the same, the ingestion time to the second),
  but for the property that the expression of its metric has set. The nesting leaves the level that the
  dead letter adds, and the years have four digits.
\<close>

theorem failed_event_replayable:
  assumes "ProcessEvents tps worlds schedule records = Inr (processed, effs)"
    and "i < length records" and "\<not> withheld (worlds i) (records ! i)"
    and "unmarshal_event (sr_cvt (w_surroundings (worlds i))) (rec_Value (records ! i)) = Some event"
    and "parse_json (rec_Value (records ! i)) = Some j" and "nest j \<le> 9999"
    and "four_digit_year (ev_IngestedAt event)" and "four_digit_year (w_now (worlds i) 0)"
    and "utf8_surroundings (w_surroundings (worlds i))"
  shows "\<exists>result event' own. processEvent tps (worlds i) event = Inr (result, event', own) \<and>
    event' = event\<lparr>ev_Properties := ev_Properties event'\<rparr> \<and>
    (Success result \<or>
     (\<exists>payload kvs rest. ProduceSync (tp_dead_letter tps) None (Some payload) \<in> set effs \<and>
        parse_json payload = Some (JObj ((''event'', JObj kvs) # rest)) \<and>
        unmarshal_event cvt (render (JObj kvs)) = Some (canonical_event event')))"
proof -
  obtain result event' own where p: "processEvent tps (worlds i) event = Inr (result, event', own)"
    and d: "Success result \<or> ProduceSync (tp_dead_letter tps) None
      (dead_letter (w_now (worlds i) 0) event' result) \<in> set effs"
    using ProcessEvents_handled [OF assms(1-3)] assms(4) by auto
  have "decoded_event 9997 event" by (rule unmarshalled_decoded [OF assms(4-6)])
  from processEvent_decoded [OF p assms(9) this] have ev: "decoded_event 9997 event'"
    "event' = event\<lparr>ev_Properties := ev_Properties event'\<rparr>" by blast+
  have "ev_IngestedAt event' = ev_IngestedAt event" by (subst ev(2)) simp
  then have "storable_event event'" using decoded_storable [OF ev(1)] assms(7) by simp
  from dead_letter_tree [OF this assms(8), of result cvt] d p ev(2) show ?thesis by fastforce
qed

lemma replay_sample_decoded:
  "unmarshal_event (\<lambda>x. 0) (rec_Value replay_record) = Some replay_event"
  "map_option nest (parse_json (rec_Value replay_record)) = Some 3"
  "four_digit_year (ev_IngestedAt replay_event)" "four_digit_year 0"
  by code_simp+

lemma replay_sample_fails: "Failure (ToEnrichedEvent (\<lambda>x. 0) replay_event)"
  by code_simp

lemma sample_utf8: "utf8_surroundings (sample_surroundings e)"
proof -
  have "utf8_valid ''42''" "utf8_valid ''total''" by code_simp+
  then show ?thesis by (auto simp: utf8_surroundings_def sample_surroundings_def sample_metric_def)
qed

theorem failed_event_replayable_witness:
  "\<exists>processed effs payload kvs rest.
     ProcessEvents sample_topics (\<lambda>i. sample_world [] False) [] [replay_record] = Inr (processed, effs) \<and>
     ProduceSync ''dead_letter'' None (Some payload) \<in> set effs \<and>
     parse_json payload = Some (JObj ((''event'', JObj kvs) # rest)) \<and>
     unmarshal_event (\<lambda>x. 0) (render (JObj kvs)) = Some (canonical_event replay_event)"
proof -
  let ?w = "sample_world [] False" and ?failure = "ToEnrichedEvent (\<lambda>x. 0) replay_event"
  have e: "EnrichEvent (sample_surroundings []) replay_event = Inr (failedMultiEventsResult ?failure
      ''build_enriched_event'' ''Error while converting event to enriched event'', replay_event)"
    using EnrichEvent_early(1) [of "sample_surroundings []" replay_event] replay_sample_fails by simp
  have keep: "\<not> withheld ?w replay_record"
    using e replay_sample_decoded(1) replay_sample_fails ToEnrichedEvent_failure [of "\<lambda>x. 0" replay_event]
    by (simp add: withheld_def retryable_failure_def)
  have "\<exists>processed effs. ProcessEvents sample_topics (\<lambda>i. ?w) [] [replay_record] = Inr (processed, effs)"
    by (rule ProcessEvents_total) (use replay_sample_decoded(1) in \<open>auto simp: replay_event_def\<close>)
  then obtain processed effs where run: "ProcessEvents sample_topics (\<lambda>i. ?w) [] [replay_record] = Inr (processed, effs)" by blast
  obtain j where j: "parse_json (rec_Value replay_record) = Some j" "nest j \<le> 9999"
    using replay_sample_decoded(2) by auto
  have zero: "0 < length [replay_record]" by simp
  have keep': "\<not> withheld ?w ([replay_record] ! 0)" using keep by simp
  have u': "unmarshal_event (sr_cvt (w_surroundings ?w)) (rec_Value ([replay_record] ! 0)) = Some replay_event"
    using replay_sample_decoded(1) by simp
  have j': "parse_json (rec_Value ([replay_record] ! 0)) = Some j" using j(1) by simp
  have utf8: "utf8_surroundings (w_surroundings ?w)" using sample_utf8 by simp
  have now: "four_digit_year (w_now ?w 0)" using replay_sample_decoded(4) by (simp add: sample_world_def)
  obtain result event' own where r: "processEvent sample_topics ?w replay_event = Inr (result, event', own)"
    and d: "Success result \<or> (\<exists>payload kvs rest. ProduceSync (tp_dead_letter sample_topics) None (Some payload) \<in> set effs \<and>
      parse_json payload = Some (JObj ((''event'', JObj kvs) # rest)) \<and>
      unmarshal_event (\<lambda>x. 0) (render (JObj kvs)) = Some (canonical_event event'))"
    using failed_event_replayable [OF run zero keep' u' j' j(2) replay_sample_decoded(3) now utf8, of "\<lambda>x. 0"] by blast
  have "Failure result \<and> event' = replay_event"
    using r e by (auto simp: processEvent_def processEvent_body_def)
  then show ?thesis using run d by (auto simp: not_failure_iff [symmetric] sample_topics_def)
qed

end
