(* ===== verification/Timestamp_Readings.thy ===== *)
theory Timestamp_Readings
  imports Time_Utils Float_Text
begin

text \<open>
  The two readings of a timestamp of \<open>utils/time.go\<close>, computed with the arithmetic of \<open>float64\<close>, against the
  exact number of milliseconds: from the end of 2004 to January 2038, where a second is a float of 22
  fractional bits.
\<close>

section \<open>Exact operations\<close>

abbreviation float_value :: "int \<Rightarrow> int \<Rightarrow> real" where
  "float_value m e \<equiv> real_of_int m * 2 powi e"

text \<open>A ratio that needs no more than 53 bits is not rounded.\<close>

lemma round_float_exact:
  assumes "0 \<le> n" and "n < 2 ^ 53" and "0 \<le> a" and "0 < b" and q: "0 \<le> q" "q \<le> 1000"
    and r: "real_of_int a / real_of_int b = float_value n (- q)"
  shows "\<exists>m e. round_float s a b = FFin s m e \<and> 0 \<le> m \<and> float_value m e = float_value n (- q)"
proof (cases "n = 0")
  case True
  then have "a = 0" using r assms(4) by simp
  then show ?thesis using True by (intro exI [of _ 0] exI [of _ "- 1074"]) (simp add: round_float_def)
next
  case False
  then have n: "0 < n" using assms(1) by simp
  then have a: "0 < a" using r assms(3,4) by (auto simp: less_le)
  let ?j = "53 - bit_length n"
  note l = bit_length_bounds [OF n]
  have "(2 :: real) powi (bit_length n - 1) < 2 powi 53"
    using l assms(2) by simp
  then have j: "0 \<le> ?j" unfolding powi_less_iff by simp
  have l0: "0 \<le> bit_length n" by (rule bit_length_nonneg)
  have "real_of_int n < 2 powi bit_length n" "(2 :: real) powi (bit_length n - 1) \<le> real_of_int n" using l by auto
  define k where "k = n * 2 ^ nat ?j"
  have m: "real_of_int k = real_of_int n * 2 powi ?j" using j by (simp add: k_def power_int_nonneg_exp)
  have "real_of_int k < 2 powi bit_length n * 2 powi ?j" "2 powi (bit_length n - 1) * 2 powi ?j \<le> real_of_int k"
    unfolding m using l by (auto intro: mult_strict_right_mono mult_right_mono)
  then have "real_of_int k < 2 powi (bit_length n + ?j)" "(2 :: real) powi (bit_length n - 1 + ?j) \<le> real_of_int k"
    by (simp_all add: power_int_add power_int_diff)
  then have "real_of_int k < 2 ^ 53" "2 ^ 52 \<le> real_of_int k" by simp_all
  then have "k < 2 ^ 53" "2 ^ 52 \<le> k" by simp_all
  then have c: "canonical_float k (- q - ?j)" "0 < k" using n j l0 q by (simp_all add: canonical_float_def k_def)
  have v: "float_value k (- q - ?j) = float_value n (- q)"
    unfolding m by (simp add: power_int_diff)
  have p: "(0 :: real) < 2 powi (- q - ?j)" by simp
  have "round_float s a b = FFin s k (- q - ?j)"
    by (rule round_float_near [OF a assms(4) c(2,1)]) (use n in \<open>simp_all add: r v [symmetric] algebra_simps\<close>)
  then show ?thesis using v c by (auto simp: canonical_float_def)
qed

lemma trunc_part_floor: "trunc_part m e = \<lfloor>float_value m e\<rfloor>"
proof -
  have "real_of_int (shl m e) / real_of_int (shl 1 (- e)) = float_value m e" using shl_ratio [of 1 m "- e"] by simp
  then show ?thesis unfolding trunc_part_def by (metis floor_divide_of_int_eq)
qed

lemma mul_ratio: "real_of_int (shl (m * k) (e + f)) / real_of_int (shl 1 (- (e + f))) = float_value m e * float_value k f"
proof -
  have "real_of_int (shl (m * k) (e + f)) / real_of_int (shl 1 (- (e + f))) = real_of_int (m * k) * 2 powi (e + f)"
    using shl_ratio [OF zero_less_one, of "m * k" "- (e + f)"] by (simp only: minus_minus of_int_1 div_by_1)
  also have "\<dots> = float_value m e * float_value k f" by (simp add: power_int_add)
  finally show ?thesis .
qed

lemma div_ratio:
  assumes "0 < k"
  shows "real_of_int (shl m (e - f)) / real_of_int (shl k (f - e)) = float_value m e / float_value k f"
  using shl_ratio [of k m "f - e"] assms by (simp add: power_int_diff)

lemma float_1000_value: "float_1000 = FFin False (1000 * 2 ^ 43) (- 43)"
  unfolding float_1000_def by code_simp

lemma float_1e9_value: "float_1e9 = FFin False (1000000000 * 2 ^ 23) (- 23)"
  unfolding float_1e9_def by code_simp

section \<open>The time\<close>

text \<open>From 2004 on, and up to 2038, the parts of a float are its seconds and its exact nanoseconds.\<close>

lemma whole_second:
  assumes "2 ^ 30 \<le> n" and "n < 2 ^ 31"
  shows "float_of_int n = FFin False (n * 2 ^ 22) (- 22)"
proof -
  have "canonical_float (n * 2 ^ 22) (- 22)" using assms by (simp add: canonical_float_def)
  then have "round_float False n 1 = FFin False (n * 2 ^ 22) (- 22)"
    by (rule round_float_near [rotated 3]) (use assms in \<open>simp_all add: field_simps\<close>)
  then show ?thesis using assms by (simp add: float_of_int_def)
qed

lemma split_seconds_22:
  assumes "2 ^ 52 \<le> m" and "m < 2 ^ 53"
  shows "split_seconds cvt (FFin False m (- 22)) = (m div 2 ^ 22, m mod 2 ^ 22 * 10 ^ 9 div 2 ^ 22)"
proof -
  define n r where "n = m div 4194304" and "r = m mod 4194304"
  then have m: "m = n * 4194304 + r" and r: "0 \<le> r" "r < 4194304" by simp_all
  have n: "2 ^ 30 \<le> n" "n < 2 ^ 31" using assms m r by simp_all
  have "trunc_part m (- 22) = n" by (simp add: trunc_part_def shl_def n_def)
  then have s: "int64_of_float cvt (FFin False m (- 22)) = n"
    using n by (simp add: int64_of_float_def signed_def)
  have "float_sub (FFin False m (- 22)) (float_of_int n) = round_float False r (2 ^ 22)"
    using r by (simp add: whole_second [OF n] float_sub_def signed_def shl_def m) (simp add: round_float_def)
  moreover obtain k e where k: "round_float False r (2 ^ 22) = FFin False k e" "0 \<le> k"
    "float_value k e = float_value r (- 22)"
    using round_float_exact [of r r "2 ^ 22" 22 False] r by (auto simp: power_int_minus field_simps)
  ultimately have d: "float_sub (FFin False m (- 22)) (float_of_int n) = FFin False k e" by simp
  let ?a = "shl (k * (1000000000 * 2 ^ 23)) (e + - 23)" and ?b = "shl 1 (- (e + - 23))"
  have mul: "float_mul (FFin False k e) float_1e9 = round_float False ?a ?b"
    by (simp only: float_1e9_value float_mul.simps simp_thms)
  have "float_value k e * float_value (1000000000 * 2 ^ 23) (- 23) = float_value (r * 5 ^ 9) (- 13)"
    unfolding k(3) by (simp add: power_int_minus field_simps)
  then have ratio: "real_of_int ?a / real_of_int ?b = float_value (r * 5 ^ 9) (- 13)"
    unfolding mul_ratio .
  have "\<exists>l f. round_float False ?a ?b = FFin False l f \<and> 0 \<le> l \<and> float_value l f = float_value (r * 5 ^ 9) (- 13)"
    by (rule round_float_exact [OF _ _ _ _ _ _ ratio]) (use r k(2) in \<open>simp_all add: shl_def\<close>)
  then obtain l f where l: "float_mul (FFin False k e) float_1e9 = FFin False l f" "0 \<le> l"
    "float_value l f = float_value (r * 5 ^ 9) (- 13)"
    unfolding mul by blast
  have "trunc_part l f = r * 10 ^ 9 div 2 ^ 22"
  proof -
    have "float_value (r * 5 ^ 9) (- 13) = real_of_int (r * 5 ^ 9) / real_of_int (2 ^ 13)"
      by (simp add: power_int_minus field_simps)
    then have "trunc_part l f = r * 5 ^ 9 div 2 ^ 13"
      unfolding trunc_part_floor l(3) by (simp only: floor_divide_of_int_eq)
    also have "\<dots> = r * 10 ^ 9 div 2 ^ 22" by simp
    finally show ?thesis .
  qed
  moreover have "0 \<le> r * 10 ^ 9 div 2 ^ 22" "r * 10 ^ 9 div 2 ^ 22 < 2 ^ 63" using r by (simp_all add: div_less_iff_less_mult)
  ultimately have "int64_of_float cvt (FFin False l f) = r * 10 ^ 9 div 2 ^ 22"
    by (simp add: int64_of_float_def signed_def Let_def)
  then have "split_seconds cvt (FFin False m (- 22)) = (n, r * 10 ^ 9 div 2 ^ 22)"
    unfolding split_seconds_def Let_def s d l(1) by simp
  then show ?thesis by (simp add: n_def r_def)
qed

text \<open>The time is the exact number of milliseconds of the float, cut off.\<close>

lemma ToTime_22:
  assumes "2 ^ 52 \<le> m" and "m < 2 ^ 53"
  shows "time_of_parts (split_seconds cvt (FFin False m (- 22))) = SuccessResult (m * 1000 div 2 ^ 22 * millisecond)"
proof -
  define n r where "n = m div 4194304" and "r = m mod 4194304"
  then have m: "m = n * 4194304 + r" and r: "0 \<le> r" "r < 4194304" by simp_all
  have n: "0 \<le> n" "n < 2 ^ 31" using assms m r by simp_all
  let ?ns = "r * 1000000000 div 4194304"
  have ns: "0 \<le> ?ns" "?ns < second" using r by (simp_all add: second_def)
  have sp: "split_seconds cvt (FFin False m (- 22)) = (n, ?ns)"
    using split_seconds_22 [OF assms, of cvt] by (simp add: n_def r_def)
  have u: "time_unix n ?ns = n * second + ?ns"
    by (rule time_unix_id) (use n ns in \<open>simp_all add: unix_to_internal_def\<close>)
  have "n * second = n * 1000 * millisecond" by (simp add: second_def millisecond_def)
  then have tr: "truncate_ms (n * second + ?ns) = (n * 1000 + ?ns div millisecond) * millisecond"
    unfolding truncate_ms_def by (simp only: mod_mult_self3 add_diff_eq [symmetric] minus_mod_eq_div_mult distrib_right)
  have ms: "?ns div millisecond = r * 1000 div 2 ^ 22" by (simp add: millisecond_def)
  have "m * 1000 = r * 1000 + n * 1000 * 2 ^ 22" by (simp add: m distrib_right)
  then have "m * 1000 div 2 ^ 22 = n * 1000 + r * 1000 div 2 ^ 22" by (simp only: div_mult_self1) simp
  then show ?thesis unfolding time_of_parts_def sp fst_conv snd_conv u tr ms by (simp only:)
qed

section \<open>The float\<close>

definition decimal_ms :: "int \<Rightarrow> string" where
  "decimal_ms k = show_nat (k div 1000) @ ''.'' @ pad_left 3 (show_nat (k mod 1000))"

text \<open>The float nearest to a number of milliseconds, as its mantissa over \<open>2 ^ 22\<close>.\<close>

definition mantissa_22 :: "int \<Rightarrow> int" where
  "mantissa_22 k = round_div_even (k * 2 ^ 22) 1000"

lemma mantissa_22_near: "\<bar>mantissa_22 k * 1000 - k * 2 ^ 22\<bar> \<le> 500"
proof -
  have "\<bar>real_of_int (k * 2 ^ 22) / real_of_int 1000 - real_of_int (mantissa_22 k)\<bar> \<le> 1 / 2"
    unfolding mantissa_22_def by (rule round_div_even_near) simp
  then have "real_of_int (2 * \<bar>k * 524288 - mantissa_22 k * 125\<bar>) \<le> real_of_int 125" by (simp add: field_simps)
  then have "2 * \<bar>k * 524288 - mantissa_22 k * 125\<bar> \<le> 125" unfolding of_int_le_iff .
  moreover have "mantissa_22 k * 1000 - k * 2 ^ 22 = - 8 * (k * 524288 - mantissa_22 k * 125)" by simp
  ultimately show ?thesis by (simp only: abs_mult)
qed

lemma mantissa_22_bounds:
  assumes "2 ^ 30 * 1000 < k" and "k < 2 ^ 31 * 1000"
  shows "2 ^ 52 \<le> mantissa_22 k" and "mantissa_22 k < 2 ^ 53"
  using mantissa_22_near [of k] assms by simp_all

lemma round_ms:
  assumes "2 ^ 30 * 1000 < k" and "k < 2 ^ 31 * 1000"
  shows "round_float False k 1000 = FFin False (mantissa_22 k) (- 22)"
proof -
  have "round_float False k 1000 = (if mantissa_22 k = 2 ^ 53 then FFin False (2 ^ 52) (- 21) else FFin False (mantissa_22 k) (- 22))"
    using assms round_float_eq [of k 1000 "- 22" "- 22" "mantissa_22 k" False] by (simp add: mantissa_22_def shl_def)
  then show ?thesis using mantissa_22_bounds [OF assms] by simp
qed

text \<open>Multiplied by 1000 the float is rounded to the number of milliseconds itself.\<close>

lemma whole_ms:
  assumes "2 ^ 40 < k" and "k < 2 ^ 41" and "0 < a" and "0 < b"
    and near: "\<bar>real_of_int a / real_of_int b - real_of_int k\<bar> < 1 / 8192"
  shows "round_float False a b = FFin False (k * 2 ^ 12) (- 12)"
proof (rule round_float_near [OF assms(3,4)])
  have p: "(2 :: real) powi (- 12) = 1 / 4096" by (simp add: power_int_minus)
  let ?x = "real_of_int a / real_of_int b"
  have x: "?x < real_of_int k + 1 / 8192" "real_of_int k - 1 / 8192 < ?x"
    using near by linarith+
  show "canonical_float (k * 2 ^ 12) (- 12)" using assms(1,2) by (simp add: canonical_float_def)
  show "?x < (real_of_int (k * 2 ^ 12) + 1 / 2) * 2 powi (- 12)"
    unfolding p using x(1) by (simp add: distrib_right)
  have "k * 2 ^ 12 \<noteq> 2 ^ 52" using assms(1) by simp
  then show "(real_of_int (k * 2 ^ 12) - (if k * 2 ^ 12 = 2 ^ 52 \<and> - 12 \<noteq> (- 1074 :: int) then 1 / 4 else 1 / 2)) * 2 powi (- 12) < ?x"
    unfolding p using x(2) by (simp add: left_diff_distrib)
qed (use assms(1) in simp)

lemma float_ms:
  assumes "1100000000000 \<le> k" and "k < 2147483648000"
  shows "float_div (float_trunc (float_mul (FFin False (mantissa_22 k) (- 22)) float_1000)) float_1000 =
    FFin False (mantissa_22 k) (- 22)"
proof -
  let ?m = "mantissa_22 k"
  have k: "2 ^ 30 * 1000 < k" "k < 2 ^ 31 * 1000" using assms by simp_all
  have k': "2 ^ 40 < k" "k < 2 ^ 41" using assms by simp_all
  let ?a = "shl (?m * (1000 * 2 ^ 43)) (- 22 + - 43)" and ?b = "shl 1 (- (- 22 + - 43))"
  have "real_of_int ?a / real_of_int ?b = real_of_int (?m * 1000) / 2 ^ 22"
    unfolding mul_ratio by (simp add: power_int_minus field_simps)
  moreover have "\<bar>real_of_int (?m * 1000) / 2 ^ 22 - real_of_int k\<bar> < 1 / 8192"
  proof -
    have "real_of_int \<bar>?m * 1000 - k * 2 ^ 22\<bar> \<le> real_of_int 500"
      unfolding of_int_le_iff by (rule mantissa_22_near)
    then show ?thesis by (simp add: abs_if field_simps split: if_splits)
  qed
  ultimately have near: "\<bar>real_of_int ?a / real_of_int ?b - real_of_int k\<bar> < 1 / 8192" by (simp only:)
  have mul: "float_mul (FFin False ?m (- 22)) float_1000 = FFin False (k * 2 ^ 12) (- 12)"
    unfolding float_1000_value float_mul.simps
    by (simp only: simp_thms) (rule whole_ms [OF k' _ _ near], use mantissa_22_bounds [OF k] in \<open>simp_all add: shl_def\<close>)
  have "trunc_part (k * 2 ^ 12) (- 12) = k" by (simp add: trunc_part_def shl_def)
  then have trunc: "float_trunc (FFin False (k * 2 ^ 12) (- 12)) = FFin False (k * 2 ^ 12) (- 12)"
    using whole_ms [OF k', of k 1] k' by simp
  have "round_float False (shl (k * 2 ^ 12) (- 12 - - 43)) (shl (1000 * 2 ^ 43) (- 43 - - 12)) = round_float False k 1000"
    by (rule round_float_ratio) (use k' in \<open>simp_all add: shl_def\<close>)
  then show ?thesis
    unfolding mul trunc unfolding float_1000_value float_div.simps using round_ms [OF k] by simp
qed

lemma read_digits_acc: "read_digits a s = map_option (\<lambda>v. a * 10 ^ length s + v) (read_digits 0 s)"
proof (induction s arbitrary: a)
  case (Cons c s)
  show ?case
  proof (cases "digit_value c")
    case (Some d)
    have "read_digits (10 * a + d) s = map_option (\<lambda>v. (10 * a + d) * 10 ^ length s + v) (read_digits 0 s)" by (rule Cons.IH)
    moreover have "read_digits d s = map_option (\<lambda>v. d * 10 ^ length s + v) (read_digits 0 s)" by (rule Cons.IH)
    ultimately show ?thesis using Some by (cases "read_digits 0 s") (simp_all add: algebra_simps)
  qed simp
qed simp

lemma parse_decimal_ms:
  assumes "0 \<le> k" and f: "round_float False k 1000 = FFin s m e"
  shows "parse_float (decimal_ms k) = Inr (FFin s m e)"
proof -
  let ?ds = "show_nat (k div 1000)" and ?es = "pad_left 3 (show_nat (k mod 1000))"
  have ds: "\<forall>c \<in> set ?ds. is_digit c" and es: "\<forall>c \<in> set ?es. is_digit c"
    using show_nat_digits by (auto simp: pad_left_def digit_zero)
  have len: "length ?es = 3" using length_show_nat [of "k mod 1000" 3] by (intro length_pad_left) simp
  have "read_digits 0 (?ds @ ?es) = Some (k div 1000 * 10 ^ length ?es + k mod 1000)"
    using assms(1) read_show_nat [of "k div 1000"] read_pad_left [of "k mod 1000" 3] read_digits_acc [of "k div 1000" ?es]
    by (simp add: read_digits_append)
  then have v: "read_digits 0 (?ds @ ?es) = Some k" by (simp add: len)
  have scan: "scan_mantissa False (decimal_ms k) 0 0 False False False = (k, 3, True, False, [])"
    unfolding decimal_ms_def using read_point [OF ds es show_nat_ne v, of "[]"] len by simp
  have "float_result False False k (- 3) = Inr (FFin s m e)"
    using f by (simp add: float_result_def ten_pow_def)
  then have plain: "read_plain False (decimal_ms k) = Inr (FFin s m e)" by (simp add: read_plain_def scan)
  have chars: "set (decimal_ms k) \<subseteq> number_chars"
    using ds es digit_chars(3) by (auto simp: decimal_ms_def number_chars_def)
  have "strip_sign (decimal_ms k) = (False, decimal_ms k)"
  proof (cases ?ds)
    case (Cons c cs)
    then have "c \<noteq> CHR ''-'' \<and> c \<noteq> CHR ''+''" using ds digit_chars(1) [of c] by simp
    then show ?thesis using Cons by (simp add: decimal_ms_def strip_sign_def)
  qed (simp add: show_nat_ne)
  then show ?thesis using plain by (simp add: parse_float_plain [OF chars])
qed

section \<open>Properties\<close>

text \<open>
  C35: the two readings of a timestamp with three decimals: as a float it is the float nearest to its
  milliseconds, but its time is one millisecond early whenever that float lies below the decimal, so that
  the two readings of one timestamp then differ. A JSON number of that float has the same time.
\<close>

theorem millisecond_timestamp:
  assumes "1100000000000 \<le> k" and "k < 2147483648000"
  shows "round_float False k 1000 = FFin False (mantissa_22 k) (- 22) \<and>
    ToFloat64Timestamp (GStr (decimal_ms k)) = SuccessResult (FFin False (mantissa_22 k) (- 22)) \<and>
    ToTime cvt (GStr (decimal_ms k)) =
      SuccessResult ((if mantissa_22 k * 1000 < k * 2 ^ 22 then k - 1 else k) * millisecond) \<and>
    ToTime cvt (GNum (FFin False (mantissa_22 k) (- 22))) = ToTime cvt (GStr (decimal_ms k))"
proof -
  have k: "2 ^ 30 * 1000 < k" "k < 2 ^ 31 * 1000" using assms by simp_all
  let ?m = "mantissa_22 k"
  have p: "parse_float (decimal_ms k) = Inr (FFin False ?m (- 22))"
    by (rule parse_decimal_ms [OF _ round_ms [OF k]]) (use assms in simp)
  let ?q = "if ?m * 1000 < k * 2 ^ 22 then k - 1 else k"
  have "?m * 1000 div 2 ^ 22 = ?q"
    by (rule int_div_pos_eq [where r = "?m * 1000 - 2 ^ 22 * ?q"]) (use mantissa_22_near [of k] in auto)
  then show ?thesis
    using round_ms [OF k] p float_ms [OF assms] ToTime_22 [OF mantissa_22_bounds [OF k]] by simp
qed

theorem millisecond_timestamp_witness:
  "ToTime (\<lambda>x. 0) (GStr ''1741007009.343'') = SuccessResult (1741007009342 * millisecond) \<and>
   ToFloat64Timestamp (GStr ''1741007009.343'') = SuccessResult (round_float False 1741007009343 1000) \<and>
   ToTime (\<lambda>x. 0) (GStr ''1741007009.344'') = SuccessResult (1741007009344 * millisecond)"
proof -
  have t: "decimal_ms 1741007009343 = ''1741007009.343''" "decimal_ms 1741007009344 = ''1741007009.344''"
    by code_simp+
  have m: "mantissa_22 1741007009343 * 1000 < 1741007009343 * 2 ^ 22" "\<not> mantissa_22 1741007009344 * 1000 < 1741007009344 * 2 ^ 22"
    by code_simp+
  show ?thesis
    using millisecond_timestamp [of 1741007009343 "\<lambda>x. 0"] millisecond_timestamp [of 1741007009344 "\<lambda>x. 0"]
    unfolding t using m by simp
qed

end
