(* ===== verification/Group_Positions.thy ===== *)
theory Group_Positions
  imports Group_Safety "HOL-Library.Sublist"
begin

text \<open>
  Where the Kafka client reads: next to the consumer group of \<open>Consumer_Group\<close> the client keeps a position
  for each partition. A poll returns records from there on, in the order of their offsets, and moves the
  position past them; a partition gets its position when it is assigned. The code never moves one itself,
  so no consumer is given a record twice.
\<close>

section \<open>Positions\<close>

type_synonym positions = "TopicPartition \<Rightarrow> int"

definition records_of :: "TopicPartition \<Rightarrow> fetches \<Rightarrow> kgo_record list" where
  "records_of tp fs = concat (map snd (filter (\<lambda>(t, rs). t = tp) fs))"

text \<open>What \<open>PollRecords\<close> documents of the fetches it returns.\<close>

definition fetched_from :: "positions \<Rightarrow> fetches \<Rightarrow> positions \<Rightarrow> bool" where
  "fetched_from pos fs pos' \<longleftrightarrow>
     (\<forall>tp. sorted_wrt (<) (map rec_Offset (records_of tp fs)) \<and> pos tp \<le> pos' tp \<and>
        (\<forall>r \<in> set (records_of tp fs). pos tp \<le> rec_Offset r \<and> rec_Offset r < pos' tp))"

text \<open>A step of the group moves the positions by a poll, or sets those of the partitions that are assigned.\<close>

definition positioned :: "ConsumerGroup \<Rightarrow> positions \<Rightarrow> ConsumerGroup \<Rightarrow> positions \<Rightarrow> bool" where
  "positioned cg pos cg' pos' \<longleftrightarrow>
     (case (cg_poller cg, cg_poller cg') of
        (Polling, Fetched fs) \<Rightarrow> fetched_from pos fs pos'
      | _ \<Rightarrow> \<forall>tp. tp \<in> cg_owned cg' - cg_owned cg \<or> pos' tp = pos tp)"

inductive client_runs :: "handlers \<Rightarrow> ConsumerGroup \<Rightarrow> positions \<Rightarrow> bool" for hs where
  fresh: "client_runs hs NewConsumerGroup pos"
| client_step: "client_runs hs cg pos \<Longrightarrow> cg_step hs cg cg' \<Longrightarrow> positioned cg pos cg' pos' \<Longrightarrow>
    client_runs hs cg' pos'"

lemma client_runs_reachable: "client_runs hs cg pos \<Longrightarrow> reachable hs cg"
  by (induction rule: client_runs.induct) (auto intro: runs.intros)

section \<open>Each record once, in order\<close>

fun in_flight :: "poller \<Rightarrow> fetches" where
  "in_flight (Fetched fs) = fs"
| "in_flight (Sending fs) = fs"
| "in_flight _ = []"

definition offsets :: "kgo_record list \<Rightarrow> int list" where
  "offsets = map rec_Offset"

definition given :: "nat \<Rightarrow> ConsumerGroup \<Rightarrow> kgo_record list" where
  "given i cg = concat (delivered_to i cg)"

definition seen_inv :: "ConsumerGroup \<Rightarrow> positions \<Rightarrow> bool" where
  "seen_inv cg pos \<longleftrightarrow>
     (\<forall>i. sorted_wrt (<) (offsets (given i cg))) \<and>
     (\<forall>(tp, i) \<in> set (cg_consumers cg).
        let xs = given i cg @ records_of tp (in_flight (cg_poller cg))
        in sorted_wrt (<) (offsets xs) \<and> (\<forall>r \<in> set xs. rec_Offset r < pos tp))"

lemma offsets_simps [simp]:
  "offsets [] = []" "offsets (xs @ ys) = offsets xs @ offsets ys" "set (offsets xs) = rec_Offset ` set xs"
  by (simp_all add: offsets_def)

lemma records_of_simps [simp]:
  "records_of tp [] = []" "records_of tp ((t, rs) # fs) = (if t = tp then rs else []) @ records_of tp fs"
  by (simp_all add: records_of_def)

text \<open>A step that sends and fetches nothing, and leaves the consumers that are in the map.\<close>

lemma seen_inv_same:
  assumes "seen_inv cg pos" and "cg_delivered cg' = cg_delivered cg"
    and "set (cg_consumers cg') \<subseteq> set (cg_consumers cg)"
    and "\<And>tp. suffix (records_of tp (in_flight (cg_poller cg'))) (records_of tp (in_flight (cg_poller cg)))"
    and "\<And>tp i. (tp, i) \<in> set (cg_consumers cg') \<Longrightarrow> pos' tp = pos tp"
  shows "seen_inv cg' pos'"
proof -
  have g: "given i cg' = given i cg" for i using assms(2) by (simp add: given_def delivered_to_def)
  have "sorted_wrt (<) (offsets (given i cg @ records_of tp (in_flight (cg_poller cg')))) \<and>
      (\<forall>r \<in> set (given i cg @ records_of tp (in_flight (cg_poller cg'))). rec_Offset r < pos' tp)"
    if "(tp, i) \<in> set (cg_consumers cg')" for tp i
  proof -
    obtain xs where xs: "records_of tp (in_flight (cg_poller cg)) = xs @ records_of tp (in_flight (cg_poller cg'))"
      using assms(4) [of tp] by (auto simp: suffix_def)
    have "sorted_wrt (<) (offsets (given i cg @ records_of tp (in_flight (cg_poller cg)))) \<and>
      (\<forall>r \<in> set (given i cg @ records_of tp (in_flight (cg_poller cg))). rec_Offset r < pos tp)"
      using assms(1,3) that unfolding seen_inv_def Let_def by fast
    then show ?thesis unfolding xs assms(5) [OF that] by (auto simp: sorted_wrt_append)
  qed
  then show ?thesis using assms(1) unfolding seen_inv_def g Let_def by blast
qed

lemma set_upsert: "set (upsert k v m) \<subseteq> insert (k, v) (set m)"
  by (induction m) (auto split: if_splits)

lemma keys_owned:
  assumes "cg_inv cg" and "cg_callback cg = NoCallback" and "(tp, i) \<in> set (cg_consumers cg)"
  shows "tp \<in> cg_owned cg"
proof -
  have "tp \<in> set (keys (cg_consumers cg))" using assms(3) by (force simp: keys_def)
  then show ?thesis using assms(1,2) by (simp add: cg_inv_def owned_inv_def)
qed

lemma given_send:
  "given i (set_point j p cg\<lparr>cg_poller := q, cg_delivered := cg_delivered cg @ [(j, rs)]\<rparr>) =
     (if i = j then given i cg @ rs else given i cg)"
  by (simp add: given_def delivered_to_def)

lemma seen_inv_send:
  assumes "seen_inv cg pos" and "map_inv cg" and "cg_poller cg = Sending ((tp, rs) # fs)"
    and "map_of (cg_consumers cg) tp = Some j"
  shows "seen_inv (set_point j p cg\<lparr>cg_poller := Sending fs, cg_delivered := cg_delivered cg @ [(j, rs)]\<rparr>) pos"
proof -
  have mine: "(tp, j) \<in> set (cg_consumers cg)" using assms(4) by (rule map_of_SomeD)
  have same: "i = j \<longleftrightarrow> t = tp" if "(t, i) \<in> set (cg_consumers cg)" for t i
    using that mine map_of_id [OF assms(2)] map_inv_of [OF assms(2)] by (metis option.inject)
  have old: "sorted_wrt (<) (offsets (given i cg @ records_of t ((tp, rs) # fs)))"
    "\<forall>r \<in> set (given i cg @ records_of t ((tp, rs) # fs)). rec_Offset r < pos t"
    if "(t, i) \<in> set (cg_consumers cg)" for t i
    using assms(1,3) that unfolding seen_inv_def Let_def by force+
  have all: "sorted_wrt (<) (offsets (given i cg))" for i using assms(1) by (simp add: seen_inv_def)
  show ?thesis
    unfolding seen_inv_def Let_def given_send
  proof (intro conjI allI ballI)
    show "sorted_wrt (<) (offsets (if i = j then given i cg @ rs else given i cg))" for i
      using old(1) [OF mine] all by (simp add: sorted_wrt_append)
    fix x assume in_map: "x \<in> set (cg_consumers (set_point j p cg\<lparr>cg_poller := Sending fs,
      cg_delivered := cg_delivered cg @ [(j, rs)]\<rparr>))"
    obtain t i where x: "x = (t, i)" by (cases x)
    then have m: "(t, i) \<in> set (cg_consumers cg)" using in_map by simp
    show "case x of (t, i) \<Rightarrow>
        sorted_wrt (<) (offsets ((if i = j then given i cg @ rs else given i cg) @
          records_of t (in_flight (cg_poller (set_point j p cg\<lparr>cg_poller := Sending fs,
            cg_delivered := cg_delivered cg @ [(j, rs)]\<rparr>))))) \<and>
        (\<forall>r \<in> set ((if i = j then given i cg @ rs else given i cg) @
          records_of t (in_flight (cg_poller (set_point j p cg\<lparr>cg_poller := Sending fs,
            cg_delivered := cg_delivered cg @ [(j, rs)]\<rparr>)))). rec_Offset r < pos t)"
      using old [OF m] same [OF m] by (auto simp: x)
  qed
qed

lemma seen_inv_step:
  assumes "move hs cg cg'" and "positioned cg pos cg' pos'" and "cg_inv cg" and "order_inv cg" and "seen_inv cg pos"
  shows "seen_inv cg' pos'"
  using assms(1)
proof (cases rule: move.cases)
  case (assigned_start tps)
  then have pos: "\<And>tp. tp \<notin> set tps \<Longrightarrow> pos' tp = pos tp" using assms(2) by (auto simp: positioned_def split: poller.splits)
  show ?thesis
    by (rule seen_inv_same [OF assms(5)]) (use assigned_start pos keys_owned [OF assms(3)] in auto)
next
  case (assigned_one tp tps)
  have phase: "in_flight (cg_poller cg) = []"
    using assms(3) assigned_one by (cases "cg_poller cg") (auto simp: cg_inv_def phase_inv_def)
  have new: "given (length (cg_heap cg)) cg = []" using assms(4) by (simp add: given_def order_inv_def)
  have g: "given i cg' = given i cg" for i using assigned_one by (simp add: given_def delivered_to_def)
  have pos: "pos' = pos" using assms(2) assigned_one by (auto simp: positioned_def split: poller.splits)
  have "(t, i) \<in> set (cg_consumers cg') \<Longrightarrow> (t, i) \<in> set (cg_consumers cg) \<or> i = length (cg_heap cg)" for t i
    using assigned_one set_upsert by (fastforce simp: assign_one_def)
  then show ?thesis using assms(5) new phase assigned_one
    unfolding seen_inv_def g pos Let_def by fastforce
next
  case (lost_one tp tps idents cg'' ident)
  then have c: "same_control cg cg''" "set (cg_consumers cg'') \<subseteq> set (cg_consumers cg)"
    using lose_one_Inr by auto
  show ?thesis
    by (rule seen_inv_same [OF assms(5)])
      (use c lost_one assms(2) in \<open>auto simp: same_control_def positioned_def split: poller.splits\<close>)
next
  case (shutdown_one idents waits ident cg'')
  then have c: "same_control cg cg''" "cg_consumers cg'' = cg_consumers cg" using shut_one_Inr by auto
  show ?thesis
    by (rule seen_inv_same [OF assms(5)])
      (use c shutdown_one assms(2) in \<open>auto simp: same_control_def positioned_def split: poller.splits\<close>)
next
  case (poll_fetch fs)
  then have f: "fetched_from pos fs pos'" using assms(2) by (simp add: positioned_def)
  have g: "given i cg' = given i cg" for i using poll_fetch by (simp add: given_def delivered_to_def)
  show ?thesis
    using assms(5) f poll_fetch unfolding seen_inv_def g Let_def
    by (fastforce simp: fetched_from_def sorted_wrt_append offsets_def)
next
  case (send tp records fs ident)
  then have "pos' = pos" using assms(2) by (auto simp: positioned_def)
  then show ?thesis using send seen_inv_send [OF assms(5)] assms(3) by (simp add: cg_inv_def)
qed ((rule seen_inv_same [OF assms(5)];
    (use assms(2) in \<open>auto simp: positioned_def intro: suffix_appendI split: poller.splits\<close>))+)

lemma client_runs_seen: "client_runs hs cg pos \<Longrightarrow> seen_inv cg pos"
proof (induction rule: client_runs.induct)
  case (fresh pos)
  show ?case by (simp add: seen_inv_def NewConsumerGroup_def given_def delivered_to_def)
next
  case (client_step cg pos cg' pos')
  have r: "reachable hs cg" by (rule client_runs_reachable [OF client_step.hyps(1)])
  have "move hs cg cg'" using client_step.hyps(2) by (simp add: cg_step_def)
  from seen_inv_step [OF this client_step.hyps(3) cg_inv_reachable [OF r] order_inv_reachable [OF r] client_step.IH]
  show ?case .
qed

text \<open>So the offsets of what a consumer is given only grow.\<close>

lemma given_in_order: "client_runs hs cg pos \<Longrightarrow> sorted_wrt (<) (offsets (given i cg))"
  using client_runs_seen by (simp add: seen_inv_def)

text \<open>A batch that a consumer commits after another lies above it.\<close>

lemma later_batch_above:
  assumes "client_runs hs cg pos"
    and "cg_commits cg = before @ (i, b, h, e) # between @ (i, b', h', e') # after"
    and "r \<in> set b" and "r' \<in> set b'"
  shows "rec_Offset r < rec_Offset r'"
proof -
  have order: "order_inv cg" by (rule order_inv_reachable [OF client_runs_reachable [OF assms(1)]])
  have id: "i < length (cg_heap cg)"
    by (rule committed_id [OF order, of i b "(h, e)"]) (use assms(2) in simp)
  obtain xs ys zs where "committed_by i cg = xs @ b # ys @ b' # zs"
    using assms(2) by (simp add: committed_by_def)
  then have "given i cg = concat xs @ b @ concat ys @ b' @ concat (zs @ pending (point cg i))"
    using order id by (simp add: given_def order_inv_def)
  then show ?thesis
    using given_in_order [OF assms(1), of i] assms(3,4) by (auto simp: sorted_wrt_append)
qed

lemma sorted_distinct: "sorted_wrt (<) (xs :: int list) \<Longrightarrow> distinct xs"
  by (induction xs) auto

lemma given_once: "client_runs hs cg pos \<Longrightarrow> distinct (given i cg)"
  using sorted_distinct [OF given_in_order] by (simp add: offsets_def distinct_map)

section \<open>Runs\<close>

text \<open>A step that is no poll and assigns nothing.\<close>

lemma client_move:
  assumes "client_runs hs cg pos" and "cg_panic cg = None" and "move hs cg cg'"
    and "cg_poller cg \<noteq> Polling \<or> (\<forall>fs. cg_poller cg' \<noteq> Fetched fs)"
  shows "client_runs hs cg' pos"
  by (rule client_step [OF assms(1)])
    (use assms(2-4) in \<open>auto simp: cg_step_def positioned_def split: poller.splits\<close>)

lemma client_poll:
  assumes "client_runs hs cg pos" and "cg_panic cg = None" and "cg_poller cg = Polling"
    and "\<not> cg_ctx_done cg" and "cg_callback cg = NoCallback" and "fs \<noteq> []" and "fetched_from pos fs pos'"
  shows "client_runs hs (cg\<lparr>cg_poller := Fetched fs, cg_blocked := True\<rparr>) pos'"
  by (rule client_step [OF assms(1)]) (use assms in \<open>auto simp: cg_step_def positioned_def intro: poll_fetch\<close>)

lemma sample_positioned: "client_runs hs (sample_group Selecting) pos"
proof -
  let ?s = "NewConsumerGroup\<lparr>cg_callback := Assigning [sample_tp], cg_owned := {sample_tp}\<rparr>"
  have "client_runs hs ?s pos"
    by (rule client_move [OF fresh])
      (use assigned_start [of NewConsumerGroup "[sample_tp]" hs] in \<open>simp_all add: NewConsumerGroup_def\<close>)
  then have "client_runs hs (assign_one sample_tp ?s\<lparr>cg_callback := Assigning []\<rparr>) pos"
    by (rule client_move) (use assigned_one [of ?s sample_tp "[]" hs] in \<open>simp_all add: NewConsumerGroup_def\<close>)
  then have "client_runs hs (assign_one sample_tp ?s\<lparr>cg_callback := NoCallback\<rparr>) pos"
    by (rule client_move)
      (use assigned_end [of "assign_one sample_tp ?s\<lparr>cg_callback := Assigning []\<rparr>" hs] in
        \<open>simp_all add: NewConsumerGroup_def\<close>)
  then show ?thesis by (simp add: sample_group_def assign_one_def NewConsumerGroup_def new_consumer_def)
qed

text \<open>One round: a batch of the sample partition is fetched, sent, processed and committed.\<close>

lemma sample_round:
  assumes "client_runs hs (sample_group Selecting\<lparr>cg_delivered := ds, cg_commits := cs\<rparr>) pos"
    and "(process, commit) \<in> hs" and "records \<noteq> []"
    and "processRecordsAndCommit \<lparr>pc_topic = tp_topic sample_tp, pc_partition = tp_partition sample_tp\<rparr>
      process commit records = Inr (handed, effs)"
    and "fetched_from pos [(sample_tp, records)] pos'"
  shows "client_runs hs (sample_group Selecting
    \<lparr>cg_delivered := ds @ [(0, records)], cg_commits := cs @ [(0, records, handed, effs)]\<rparr>) pos'"
proof -
  let ?s = "sample_group Selecting\<lparr>cg_delivered := ds, cg_commits := cs\<rparr>" and ?fs = "[(sample_tp, records)]"
  let ?f = "?s\<lparr>cg_poller := Fetched ?fs, cg_blocked := True\<rparr>"
  let ?e = "?f\<lparr>cg_poller := Sending ?fs\<rparr>"
  let ?w = "set_point 0 (Working records) ?e\<lparr>cg_poller := Sending [], cg_delivered := ds @ [(0, records)]\<rparr>"
  let ?a = "?w\<lparr>cg_poller := Polling, cg_blocked := False\<rparr>"
  let ?c = "set_point 0 Selecting ?a\<lparr>cg_commits := cs @ [(0, records, handed, effs)]\<rparr>"
  have "client_runs hs ?f pos'" by (rule client_poll [OF assms(1)]) (use assms(5) in simp_all)
  then have "client_runs hs ?e pos'" by (rule client_move) (use poll_each [of ?f ?fs hs] in simp_all)
  then have "client_runs hs ?w pos'"
    by (rule client_move) (use send [of ?e sample_tp records "[]" 0 hs] in simp_all)
  then have "client_runs hs ?a pos'" by (rule client_move) (use poll_allow [of ?w hs] in simp_all)
  then have "client_runs hs ?c pos'"
    by (rule client_move)
      (use consume_work [of 0 ?a records process commit hs handed effs] assms(2,4) in
        \<open>simp_all add: sample_group_def set_point_def point_def new_consumer_def PartitionConsumer.truncate_def NewConsumerGroup_def\<close>)
  then show ?thesis by (simp add: sample_group_def set_point_def new_consumer_def NewConsumerGroup_def)
qed

end
