(* ===== verification/Spec2Isabelle.thy ===== *)
theory Spec2Isabelle
  imports Process Replay Timestamp_Readings Group_Positions
begin

text \<open>
  The events processor of Lago (\<open>src/events-processor\<close>, Go): it consumes raw usage events from a
  Kafka topic, enriches each with its billable metric, its subscription and the charge filters that
  cover it, publishes the enriched events on three topics, flags the subscription for a refresh and
  expires its cached usage in Redis, sends what fails for good to a dead letter queue, and commits
  the offsets of what it is done with.

  Parts and theories, in the order in which they build on each other.
  \<^item> \<open>Go_Prelude\<close>: strings, decimal numbers, 64-bit wrap-around, association lists for Go's maps, and
    \<open>merge_logs\<close>, the interleaving of goroutines by a schedule.
  \<^item> \<open>Go_Float\<close>, \<open>Go_Time\<close>, \<open>Go_Json\<close>: the parts of the standard library that decide what the program
    does: float64 with rounding, \<open>strconv.ParseFloat\<close>, \<open>%f\<close> and \<open>%v\<close>; instants, the calendar,
    the layouts that are printed and parsed; \<open>encoding/json\<close> on values of type \<open>any\<close>. \<open>Json_Text\<close>: the
    reader of JSON always has the fuel it needs, and reads back every text that the printer gives;
    \<open>Json_Codec\<close>: UTF-8, quoting, and the values of type \<open>any\<close> that survive being written and read.
    \<open>Float_Rounding\<close>, over the reals: a ratio is rounded to the nearest float, and seventeen digits tell
    every float from its neighbours; \<open>Float_Text\<close>: \<open>ParseFloat\<close> reads back what is printed for every finite
    float; \<open>Json_Decoded\<close>: whatever bytes are read, the strings are UTF-8 and the values survive.
  \<^item> \<open>Results\<close> (\<open>utils/result.go\<close>, \<open>utils/error_tracker.go\<close>): the result type with its flags, and the
    type \<open>effect\<close> of everything that leaves the process. \<open>Time_Utils\<close> (\<open>utils/time.go\<close>): the two
    readings of a timestamp and the JSON form of an ingestion time; \<open>Timestamp_Readings\<close>: what the float
    arithmetic of the readings computes, exactly.
  \<^item> \<open>Models\<close> (\<open>models/event.go\<close>, \<open>models/billable_metrics.go\<close> and the structs of the package): records
    with the fields of the Go structs behind a prefix, reading and writing their JSON.
    \<open>Flat_Filters\<close> (\<open>models/flat_filters.go\<close>): matching, best filter, default bucket, columns.
    \<open>Stores\<close> (\<open>models/subscriptions.go\<close>, \<open>stores.go\<close>, \<open>charge_cache.go\<close> and the fetches): queries as
    condition, order and limit; Redis commands; the keys of the charge cache.
  \<^item> \<open>Enrichment\<close> (\<open>enrichment_service.go\<close>), \<open>Producers\<close> (\<open>config/kafka/producer.go\<close>,
    \<open>event_producer_service.go\<close>), \<open>Services\<close> (\<open>cache_service.go\<close>, \<open>subscription_refresh_service.go\<close>)
    and \<open>Processor\<close> (\<open>processor.go\<close>): one definition per function or loop, under its Go name.
  \<^item> \<open>Commit\<close> (\<open>config/kafka/consumer.go\<close>): the record of a batch that is committed.
    \<open>Consumer_Group\<close> (the rest of that file): the partition consumers, the callbacks of the client, the
    poll loop and the shutdown as a step relation \<open>move\<close>, with its invariants; \<open>Group_Safety\<close>: what holds
    while the group runs, and the specification it refines; \<open>Group_Shutdown\<close>: how it ends;
    \<open>Group_Positions\<close>: the runs of the group next to the positions from which its client reads, which the
    code never moves back.
  \<^item> \<open>Environment\<close> (\<open>utils/env.go\<close>), \<open>Startup\<close> (\<open>main_processor.go\<close>, \<open>config/kafka/kafka.go\<close>,
    \<open>config/redis\<close>, \<open>config/database\<close>, the constructors of producer and group): reading the
    configuration and opening the clients, as functions on a trace of attempts and their answers;
    \<open>Tracing\<close> (\<open>config/tracing\<close>, \<open>main.go\<close>): the tracing providers, the global tracer, spans, and the
    entry of the process.
  \<^item> \<open>Payloads\<close>: what the program writes and reads again, the columns of a flat filter and the event inside
    a dead letter; \<open>Replay\<close>: the same for every record that \<open>ProcessEvents\<close> is given, from its bytes to its
    dead letter and back. \<open>Process\<close> (\<open>main.go\<close>, the end of \<open>StartProcessingEvents\<close>): the handler of signals and the
    deferred calls as steps beside those of the consumer group, and the contexts of the calls to Redis.

  How Go is read. A pointer or map that may be \<open>nil\<close> is an option, an \<open>error\<close> its text, a panic the
  left side of a sum. State is passed explicitly: a call of a service takes the list of effects that
  its goroutine had so far and gives it back with its own at the end, and what the services answer
  is a function \<open>replies\<close> of that list, so that a statement for all replies covers every failure at
  every point. A goroutine is the list of its effects, and goroutines run together by
  \<open>merge_logs\<close> with a schedule; a statement for all schedules covers every interleaving. The map of
  properties, which the raw and the enriched event share, is the one place where aliasing matters:
  \<open>EnrichEvent\<close> gives back the raw event with the map as it is afterwards. The order in which
  \<open>range\<close> meets the keys of a map is the parameter \<open>sr_range\<close>, of which only \<open>range_ok\<close> is assumed.

  The consumer group is the place where goroutines share state for as long as the process runs. There
  each goroutine is a program counter of one state and a step is one of them moving, so that
  \<open>reachable\<close> states are those of every interleaving; what the Kafka client promises (callbacks one
  after the other, none between a poll that returned records and the next \<open>AllowRebalance\<close>,
  partitions that are assigned before they are lost) are guards of the steps.

  Interfaces. \<open>any_result\<close> (the methods of a result), \<open>one_command\<close> (a Redis store has one effect per
  call), \<open>message_producer\<close> and \<open>dead_letters\<close> (a producer pushes its message and then only reports),
  \<open>batch_processor\<close> (what a callback of the group gives back of a batch), \<open>group_invariant\<close> (what every step
  of the group keeps), \<open>span_backend\<close> (a tracing library) and \<open>entry_decoder\<close> (reading the entries of a map)
  are locales, interpreted on the model of the code in the theory that provides it; the properties
  of the clients rest on these interpretations.

  What the properties show. A committed record has been handled and a withheld one is not committed
  within its batch (this theory, \<open>Commit\<close>, \<open>Processor\<close>), also for the group as a whole, with the processor
  as its callback (\<open>event_handlers\<close>); what an event publishes, under every
  interleaving (\<open>Processor\<close>, \<open>Producers\<close>, \<open>Services\<close>); one event per charge with the best filter,
  the error codes and flags of a failed enrichment, the only panic (\<open>Enrichment\<close>, \<open>Flat_Filters\<close>);
  the subscription that a query finds and what two cache keys have in common (\<open>Stores\<close>); when the readings of a
  timestamp differ (\<open>Timestamp_Readings\<close>). The goroutines of the consumer group refine one worker per partition, which takes,
  processes and commits a batch at a time (\<open>Group_Safety\<close>); the shutdown can be completed from every
  state but those whose poll loop left without allowing rebalances (\<open>Group_Shutdown\<close>), and then the process
  ends with every deferred call made and nothing used after it is closed (\<open>Process\<close>). A start is its
  plan, and what it opens is closed, but for what a constructor that fails leaves open (\<open>Startup\<close>). A column reads back what was written (\<open>Payloads\<close>), and so
  does every dead letter that a batch sends (\<open>Replay\<close>). Some properties state what the code does where that differs from what its
  comments promise: a later batch commits past a withheld record, a \<open>nil\<close> record is handed to the
  client, an event stamped NaN is lost, a signal at the wrong moment leaves a process that no signal ends, an
  event finished during a shutdown is published without being committed, the number of connections is cut to
  32 bits, a refused exporter of traces ends the process.

  Bounds and fuel. The JSON reader takes fuel, two per byte and two more: every step that does not
  consume a byte is followed by one that does, so the fuel is not used up before the text is
  (\<open>json_fuel\<close>: more fuel gives the same); its nesting depth is limited to 10000 as in Go. All other loops are structural, or measured by the text
  that is left (\<open>strip\<close>, \<open>show_nat\<close>). The shutdown needs no bound: \<open>shutdown_order\<close> is a measure that some
  step makes smaller in every state from which it can be completed. Integers are \<open>int\<close>
  with \<open>wrap64\<close> where Go wraps.

  Parameters. The database (\<open>db\<close>), Kafka and Redis (\<open>replies\<close>, and \<open>commit\<close> for the group's commit, which
  may also panic),
  the libraries that are asked at the start (\<open>answers\<close>), the set of handlers and
  answers of a run of the group (\<open>handlers\<close>), the expression library (\<open>sr_Evaluate\<close>), the clock (\<open>w_now\<close>, \<open>w_checked_at\<close>), the text of a JSON
  error (\<open>w_unmarshal_error\<close>) and the conversion of floats that do not fit an \<open>int64\<close> (\<open>sr_cvt\<close>), which
  Go leaves to the platform.

  Not modelled. What the libraries do behind their calls; log lines that are no errors, contexts but
  for their cancellation (of the process, \<open>Process\<close>), and the spans that the event path starts, since nothing reads them back;
  Sentry's start, \<open>utils/ptr.go\<close> (pointers to values are options here) and the doubles of the
  tests. The map of the consumer group is read and written in one step, so that a data race shows as
  two steps that are due at once. A panic of one goroutine is the panic of the batch, without the
  effects that other goroutines had before it.
\<close>

section \<open>Properties of the whole pipeline\<close>

text \<open>The handlers of the program: the processor on its topics, with whatever happens around it.\<close>

definition event_handlers :: "topics \<Rightarrow> handlers" where
  "event_handlers tps = {(process, commit). \<exists>worlds schedule. process = ProcessEvents tps worlds schedule}"

lemma unheld_handled:
  assumes "processRecordsAndCommit pc (ProcessEvents tps worlds schedule) commit records = Inr (handed, effs)"
    and "i < length records" and "\<not> withheld (worlds i) (records ! i)"
  shows "case unmarshal_event (sr_cvt (w_surroundings (worlds i))) (rec_Value (records ! i)) of
      None \<Rightarrow> CaptureException [] [] [] (Some (w_unmarshal_error (worlds i))) \<in> set effs
    | Some event \<Rightarrow> \<exists>result event' own. processEvent tps (worlds i) event = Inr (result, event', own) \<and>
        set own \<subseteq> set effs \<and>
        (Success result \<or> ProduceSync (tp_dead_letter tps) None
           (dead_letter (w_now (worlds i) 0) event' result) \<in> set effs)"
proof -
  obtain processed log0 where p: "ProcessEvents tps worlds schedule records = Inr (processed, log0)"
    and sub: "set log0 \<subseteq> set effs" using processRecordsAndCommit_handed [OF assms(1)] by metis
  from ProcessEvents_handled [OF p assms(2,3)] sub show ?thesis by (fastforce split: option.splits)
qed

text \<open>
  C13: committing never passes a withheld record of the batch: the offset that the group commits is at
  most the offset of each of them, so a group that continues from there is given it again.
\<close>

theorem commit_stops_at_withheld:
  assumes "processRecordsAndCommit pc (ProcessEvents tps worlds schedule) commit records = Inr (handed, effs)"
    and "partition_batch records" and "committed_offset handed = Some c"
    and "i < length records" and "withheld (worlds i) (records ! i)"
  shows "c \<le> rec_Offset (records ! i)"
  by (rule events.commits_stop [OF assms])

theorem commit_stops_at_withheld_witness:
  "\<exists>handed effs. sample_commit (\<lambda>i. i = 1) [5, 6] = Inr (handed, effs) \<and> committed_offset handed = Some 6"
proof -
  obtain handed effs where c: "sample_commit (\<lambda>i. i = 1) [5, 6] = Inr (handed, effs)"
    using sample_commit_returns by blast
  note run = c [unfolded sample_commit_def]
  have b: "partition_batch (map (sample_record sample_bytes) [5, 6])"
    by (rule sample_batch) (simp_all add: MaxInt64_def)
  obtain d where d: "committed_offset handed = Some d" and "5 < d"
    using commit_progress_lemma [OF run b, of 0] by (auto simp: less_Suc_eq sample_withheld_iff)
  moreover have "d \<le> 6"
    using commit_stops_at_withheld [OF run b d, of 1] by (simp add: sample_withheld_iff)
  ultimately show ?thesis using c by auto
qed

lemma committed_handled:
  assumes "processRecordsAndCommit pc (ProcessEvents tps worlds schedule) commit records = Inr (handed, effs)"
    and "partition_batch records" and "committed_offset handed = Some c"
    and "i < length records" and "rec_Offset (records ! i) < c"
  shows "case unmarshal_event (sr_cvt (w_surroundings (worlds i))) (rec_Value (records ! i)) of
      None \<Rightarrow> CaptureException [] [] [] (Some (w_unmarshal_error (worlds i))) \<in> set effs
    | Some event \<Rightarrow> \<exists>result event' own. processEvent tps (worlds i) event = Inr (result, event', own) \<and>
        set own \<subseteq> set effs \<and>
        (Success result \<or> ProduceSync (tp_dead_letter tps) None
           (dead_letter (w_now (worlds i) 0) event' result) \<in> set effs)"
  by (rule unheld_handled [OF assms(1,4)]) (use events.commits_processed [OF assms] in blast)

text \<open>
  C12: whatever is committed has been handled. Every record below the committed offset was refused by
  the JSON reader and that was captured, or its event went through \<open>processEvent\<close> with success, or
  its failure went to the dead letter queue.
\<close>

theorem committed_records_handled:
  assumes "processRecordsAndCommit pc (ProcessEvents tps worlds schedule) commit records = Inr (handed, effs)"
    and "partition_batch records" and "committed_offset handed = Some c"
    and "i < length records" and "rec_Offset (records ! i) < c"
  shows "case unmarshal_event (sr_cvt (w_surroundings (worlds i))) (rec_Value (records ! i)) of
      None \<Rightarrow> CaptureException [] [] [] (Some (w_unmarshal_error (worlds i))) \<in> set effs
    | Some event \<Rightarrow> \<exists>result event' own. processEvent tps (worlds i) event = Inr (result, event', own) \<and>
        set own \<subseteq> set effs \<and>
        (Success result \<or> ProduceSync (tp_dead_letter tps) None
           (dead_letter (w_now (worlds i) 0) event' result) \<in> set effs)"
  using assms by (rule committed_handled)

theorem committed_records_handled_witness:
  "\<exists>handed effs result event' own. sample_commit (\<lambda>i. False) [5] = Inr (handed, effs) \<and>
     processEvent sample_topics (sample_world [] False) sample_decoded = Inr (result, event', own) \<and>
     set own \<subseteq> set effs"
proof -
  obtain handed effs where c: "sample_commit (\<lambda>i. False) [5] = Inr (handed, effs)"
    using sample_commit_returns by blast
  note run = c [unfolded sample_commit_def]
  have b: "partition_batch (map (sample_record sample_bytes) [5])"
    by (rule sample_batch) (simp_all add: MaxInt64_def)
  obtain d where d: "committed_offset handed = Some d" and "rec_Offset (map (sample_record sample_bytes) [5] ! 0) < d"
    using commit_progress_lemma [OF run b, of 0] by (auto simp: sample_withheld_iff)
  then show ?thesis
    using committed_records_handled [OF run b d, of 0] c by (auto simp: sample_record_def sample_unmarshal)
qed

text \<open>
  C16: committing does not lag either: a record that is not withheld and lies below every withheld
  record of its batch is below the committed offset; in particular a batch without withheld records
  is committed as a whole.
\<close>

theorem commit_progress:
  assumes "processRecordsAndCommit pc (ProcessEvents tps worlds schedule) commit records = Inr (handed, effs)"
    and "partition_batch records" and "i < length records"
    and "\<forall>j < length records. withheld (worlds j) (records ! j) \<longrightarrow> rec_Offset (records ! i) < rec_Offset (records ! j)"
  shows "\<exists>c. committed_offset handed = Some c \<and> rec_Offset (records ! i) < c"
  using assms by (rule commit_progress_lemma)

theorem commit_progress_witness:
  "\<exists>handed effs c. sample_commit (\<lambda>i. i = 1) [5, 6] = Inr (handed, effs) \<and> committed_offset handed = Some c \<and> 5 < c"
proof -
  obtain handed effs where c: "sample_commit (\<lambda>i. i = 1) [5, 6] = Inr (handed, effs)"
    using sample_commit_returns by blast
  have b: "partition_batch (map (sample_record sample_bytes) [5, 6])"
    by (rule sample_batch) (simp_all add: MaxInt64_def)
  show ?thesis
    using commit_progress [OF c [unfolded sample_commit_def] b, of 0] c
    by (auto simp: less_Suc_eq sample_withheld_iff)
qed

lemma nil_handed:
  assumes "processRecordsAndCommit pc (ProcessEvents tps worlds schedule) commit records = Inr (handed, effs)"
    and "partition_batch records" and "i < length records" and "withheld (worlds i) (records ! i)"
    and "\<forall>r \<in> set records. rec_Offset (records ! i) \<le> rec_Offset r"
  shows "handed = [None]"
proof -
  obtain processed log0 where p: "ProcessEvents tps worlds schedule records = Inr (processed, log0)"
    and h: "handed = commitable processed records" using processRecordsAndCommit_handed [OF assms(1)] by metis
  note batch = ProcessEvents_batch [OF p assms(2)]
  have un: "records ! i \<in> unprocessed processed records"
    using batch(3) [OF assms(3)] assms(3,4) unprocessed_batch [OF assms(2) batch(1)] by simp
  have lt: "\<forall>r \<in> set processed. rec_Offset r < MaxInt64"
    using assms(2) batch(1) by (auto simp: partition_batch_def)
  have "\<forall>q \<in> set processed. \<not> below_unprocessed processed records q"
    using un batch(1) assms(5) by (fastforce simp: below_unprocessed_def not_less)
  then have "findMaxCommitableRecord processed records = None" by (simp add: findMax_None [OF lt])
  moreover have "length processed \<noteq> length records"
  proof
    assume "length processed = length records"
    then have "set processed = set records"
      using batch(1,2) assms(2) by (metis card_subset_eq distinct_card distinct_map finite_set partition_batch_def)
    then show False using un unprocessed_batch [OF assms(2) batch(1)] by simp
  qed
  ultimately show ?thesis by (simp add: h commitable_def)
qed

text \<open>
  C39: when the lowest record of a batch is withheld, what is handed to \<open>CommitRecords\<close> is a list that
  holds one \<open>nil\<close> record, where leaving out the call would commit nothing.
\<close>

theorem nil_record_handed:
  assumes "processRecordsAndCommit pc (ProcessEvents tps worlds schedule) commit records = Inr (handed, effs)"
    and "partition_batch records" and "i < length records" and "withheld (worlds i) (records ! i)"
    and "\<forall>r \<in> set records. rec_Offset (records ! i) \<le> rec_Offset r"
  shows "handed = [None]"
  using assms by (rule nil_handed)

theorem nil_record_handed_witness:
  "\<exists>effs. sample_commit (\<lambda>i. True) [6] = Inr ([None], effs)"
proof -
  obtain handed effs where c: "sample_commit (\<lambda>i. True) [6] = Inr (handed, effs)"
    using sample_commit_returns by blast
  have b: "partition_batch (map (sample_record sample_bytes) [6])"
    by (rule sample_batch) (simp_all add: MaxInt64_def)
  have "handed = [None]"
    by (rule nil_record_handed [OF c [unfolded sample_commit_def] b, of 0]) (simp_all add: sample_withheld_iff)
  with c show ?thesis by simp
qed

text \<open>
  C38: a withheld record is not protected against the batches after it. In every run of the group and the
  positions of its client, a consumer that withholds a record commits that batch at most up to it; but
  once a later batch of the consumer has a record that lies below all that this batch withholds, the
  offset committed is past the withheld record, which is never given to the consumer again.
\<close>

theorem next_batch_passes_withheld:
  assumes "client_runs (event_handlers tps) cg pos"
    and "cg_commits cg = before @ (ident, records, handed, effs) # between @ (ident, records', handed', effs') # after"
    and "partition_batch records" and "i < length records" and "MarkProcessed i \<notin> set effs"
    and "partition_batch records'" and "j < length records'"
    and "\<forall>k < length records'. MarkProcessed k \<notin> set effs' \<longrightarrow> rec_Offset (records' ! j) < rec_Offset (records' ! k)"
  shows "(\<forall>c. committed_offset handed = Some c \<longrightarrow> c \<le> rec_Offset (records ! i)) \<and>
    (\<exists>c. committed_offset handed' = Some c \<and> rec_Offset (records ! i) < c) \<and>
    records ! i \<in> set (given ident cg) \<and> distinct (given ident cg)"
proof (intro conjI allI impI)
  have reach: "reachable (event_handlers tps) cg" by (rule client_runs_reachable [OF assms(1)])
  have made: "\<exists>pc worlds schedule commit. processRecordsAndCommit pc (ProcessEvents tps worlds schedule) commit b = Inr (h, e)"
    if "(ident, b, h, e) \<in> set (cg_commits cg)" for b h e
    using commit_inv_reachable [OF reach] that by (fastforce simp: commit_inv_def event_handlers_def)
  obtain pc worlds schedule commit
    where run: "processRecordsAndCommit pc (ProcessEvents tps worlds schedule) commit records = Inr (handed, effs)"
    using made [of records handed effs] assms(2) by auto
  obtain pc' worlds' schedule' commit'
    where run': "processRecordsAndCommit pc' (ProcessEvents tps worlds' schedule') commit' records' = Inr (handed', effs')"
    using made [of records' handed' effs'] assms(2) by auto
  fix c assume c: "committed_offset handed = Some c"
  show "c \<le> rec_Offset (records ! i)"
    by (rule events.commits_stop [OF run assms(3) c assms(4)]) (use marked_iff [OF run assms(4)] assms(5) in simp)
next
  have reach: "reachable (event_handlers tps) cg" by (rule client_runs_reachable [OF assms(1)])
  obtain pc worlds schedule commit
    where run: "processRecordsAndCommit pc (ProcessEvents tps worlds schedule) commit records' = Inr (handed', effs')"
    using commit_inv_reachable [OF reach] assms(2) by (fastforce simp: commit_inv_def event_handlers_def)
  have "\<exists>c. committed_offset handed' = Some c \<and> rec_Offset (records' ! j) < c"
    by (rule events.commits_progress [OF run assms(6,7)]) (use marked_iff [OF run] assms(8) in blast)
  moreover have "rec_Offset (records ! i) < rec_Offset (records' ! j)"
    by (rule later_batch_above [OF assms(1,2)]) (use assms(4,7) in simp_all)
  ultimately show "\<exists>c. committed_offset handed' = Some c \<and> rec_Offset (records ! i) < c" by fastforce
  have "(ident, records, handed, effs) \<in> set (cg_commits cg)" using assms(2) by simp
  then show "records ! i \<in> set (given ident cg)"
    using committed_delivered [OF reach] assms(4) by (force simp: given_def)
  show "distinct (given ident cg)" by (rule given_once [OF assms(1)])
qed

text \<open>A run in which Redis refuses the flag of the first batch and takes that of the second.\<close>

theorem next_batch_passes_withheld_witness:
  "\<exists>cg pos handed effs handed' effs' c. client_runs (event_handlers sample_topics) cg pos \<and>
     cg_commits cg = [(0, [sample_record sample_bytes 6], handed, effs), (0, [sample_record sample_bytes 7], handed', effs')] \<and>
     MarkProcessed 0 \<notin> set effs \<and> committed_offset handed = None \<and> committed_offset handed' = Some c \<and> 6 < c"
proof -
  let ?hs = "event_handlers sample_topics" and ?pc = "\<lparr>pc_topic = tp_topic sample_tp, pc_partition = tp_partition sample_tp\<rparr>"
  let ?process = "\<lambda>b. ProcessEvents sample_topics (\<lambda>i. sample_world [] b) []" and ?commit = "\<lambda>handed. Inr None"
  let ?r = "\<lambda>n. [sample_record sample_bytes n]"
  have returns: "\<exists>handed effs. processRecordsAndCommit ?pc (?process b) ?commit (?r n) = Inr (handed, effs)" for b n
    using sample_returns [of "?r n" "\<lambda>i. b" "[]"] by (auto simp: processRecordsAndCommit_def Let_def)
  obtain handed effs where run: "processRecordsAndCommit ?pc (?process True) ?commit (?r 6) = Inr (handed, effs)"
    using returns by blast
  obtain handed' effs' where run': "processRecordsAndCommit ?pc (?process False) ?commit (?r 7) = Inr (handed', effs')"
    using returns by blast
  have hs: "(?process b, ?commit) \<in> ?hs" for b by (auto simp: event_handlers_def)
  have fetch: "fetched_from (\<lambda>tp. n) [(sample_tp, ?r n)] (\<lambda>tp. n + 1)" for n
    by (auto simp: fetched_from_def)
  have one: "client_runs ?hs (sample_group Selecting\<lparr>cg_delivered := [] @ [(0, ?r 6)], cg_commits := [] @ [(0, ?r 6, handed, effs)]\<rparr>) (\<lambda>tp. 6 + 1)"
    by (rule sample_round [OF _ hs _ run fetch]) (use sample_positioned [of ?hs "\<lambda>tp. 6"] in
      \<open>simp_all add: sample_group_def NewConsumerGroup_def\<close>)
  let ?cg = "sample_group Selecting\<lparr>cg_delivered := ([] @ [(0, ?r 6)]) @ [(0, ?r 7)],
      cg_commits := ([] @ [(0, ?r 6, handed, effs)]) @ [(0, ?r 7, handed', effs')]\<rparr>"
  have two: "client_runs ?hs ?cg (\<lambda>tp. 7 + 1)"
    by (rule sample_round [OF _ hs _ run' fetch]) (use one in simp_all)
  have b: "partition_batch (?r 6)" "partition_batch (?r 7)" by (auto simp: partition_batch_def MaxInt64_def)
  have held: "MarkProcessed 0 \<notin> set effs" and marked: "MarkProcessed 0 \<in> set effs'"
    using marked_iff [OF run, of 0] marked_iff [OF run', of 0] by (simp_all add: sample_withheld_iff)
  have passed: "(\<forall>c. committed_offset handed = Some c \<longrightarrow> c \<le> 6) \<and> (\<exists>c. committed_offset handed' = Some c \<and> 6 < c)"
    using next_batch_passes_withheld [OF two, where before = "[]" and between = "[]" and after = "[]" and i = 0 and j = 0
        and ident = 0 and records = "?r 6" and records' = "?r 7" and handed = handed and effs = effs
        and handed' = handed' and effs' = effs'] b held marked by simp
  have "handed = [None]"
    using nil_handed [OF run b(1), of 0] by (simp add: sample_withheld_iff)
  then have none: "committed_offset handed = None" by simp
  obtain c where c: "committed_offset handed' = Some c" "6 < c" using passed by blast
  show ?thesis
    by (intro exI [of _ ?cg] exI [of _ "\<lambda>tp. 7 + 1"] exI [of _ handed] exI [of _ effs] exI [of _ handed']
      exI [of _ effs'] exI [of _ c]) (use two held none c in simp)
qed

text \<open>
  C1: the whole consumer: in every state that the goroutines of the group can reach, with the processor
  as their callback and any behaviour of the services around it, each record of a batch that has been
  committed was sent to the consumer that committed it, and it is either withheld, not marked as processed,
  and then the offset of this commit does not pass it, or it is marked and has been handled, with the effects
  that this commit comes with: refused and captured, processed with success, or dead-lettered.
\<close>

theorem group_commits_handled:
  assumes "reachable (event_handlers tps) cg" and "(ident, records, handed, effs) \<in> set (cg_commits cg)"
    and "partition_batch records" and "i < length records"
  shows "records \<in> set (delivered_to ident cg) \<and>
    (\<exists>w. (MarkProcessed i \<in> set effs \<longleftrightarrow> \<not> withheld w (records ! i)) \<and>
      (if withheld w (records ! i)
      then \<forall>c. committed_offset handed = Some c \<longrightarrow> c \<le> rec_Offset (records ! i)
      else (case unmarshal_event (sr_cvt (w_surroundings w)) (rec_Value (records ! i)) of
        None \<Rightarrow> CaptureException [] [] [] (Some (w_unmarshal_error w)) \<in> set effs
      | Some event \<Rightarrow> \<exists>result event' own. processEvent tps w event = Inr (result, event', own) \<and>
          set own \<subseteq> set effs \<and>
          (Success result \<or> ProduceSync (tp_dead_letter tps) None
             (dead_letter (w_now w 0) event' result) \<in> set effs))))"
proof
  show "records \<in> set (delivered_to ident cg)" by (rule committed_delivered [OF assms(1,2)])
  obtain pc worlds schedule commit
    where run: "processRecordsAndCommit pc (ProcessEvents tps worlds schedule) commit records = Inr (handed, effs)"
    using commit_inv_reachable [OF assms(1)] assms(2) by (fastforce simp: commit_inv_def event_handlers_def)
  show "\<exists>w. (MarkProcessed i \<in> set effs \<longleftrightarrow> \<not> withheld w (records ! i)) \<and>
      (if withheld w (records ! i)
      then \<forall>c. committed_offset handed = Some c \<longrightarrow> c \<le> rec_Offset (records ! i)
      else (case unmarshal_event (sr_cvt (w_surroundings w)) (rec_Value (records ! i)) of
        None \<Rightarrow> CaptureException [] [] [] (Some (w_unmarshal_error w)) \<in> set effs
      | Some event \<Rightarrow> \<exists>result event' own. processEvent tps w event = Inr (result, event', own) \<and>
          set own \<subseteq> set effs \<and>
          (Success result \<or> ProduceSync (tp_dead_letter tps) None
             (dead_letter (w_now w 0) event' result) \<in> set effs)))"
    using marked_iff [OF run assms(4)] events.commits_stop [OF run assms(3) _ assms(4)] unheld_handled [OF run assms(4)]
    by (intro exI [of _ "worlds i"]) (simp split: if_split)
qed

theorem group_commits_handled_witness:
  "\<exists>cg handed effs. reachable (event_handlers sample_topics) cg \<and> cg_commits cg = [(0, [sample_kgo], handed, effs)] \<and>
     [sample_kgo] \<in> set (delivered_to 0 cg)"
proof -
  let ?commit = "\<lambda>handed. Inr None"
  obtain handed effs where c: "sample_commit (\<lambda>i. False) [4] = Inr (handed, effs)"
    using sample_commit_returns by blast
  have b: "partition_batch [sample_kgo]" by (simp add: partition_batch_def sample_kgo_def MaxInt64_def)
  note run = c [unfolded sample_commit_def]
  let ?c = "set_point 0 Selecting sample_working\<lparr>cg_commits := [(0, [sample_kgo], handed, effs)]\<rparr>"
  have "move (event_handlers sample_topics) sample_working (set_point 0 Selecting sample_working
      \<lparr>cg_commits := cg_commits sample_working @ [(0, [sample_kgo], handed, effs)]\<rparr>)"
    by (rule consume_work [where process = "ProcessEvents sample_topics (\<lambda>i. sample_world [] False) []" and commit = ?commit])
      (use run in \<open>auto simp: sample_working_def sample_kgo_def event_handlers_def sample_pc_def sample_group_def
        NewConsumerGroup_def new_consumer_def sample_tp_def PartitionConsumer.truncate_def point_def\<close>)
  then have reach: "reachable (event_handlers sample_topics) ?c"
    using reach_move [OF sample_working_reachable] by (simp add: sample_working_def)
  have "[sample_kgo] \<in> set (delivered_to 0 ?c)"
    using group_commits_handled [OF reach, of 0 "[sample_kgo]" handed effs 0] b by simp
  then show ?thesis using reach by (intro exI [of _ ?c] exI [of _ handed] exI [of _ effs]) simp
qed

end
